(* ===== verification/Prelude.thy ===== *)
theory Prelude
  imports Main "HOL-Library.AList" "HOL-Library.Multiset"
begin

text \<open>
  Shared vocabulary of the development: the run-time panics of Go as error values, Go's
  slices and maps, the unspecified order in which \<open>range\<close> visits a map, generic reachability
  with the two invariant rules as locales, and the quorum interface.

  A Go map is an association list with distinct keys (\<open>gomap_ok\<close>); a missing key reads as the
  zero value (\<open>mget0\<close>).  A slice is a list: the model copies where the code shares a backing
  array.  Go's \<open>int\<close> is \<open>int\<close>: ballots, indices and request numbers only ever grow by one
  per event, so the 64-bit bound is out of reach of every run considered here.
\<close>

named_theorems go_simps \<open>unfolding rules of the Go run-time helpers\<close>

datatype go_panic = IndexOutOfRange | SliceBounds | NilDeref

type_synonym 'a go = "go_panic + 'a"
type_synonym ('k, 'v) gomap = "('k \<times> 'v) list"

definition res_bind :: "'e + 'a \<Rightarrow> ('a \<Rightarrow> 'e + 'b) \<Rightarrow> 'e + 'b" where
  "res_bind x f = (case x of Inl e \<Rightarrow> Inl e | Inr a \<Rightarrow> f a)"

fun go_mapM :: "('a \<Rightarrow> 'e + 'b) \<Rightarrow> 'a list \<Rightarrow> 'e + 'b list" where
  "go_mapM f [] = Inr []"
| "go_mapM f (x # xs) = res_bind (f x) (\<lambda>y. res_bind (go_mapM f xs) (\<lambda>ys. Inr (y # ys)))"

text \<open>Slice expressions \<open>xs[i]\<close>, \<open>xs[i:]\<close>, \<open>xs[:i]\<close> and the assignment \<open>xs[i] = v\<close>.\<close>

definition go_index :: "'a list \<Rightarrow> int \<Rightarrow> 'a go" where
  "go_index xs i = (if 0 \<le> i \<and> i < int (length xs) then Inr (xs ! nat i) else Inl IndexOutOfRange)"

definition go_from :: "'a list \<Rightarrow> int \<Rightarrow> 'a list go" where
  "go_from xs i = (if 0 \<le> i \<and> i \<le> int (length xs) then Inr (drop (nat i) xs) else Inl SliceBounds)"

definition go_upto :: "'a list \<Rightarrow> int \<Rightarrow> 'a list go" where
  "go_upto xs i = (if 0 \<le> i \<and> i \<le> int (length xs) then Inr (take (nat i) xs) else Inl SliceBounds)"

definition go_set :: "'a list \<Rightarrow> int \<Rightarrow> 'a \<Rightarrow> 'a list go" where
  "go_set xs i v = (if 0 \<le> i \<and> i < int (length xs) then Inr (xs[nat i := v]) else Inl IndexOutOfRange)"

text \<open>Map operations; \<open>mget0 z m k\<close> is \<open>m[k]\<close> with zero value \<open>z\<close>.\<close>

abbreviation gomap_ok :: "('k, 'v) gomap \<Rightarrow> bool" where
  "gomap_ok m \<equiv> distinct (map fst m)"

abbreviation mput :: "'k \<Rightarrow> 'v \<Rightarrow> ('k, 'v) gomap \<Rightarrow> ('k, 'v) gomap" where
  "mput k v m \<equiv> AList.update k v m"

abbreviation mdel :: "'k \<Rightarrow> ('k, 'v) gomap \<Rightarrow> ('k, 'v) gomap" where
  "mdel k m \<equiv> AList.delete k m"

definition mget0 :: "'v \<Rightarrow> ('k, 'v) gomap \<Rightarrow> 'k \<Rightarrow> 'v" where
  "mget0 z m k = (case map_of m k of None \<Rightarrow> z | Some v \<Rightarrow> v)"

text \<open>
  \<open>for _, v := range m\<close> visits the entries in an unspecified order: \<open>rng\<close> reorders them.
\<close>

definition range_order :: "('a list \<Rightarrow> 'a list) \<Rightarrow> bool" where
  "range_order rng \<longleftrightarrow> (\<forall>xs. mset (rng xs) = mset xs)"

text \<open>Quorums: sets of server numbers below \<open>n\<close> with at least \<open>(n + 1) / 2\<close> members.\<close>

definition majority :: "nat \<Rightarrow> nat" where
  "majority n = (n + 1) div 2"

definition is_quorum :: "nat \<Rightarrow> int set \<Rightarrow> bool" where
  "is_quorum n Q \<longleftrightarrow> Q \<subseteq> {0..<int n} \<and> majority n \<le> card Q"

text \<open>States reachable from \<open>init\<close> by \<open>step\<close>.\<close>

inductive reach :: "('s \<Rightarrow> bool) \<Rightarrow> ('s \<Rightarrow> 's \<Rightarrow> bool) \<Rightarrow> 's \<Rightarrow> bool"
  for init :: "'s \<Rightarrow> bool" and step :: "'s \<Rightarrow> 's \<Rightarrow> bool" where
  reach_init: "init s \<Longrightarrow> reach init step s"
| reach_step: "reach init step s \<Longrightarrow> step s t \<Longrightarrow> reach init step t"

subsection \<open>Lemmas on results, slices and maps\<close>

lemma res_bind_simps [simp, go_simps]:
  "res_bind (Inl e) f = Inl e"
  "res_bind (Inr a) f = f a"
  by (simp_all add: res_bind_def)

lemma res_bind_eq_Inr [simp]:
  "res_bind x f = Inr b \<longleftrightarrow> (\<exists>a. x = Inr a \<and> f a = Inr b)"
  by (cases x) simp_all

lemma go_mapM_Inr_length: "go_mapM f xs = Inr ys \<Longrightarrow> length ys = length xs"
  by (induction xs arbitrary: ys) auto

lemma go_mapM_Inr_iff:
  "go_mapM f xs = Inr ys \<longleftrightarrow>
     length ys = length xs \<and> (\<forall>i < length xs. f (xs ! i) = Inr (ys ! i))"
proof (induction xs arbitrary: ys)
  case Nil
  then show ?case by auto
next
  case (Cons x xs)
  show ?case
    by (cases ys) (auto simp: Cons.IH nth_Cons split: nat.splits)
qed

lemma go_mapM_Inr_mem:
  assumes "go_mapM f xs = Inr ys" and "y \<in> set ys"
  obtains x where "x \<in> set xs" and "f x = Inr y"
proof -
  from assms(2) obtain i where "i < length ys" "ys ! i = y"
    by (auto simp: in_set_conv_nth)
  with assms(1) have "f (xs ! i) = Inr y" and "xs ! i \<in> set xs"
    by (auto simp: go_mapM_Inr_iff)
  then show ?thesis by (rule that [rotated])
qed

lemma go_mapM_total: "(\<And>x. x \<in> set xs \<Longrightarrow> \<exists>y. f x = Inr y) \<Longrightarrow> \<exists>ys. go_mapM f xs = Inr ys"
proof (induction xs)
  case Nil
  then show ?case by simp
next
  case (Cons x xs)
  then obtain y ys where "f x = Inr y" "go_mapM f xs = Inr ys"
    by (metis list.set_intros)
  then show ?case by simp
qed

lemma go_index_Inr [go_simps]:
  "go_index xs i = Inr v \<longleftrightarrow> 0 \<le> i \<and> i < int (length xs) \<and> v = xs ! nat i"
  by (auto simp: go_index_def)

lemma go_from_Inr [go_simps]:
  "go_from xs i = Inr ys \<longleftrightarrow> 0 \<le> i \<and> i \<le> int (length xs) \<and> ys = drop (nat i) xs"
  by (auto simp: go_from_def)

lemma go_upto_Inr [go_simps]:
  "go_upto xs i = Inr ys \<longleftrightarrow> 0 \<le> i \<and> i \<le> int (length xs) \<and> ys = take (nat i) xs"
  by (auto simp: go_upto_def)

lemma go_set_Inr [go_simps]:
  "go_set xs i v = Inr ys \<longleftrightarrow> 0 \<le> i \<and> i < int (length xs) \<and> ys = xs[nat i := v]"
  by (auto simp: go_set_def)

lemma gomap_ok_mput [simp, intro]: "gomap_ok m \<Longrightarrow> gomap_ok (mput k v m)"
  by (rule distinct_update)

lemma gomap_ok_mdel [simp, intro]: "gomap_ok m \<Longrightarrow> gomap_ok (mdel k m)"
  by (rule distinct_delete)

lemma map_of_mput [simp]: "map_of (mput k v m) k' = (if k' = k then Some v else map_of m k')"
  by (simp add: update_conv')

lemma map_of_mdel [simp]: "map_of (mdel k m) k' = (if k' = k then None else map_of m k')"
  by (simp add: delete_conv')

lemma mget0_mput [simp]: "mget0 z (mput k v m) k' = (if k' = k then v else mget0 z m k')"
  by (simp add: mget0_def)

lemma keys_mput [simp]: "fst ` set (mput k v m) = insert k (fst ` set m)"
  by (simp add: dom_map_of_conv_image_fst [symmetric]) auto

lemma keys_mdel [simp]: "fst ` set (mdel k m) = fst ` set m - {k}"
  by (simp add: dom_map_of_conv_image_fst [symmetric]) (auto split: if_splits)

lemma set_mput_subset: "(k', v') \<in> set (mput k v m) \<Longrightarrow> (k', v') = (k, v) \<or> (k', v') \<in> set m"
  by (induction m) (auto split: if_splits)

lemma vals_mput_subset: "v' \<in> snd ` set (mput k v m) \<Longrightarrow> v' = v \<or> v' \<in> snd ` set m"
  using set_mput_subset by fastforce

lemma mget0_key: "mget0 z m k \<noteq> z \<Longrightarrow> k \<in> fst ` set m"
  by (auto simp: mget0_def split: option.splits dest: map_of_SomeD intro: rev_image_eqI)

lemma length_mput_le: "length m \<le> length (mput k v m)"
  by (induction m) auto

lemma range_order_set [simp]: "range_order rng \<Longrightarrow> set (rng xs) = set xs"
  unfolding range_order_def by (metis set_mset_mset)

lemma range_order_id [simp]: "range_order id"
  and range_order_rev [simp]: "range_order rev"
  by (simp_all add: range_order_def)

lemma nth_list_update_cases: "i < length xs \<Longrightarrow> xs[j := v] ! i = (if i = j then v else xs ! i)"
  by (simp add: nth_list_update)

subsection \<open>Quorums\<close>

text \<open>
  The interface the replication protocol needs of its quorums.  The size of the cluster is a
  parameter of the predicate; the intersection law is promised for odd sizes only, because
  that is what \<open>(len(peers)+1)/2\<close> gives.
\<close>

locale quorum_system =
  fixes quorum :: "nat \<Rightarrow> int set \<Rightarrow> bool"
  assumes quorum_members: "quorum n Q \<Longrightarrow> Q \<subseteq> {0..<int n}"
    and quorum_meets: "odd n \<Longrightarrow> quorum n Q \<Longrightarrow> quorum n R \<Longrightarrow> Q \<inter> R \<noteq> {}"
    and quorum_grows: "quorum n Q \<Longrightarrow> Q \<subseteq> R \<Longrightarrow> R \<subseteq> {0..<int n} \<Longrightarrow> quorum n R"
begin

lemma quorum_common:
  assumes "odd n" and "quorum n Q" and "quorum n R"
  obtains p where "p \<in> Q" "p \<in> R" "0 \<le> p" "p < int n"
  using quorum_meets [OF assms] quorum_members [OF assms(2)] by fastforce

lemma quorum_nonempty: "odd n \<Longrightarrow> quorum n Q \<Longrightarrow> Q \<noteq> {}"
  using quorum_meets [of n Q Q] by auto

lemma quorum_all: "quorum n Q \<Longrightarrow> quorum n {0..<int n}"
  using quorum_grows quorum_members by blast

end

lemma quorum_card_meets:
  assumes "odd n" and "is_quorum n Q" and "is_quorum n R"
  shows "Q \<inter> R \<noteq> {}"
proof
  assume disj: "Q \<inter> R = {}"
  have fin: "finite Q" "finite R" "Q \<union> R \<subseteq> {0..<int n}"
    using assms finite_subset by (auto simp: is_quorum_def)
  then have "card Q + card R \<le> n"
    using card_Un_disjoint [of Q R] card_mono [of "{0..<int n}" "Q \<union> R"] disj by simp
  moreover have "n < 2 * majority n"
    using assms(1) by (simp add: majority_def)
  ultimately show False
    using assms(2,3) by (simp add: is_quorum_def)
qed

interpretation maj: quorum_system is_quorum
proof unfold_locales
  fix n Q R
  assume "is_quorum n Q" "Q \<subseteq> R" "R \<subseteq> {0..<int n}"
  then show "is_quorum n R"
    using card_mono [of R Q] finite_subset [of R "{0..<int n}"]
    by (auto simp: is_quorum_def)
qed (auto simp: is_quorum_def quorum_card_meets [unfolded is_quorum_def])

subsection \<open>Invariant rules\<close>

locale inductive_invariant =
  fixes init :: "'s \<Rightarrow> bool" and step :: "'s \<Rightarrow> 's \<Rightarrow> bool" and I :: "'s \<Rightarrow> bool"
  assumes base: "init s \<Longrightarrow> I s"
    and preserved: "reach init step s \<Longrightarrow> I s \<Longrightarrow> step s t \<Longrightarrow> I t"
begin

lemma reach_inv: "reach init step s \<Longrightarrow> I s"
  by (induction rule: reach.induct) (auto intro: base preserved)

end

end
