(* ===== verification/Labgob.thy ===== *)
theory Labgob
  imports Prelude
begin

text \<open>
  The checks \<open>labgob/labgob.go\<close> makes before it hands a value to the standard encoder: lower-case
  field names (\<open>checkType\<close>) and decoding into a variable that is not zero (\<open>checkDefault\<close>), and the
  encoder and decoder that make them.

  A \<open>reflect.Type\<close> is a position in the list \<open>ts\<close> of the program's composite types, so that types may
  be recursive; any other number is a type without components.  The recursion of \<open>checkType\<close>
  is a list of work still to do, in the order the code does it.
\<close>

datatype go_type =
    TStruct "(string \<times> nat) list"
  | TElem nat
  | TMap nat nat
  | TBasic

text \<open>A basic value is given by the name of its type and whether it differs from the zero value.\<close>

datatype go_value =
    VStruct "(string \<times> go_value) list"
  | VPtr "go_value option"
  | VBasic string bool
  | VOther

record labgob =
  lg_checked :: "nat list"
  lg_errorCount :: int
  lg_warned :: "string list"

definition labgob_init :: labgob where
  "labgob_init = \<lparr>lg_checked = [], lg_errorCount = 0, lg_warned = []\<rparr>"

subsection \<open>Lower-case fields\<close>

text \<open>\<open>unicode.IsUpper\<close> of the first rune, for the ASCII identifiers of the program.\<close>

definition startsUpper :: "string \<Rightarrow> bool" where
  "startsUpper name = (case name of [] \<Rightarrow> False | c # _ \<Rightarrow> of_char c \<in> {65..90 :: nat})"

datatype work = Complain string | Check nat

definition go_type_of :: "go_type list \<Rightarrow> nat \<Rightarrow> go_type" where
  "go_type_of ts t = (if t < length ts then ts ! t else TBasic)"

definition components :: "go_type \<Rightarrow> work list" where
  "components k =
     (case k of
        TStruct fs \<Rightarrow> concat (map (\<lambda>(name, t). [Complain name, Check t]) fs)
      | TElem t \<Rightarrow> [Check t]
      | TMap e k \<Rightarrow> [Check e, Check k]
      | TBasic \<Rightarrow> [])"

definition unseen :: "go_type list \<Rightarrow> labgob \<Rightarrow> nat set" where
  "unseen ts lg = {..<length ts} - set (lg_checked lg)"

function checkWork :: "go_type list \<Rightarrow> labgob \<Rightarrow> work list \<Rightarrow> labgob" where
  "checkWork ts lg [] = lg"
| "checkWork ts lg (Complain name # ws) =
     checkWork ts (if startsUpper name = False then lg\<lparr>lg_errorCount := lg_errorCount lg + 1\<rparr> else lg) ws"
| "checkWork ts lg (Check t # ws) =
     (if t \<in> set (lg_checked lg) then checkWork ts lg ws
      else checkWork ts (lg\<lparr>lg_checked := t # lg_checked lg\<rparr>) (components (go_type_of ts t) @ ws))"
  by pat_completeness auto
termination
proof (relation "measures [\<lambda>(ts, lg, ws). card (unseen ts lg), \<lambda>(ts, lg, ws). length ws]", goal_cases)
  case (4 ts lg t ws)
  show ?case
  proof (cases "t < length ts")
    case True
    with 4 have "unseen ts (lg\<lparr>lg_checked := t # lg_checked lg\<rparr>) \<subset> unseen ts lg" by (auto simp: unseen_def)
    then have "card (unseen ts (lg\<lparr>lg_checked := t # lg_checked lg\<rparr>)) < card (unseen ts lg)"
      by (rule psubset_card_mono [rotated]) (simp add: unseen_def)
    then show ?thesis by simp
  next
    case False
    then have "unseen ts (lg\<lparr>lg_checked := t # lg_checked lg\<rparr>) = unseen ts lg" by (auto simp: unseen_def)
    with False show ?thesis by (simp add: go_type_of_def components_def)
  qed
qed (auto simp: unseen_def)

definition checkType :: "go_type list \<Rightarrow> labgob \<Rightarrow> nat \<Rightarrow> labgob" where
  "checkType ts lg t = checkWork ts lg [Check t]"

subsection \<open>Non-default values\<close>

definition warn :: "labgob \<Rightarrow> string \<Rightarrow> labgob" where
  "warn lg what =
     lg\<lparr>lg_warned := (if lg_errorCount lg < 1 then lg_warned lg @ [what] else lg_warned lg),
        lg_errorCount := lg_errorCount lg + 1\<rparr>"

text \<open>
  The walk over a variable.  \<open>ro\<close> says that the value was reached through a lower-case field: \<open>reflect\<close>
  lets it be inspected, but \<open>value.Interface()\<close>, which the comparison with the zero value calls, panics.
\<close>

datatype reflect_panic = UnexportedField

fun checkDefault1 :: "bool \<Rightarrow> go_value \<Rightarrow> int \<Rightarrow> string \<Rightarrow> labgob \<Rightarrow> reflect_panic + labgob"
  and checkFields :: "bool \<Rightarrow> (string \<times> go_value) list \<Rightarrow> int \<Rightarrow> string \<Rightarrow> labgob \<Rightarrow> reflect_panic + labgob" where
  "checkDefault1 ro (VStruct fs) depth name lg = (if depth > 3 then Inr lg else checkFields ro fs depth name lg)"
| "checkDefault1 ro (VPtr None) depth name lg = Inr lg"
| "checkDefault1 ro (VPtr (Some u)) depth name lg = (if depth > 3 then Inr lg else checkDefault1 ro u (depth + 1) name lg)"
| "checkDefault1 ro (VBasic tname nonzero) depth name lg =
     (if depth > 3 then Inr lg
      else if ro then Inl UnexportedField
      else Inr (if nonzero then warn lg (if name = [] then tname else name) else lg))"
| "checkDefault1 ro VOther depth name lg = Inr lg"
| "checkFields ro [] depth name lg = Inr lg"
| "checkFields ro ((f, vv) # fs) depth name lg =
     res_bind (checkDefault1 (ro \<or> \<not> startsUpper f) vv (depth + 1) (if name \<noteq> [] then name @ ''.'' @ f else f) lg)
       (checkFields ro fs depth name)"

definition checkDefault :: "go_value option \<Rightarrow> labgob \<Rightarrow> reflect_panic + labgob" where
  "checkDefault value lg = (case value of None \<Rightarrow> Inr lg | Some v \<Rightarrow> checkDefault1 False v 1 [] lg)"

text \<open>The checks of \<open>Encode\<close>, \<open>EncodeValue\<close>, \<open>Register\<close> and \<open>RegisterName\<close>, and those of \<open>Decode\<close>.\<close>

definition checkEncode :: "go_type list \<Rightarrow> labgob \<Rightarrow> nat \<Rightarrow> labgob" where
  "checkEncode ts lg t = checkType ts lg t"

definition checkDecode :: "go_type list \<Rightarrow> labgob \<Rightarrow> nat \<Rightarrow> go_value option \<Rightarrow> reflect_panic + labgob" where
  "checkDecode ts lg t value = checkDefault value (checkType ts lg t)"

subsection \<open>What is counted\<close>

text \<open>
  What a type is made of, read off the type: the fields of a struct, the elements of a slice, array or
  pointer, the elements and the keys of a map; and its lower-case fields.
\<close>

inductive part_of :: "go_type list \<Rightarrow> nat \<Rightarrow> nat \<Rightarrow> bool" for ts :: "go_type list" where
  part_field: "t < length ts \<Longrightarrow> ts ! t = TStruct fs \<Longrightarrow> (name, u) \<in> set fs \<Longrightarrow> part_of ts t u"
| part_elem: "t < length ts \<Longrightarrow> ts ! t = TElem u \<Longrightarrow> part_of ts t u"
| part_map_elem: "t < length ts \<Longrightarrow> ts ! t = TMap u k \<Longrightarrow> part_of ts t u"
| part_map_key: "t < length ts \<Longrightarrow> ts ! t = TMap e u \<Longrightarrow> part_of ts t u"

inductive_simps part_of_iff: "part_of ts t u"

fun lower_names :: "go_type \<Rightarrow> nat" where
  "lower_names (TStruct fs) = length (filter (\<lambda>(name, _). \<not> startsUpper name) fs)"
| "lower_names _ = 0"

definition lower_fields :: "go_type list \<Rightarrow> nat \<Rightarrow> int" where
  "lower_fields ts t = (if t < length ts then int (lower_names (ts ! t)) else 0)"

text \<open>The types a check of \<open>t\<close> gets to when those in \<open>C\<close> are marked: it does not go through a marked type.\<close>

definition newly :: "go_type list \<Rightarrow> nat set \<Rightarrow> nat \<Rightarrow> nat set" where
  "newly ts C t = (if t \<in> C then {} else {u. (\<lambda>a b. part_of ts a b \<and> b \<notin> C)\<^sup>*\<^sup>* t u})"

lemma part_of_components: "part_of ts t u \<longleftrightarrow> Check u \<in> set (components (go_type_of ts t))"
  by (auto simp: part_of_iff components_def go_type_of_def split: go_type.splits)

text \<open>The part of the work list that complains.\<close>

definition complaints :: "work list \<Rightarrow> int" where
  "complaints ws = int (length (filter (\<lambda>w. \<exists>name. w = Complain name \<and> \<not> startsUpper name) ws))"

lemma complaints_simps [simp]:
  "complaints [] = 0" "complaints (Check t # ws) = complaints ws"
  "complaints (Complain name # ws) = (if startsUpper name then 0 else 1) + complaints ws"
  "complaints (vs @ ws) = complaints vs + complaints ws"
  by (simp_all add: complaints_def)

lemma lower_fields_complaints: "lower_fields ts t = complaints (components (go_type_of ts t))"
proof -
  have "complaints (concat (map (\<lambda>(name, t). [Complain name, Check t]) fs)) = int (lower_names (TStruct fs))" for fs
    by (induction fs) auto
  then show ?thesis
    by (cases "go_type_of ts t") (auto simp: lower_fields_def components_def go_type_of_def split: if_splits)
qed

text \<open>
  What a work list does: it marks the types it names and everything they are made of, and counts
  the lower-case fields of every type it marks.
\<close>

definition explored :: "go_type list \<Rightarrow> labgob \<Rightarrow> work list \<Rightarrow> labgob \<Rightarrow> bool" where
  "explored ts lg ws lg' \<longleftrightarrow> set (lg_checked lg) \<subseteq> set (lg_checked lg')
     \<and> (\<forall>t. Check t \<in> set ws \<longrightarrow> t \<in> set (lg_checked lg'))
     \<and> (\<forall>t \<in> set (lg_checked lg') - set (lg_checked lg). Collect (part_of ts t) \<subseteq> set (lg_checked lg'))
     \<and> lg_errorCount lg' = lg_errorCount lg + complaints ws
         + (\<Sum>t \<in> set (lg_checked lg') - set (lg_checked lg). lower_fields ts t)
     \<and> lg_warned lg' = lg_warned lg"

lemma explored_mark:
  assumes ex: "explored ts (lg\<lparr>lg_checked := t # lg_checked lg\<rparr>) (components (go_type_of ts t) @ ws) lg'"
    and new: "t \<notin> set (lg_checked lg)"
  shows "explored ts lg (Check t # ws) lg'"
proof -
  let ?C = "set (lg_checked lg)" and ?D = "set (lg_checked lg')"
  note e = ex [unfolded explored_def, simplified]
  have split: "?D - ?C = insert t (?D - insert t ?C)" using e new by auto
  have "(\<Sum>u \<in> ?D - ?C. lower_fields ts u) = lower_fields ts t + (\<Sum>u \<in> ?D - insert t ?C. lower_fields ts u)"
    unfolding split by (rule sum.insert) auto
  with e have "lg_errorCount lg' = lg_errorCount lg + complaints (Check t # ws) + (\<Sum>u \<in> ?D - ?C. lower_fields ts u)"
    by (simp add: lower_fields_complaints)
  moreover have "Collect (part_of ts t) \<subseteq> ?D" using e by (auto simp: part_of_components)
  then have "\<forall>u \<in> ?D - ?C. Collect (part_of ts u) \<subseteq> ?D" unfolding split using e by auto
  moreover have "\<forall>u. Check u \<in> set (Check t # ws) \<longrightarrow> u \<in> ?D" using e by auto
  ultimately show ?thesis using e unfolding explored_def by blast
qed

lemma checkWork_explored: "explored ts lg ws (checkWork ts lg ws)"
proof (induction ts lg ws rule: checkWork.induct)
  case (1 ts lg)
  then show ?case by (simp add: explored_def)
next
  case (2 ts lg name ws)
  then show ?case by (cases "startsUpper name") (simp_all add: explored_def)
next
  case (3 ts lg t ws)
  show ?case
  proof (cases "t \<in> set (lg_checked lg)")
    case True
    with 3(1) [OF True] show ?thesis by (auto simp: explored_def)
  next
    case False
    with explored_mark [OF 3(2) [OF False] False] show ?thesis by simp
  qed
qed

text \<open>Nothing else is marked, and everything that can be reached is.\<close>

lemma newly_mono:
  assumes "part_of ts t v" and "v \<notin> insert t C" and "t \<notin> C" and "u \<in> newly ts (insert t C) v"
  shows "u \<in> newly ts C t"
proof -
  have "(\<lambda>a b. part_of ts a b \<and> b \<notin> insert t C)\<^sup>*\<^sup>* v u" using assms(2,4) by (simp add: newly_def)
  then have "(\<lambda>a b. part_of ts a b \<and> b \<notin> C)\<^sup>*\<^sup>* v u" by (rule rtranclp_mono [THEN predicate2D, rotated]) auto
  moreover have "part_of ts t v \<and> v \<notin> C" using assms(1,2) by simp
  ultimately show ?thesis using assms(3) by (simp add: newly_def converse_rtranclp_into_rtranclp)
qed

lemma newly_other: "u \<in> newly ts (insert t C) v \<Longrightarrow> u \<in> newly ts C v"
proof -
  assume u: "u \<in> newly ts (insert t C) v"
  then have "v \<notin> C" "(\<lambda>a b. part_of ts a b \<and> b \<notin> insert t C)\<^sup>*\<^sup>* v u" by (simp_all add: newly_def split: if_splits)
  moreover from this(2) have "(\<lambda>a b. part_of ts a b \<and> b \<notin> C)\<^sup>*\<^sup>* v u" by (rule rtranclp_mono [THEN predicate2D, rotated]) auto
  ultimately show ?thesis by (simp add: newly_def)
qed

lemma checkWork_only:
  "u \<in> set (lg_checked (checkWork ts lg ws)) \<Longrightarrow>
     u \<in> set (lg_checked lg) \<or> (\<exists>t. Check t \<in> set ws \<and> u \<in> newly ts (set (lg_checked lg)) t)"
proof (induction ts lg ws rule: checkWork.induct)
  case (2 ts lg name ws)
  then show ?case by (cases "startsUpper name") auto
next
  case (3 ts lg t ws)
  show ?case
  proof (cases "t \<in> set (lg_checked lg)")
    case True
    with 3(1) [OF True] 3(3) show ?thesis by auto
  next
    case False
    let ?C = "set (lg_checked lg)"
    from 3(2) [OF False] 3(3) False consider "u \<in> insert t ?C"
      | v where "Check v \<in> set (components (go_type_of ts t))" "u \<in> newly ts (insert t ?C) v"
      | v where "Check v \<in> set ws" "u \<in> newly ts (insert t ?C) v" by auto
    then show ?thesis
    proof cases
      case 1
      with False show ?thesis by (auto simp: newly_def)
    next
      case (2 v)
      then have "v \<notin> insert t ?C" by (auto simp: newly_def)
      with 2 newly_mono [of ts t v ?C u] False have "u \<in> newly ts ?C t" by (simp add: part_of_components)
      then show ?thesis by auto
    next
      case (3 v)
      then show ?thesis using newly_other by fastforce
    qed
  qed
qed simp

lemma newly_marked:
  assumes "explored ts lg [Check t] lg'" and "u \<in> newly ts (set (lg_checked lg)) t"
  shows "u \<in> set (lg_checked lg') - set (lg_checked lg)"
proof -
  let ?C = "set (lg_checked lg)"
  have t: "t \<notin> ?C" "(\<lambda>a b. part_of ts a b \<and> b \<notin> ?C)\<^sup>*\<^sup>* t u" using assms(2) by (auto simp: newly_def split: if_splits)
  from t(2) show ?thesis
  proof (induction rule: rtranclp_induct)
    case base
    with assms(1) t(1) show ?case by (simp add: explored_def)
  next
    case (step a b)
    with assms(1) show ?case unfolding explored_def by blast
  qed
qed

text \<open>
  C31: every type is checked once.  \<open>checkType\<close> ends for recursive types too; the types it newly marks are
  exactly those that can be reached from its argument without going through a type that was marked
  before, the error count has grown by the number of lower-case fields of these types, and a second
  check of the same type does nothing.
\<close>
theorem checkType_complains_once:
  assumes "lg' = checkType ts lg t"
  shows "set (lg_checked lg') = set (lg_checked lg) \<union> newly ts (set (lg_checked lg)) t
    \<and> lg_errorCount lg' = lg_errorCount lg + (\<Sum>u \<in> newly ts (set (lg_checked lg)) t. lower_fields ts u)
    \<and> checkType ts lg' t = lg'"
proof -
  have ex: "explored ts lg [Check t] lg'" using checkWork_explored [of ts lg "[Check t]"] assms by (simp only: checkType_def)
  have "u \<in> newly ts (set (lg_checked lg)) t" if "u \<in> set (lg_checked lg') - set (lg_checked lg)" for u
    using that checkWork_only [of u ts lg "[Check t]"] assms by (auto simp: checkType_def)
  with newly_marked [OF ex] have new: "set (lg_checked lg') - set (lg_checked lg) = newly ts (set (lg_checked lg)) t" by blast
  have "t \<in> set (lg_checked lg')" "set (lg_checked lg) \<subseteq> set (lg_checked lg')"
    "lg_errorCount lg' = lg_errorCount lg + (\<Sum>u \<in> set (lg_checked lg') - set (lg_checked lg). lower_fields ts u)"
    using ex by (simp_all add: explored_def)
  with new show ?thesis by (auto simp: checkType_def)
qed

text \<open>A list node with a lower-case field, recursive through a pointer.\<close>

definition node_types :: "go_type list" where
  "node_types = [TStruct [(''Val'', 7), (''next'', 1)], TElem 0]"

theorem checkType_complains_once_witness:
  "lg_errorCount (checkType node_types labgob_init 1) = 1
   \<and> checkType node_types (checkType node_types labgob_init 1) 1 = checkType node_types labgob_init 1"
proof -
  have "lg_errorCount (checkType node_types labgob_init 1) = 1" by code_simp
  then show ?thesis using checkType_complains_once [OF refl [of "checkType node_types labgob_init 1"]] by simp
qed

text \<open>
  Why the reply variable that \<open>getChangeOp\<close> of \<open>shardkv\<close> reuses after a refusal is reported: the
  error string left in it is a non-default field at depth 3.
\<close>

lemma reused_reply_is_reported:
  "map_option lg_warned (case checkDefault (Some (VPtr (Some (VStruct [(''Store'', VOther), (''Prev'', VOther), (''Err'', VBasic ''Err'' True)]))))
       labgob_init of Inl _ \<Rightarrow> None | Inr lg \<Rightarrow> Some lg) = Some [''Err'']"
  by code_simp

subsection \<open>Encoder and decoder\<close>

text \<open>
  The wrappers around \<open>encoding/gob\<close>, for structs, like the arguments and replies of the services.  A
  field has a basic type, or it is a slice or a map.  As in \<open>Persistence\<close> a gob stream is a list of
  messages; a message has the fields with capital names that are not zero, and a struct that has
  fields but none with a capital name is refused.  \<open>gob.Decode\<close> overwrites the fields it finds in the
  next message and leaves the others as they are; what it makes of a slice or a map that is already
  in the variable is the parameter \<open>merge\<close>.  A variable is given by the number of its type and its
  fields, with their kinds.
\<close>

datatype fkind = FBasic string | FOther

type_synonym 'x fields = "(string \<times> fkind \<times> 'x) list"

type_synonym 'x message = "(string \<times> 'x) list"

datatype gob_err = GobEOF | GobNoExported

definition gobMessage :: "('x :: zero) fields \<Rightarrow> 'x message" where
  "gobMessage v = map (\<lambda>(f, _, x). (f, x)) (filter (\<lambda>(f, _, x). startsUpper f \<and> x \<noteq> 0) v)"

definition gobField :: "('x \<Rightarrow> 'x \<Rightarrow> 'x) \<Rightarrow> fkind \<Rightarrow> 'x \<Rightarrow> 'x \<Rightarrow> 'x" where
  "gobField merge k x y = (case k of FBasic _ \<Rightarrow> y | FOther \<Rightarrow> merge x y)"

definition gobOverwrite :: "('x \<Rightarrow> 'x \<Rightarrow> 'x) \<Rightarrow> 'x fields \<Rightarrow> 'x message \<Rightarrow> 'x fields" where
  "gobOverwrite merge var msg =
     map (\<lambda>(f, k, x). (f, k, if startsUpper f then (case map_of msg f of None \<Rightarrow> x | Some y \<Rightarrow> gobField merge k x y) else x)) var"

definition reflectField :: "string \<times> fkind \<times> ('x :: zero) \<Rightarrow> string \<times> go_value" where
  "reflectField = (\<lambda>(f, k, x). (f, case k of FBasic tname \<Rightarrow> VBasic tname (x \<noteq> 0) | FOther \<Rightarrow> VOther))"

definition reflected :: "('x :: zero) fields \<Rightarrow> go_value" where
  "reflected v = VPtr (Some (VStruct (map reflectField v)))"

record 'x LabEncoder =
  enc_gob :: "'x message list"

definition NewEncoder :: "'x message list \<Rightarrow> 'x LabEncoder" where
  "NewEncoder w = \<lparr>enc_gob = w\<rparr>"

definition Encode :: "go_type list \<Rightarrow> labgob \<Rightarrow> ('x :: zero) LabEncoder \<Rightarrow> nat \<Rightarrow> 'x fields
    \<Rightarrow> labgob \<times> 'x LabEncoder \<times> gob_err option" where
  "Encode ts lg enc t e =
     (let lg1 = checkEncode ts lg t
      in if e \<noteq> [] \<and> list_all (\<lambda>(f, _, _). \<not> startsUpper f) e then (lg1, enc, Some GobNoExported)
         else (lg1, enc\<lparr>enc_gob := enc_gob enc @ [gobMessage e]\<rparr>, None))"

record 'x LabDecoder =
  dec_gob :: "'x message list"

definition NewDecoder :: "'x message list \<Rightarrow> 'x LabDecoder" where
  "NewDecoder r = \<lparr>dec_gob = r\<rparr>"

definition Decode :: "('x \<Rightarrow> 'x \<Rightarrow> 'x) \<Rightarrow> go_type list \<Rightarrow> labgob \<Rightarrow> ('x :: zero) LabDecoder \<Rightarrow> nat \<Rightarrow> 'x fields
    \<Rightarrow> reflect_panic + (labgob \<times> 'x LabDecoder \<times> 'x fields \<times> gob_err option)" where
  "Decode merge ts lg dec t e =
     res_bind (checkDecode ts lg t (Some (reflected e))) (\<lambda>lg1.
       Inr (case dec_gob dec of
              [] \<Rightarrow> (lg1, dec, e, Some GobEOF)
            | msg # rest \<Rightarrow> (lg1, dec\<lparr>dec_gob := rest\<rparr>, gobOverwrite merge e msg, None)))"

text \<open>The registry of \<open>gob\<close> has one type per name and one name per type; \<open>None\<close> is the panic of a duplicate.\<close>

definition RegisterName :: "go_type list \<Rightarrow> labgob \<Rightarrow> (string \<times> nat) list \<Rightarrow> string \<Rightarrow> nat \<Rightarrow> labgob \<times> (string \<times> nat) list option" where
  "RegisterName ts lg reg name t =
     (checkEncode ts lg t,
      if \<exists>(name', t') \<in> set reg. (name' = name) \<noteq> (t' = t) then None else Some (List.insert (name, t) reg))"

definition Register :: "go_type list \<Rightarrow> labgob \<Rightarrow> (string \<times> nat) list \<Rightarrow> (nat \<Rightarrow> string) \<Rightarrow> nat \<Rightarrow> labgob \<times> (string \<times> nat) list option" where
  "Register ts lg reg typeName t = RegisterName ts lg reg (typeName t) t"

text \<open>Every server registers the types of its service when it starts; only the first time matters.\<close>

lemma Register_again:
  assumes "Register ts lg reg nm t = (lg1, Some reg1)"
  shows "Register ts lg1 reg1 nm t = (lg1, Some reg1)"
proof -
  have lg1: "lg1 = checkType ts lg t" and reg1: "reg1 = List.insert (nm t, t) reg"
    and ok: "\<forall>(name, u) \<in> set reg. (name = nm t) = (u = t)"
    using assms by (auto simp: Register_def RegisterName_def checkEncode_def split: if_splits)
  have "t \<in> set (lg_checked lg1)" using checkWork_explored [of ts lg "[Check t]"] by (simp add: explored_def lg1 checkType_def)
  then have "checkType ts lg1 t = lg1" by (simp add: checkType_def)
  moreover have "\<forall>(name, u) \<in> set reg1. (name = nm t) = (u = t)" using ok by (auto simp: reg1)
  then have "\<not> (\<exists>(name, u) \<in> set reg1. (name = nm t) \<noteq> (u = t))" by auto
  moreover have "List.insert (nm t, t) reg1 = reg1" by (simp add: reg1)
  ultimately show ?thesis by (simp add: Register_def RegisterName_def checkEncode_def)
qed

text \<open>The fields \<open>checkDefault\<close> looks at.\<close>

definition basic :: "string \<times> fkind \<times> 'x \<Rightarrow> bool" where
  "basic = (\<lambda>(_, k, _). k \<noteq> FOther)"

lemma map_of_gobMessage:
  assumes "distinct (map fst v)" and "(f, k, y) \<in> set v"
  shows "map_of (gobMessage v) f = (if startsUpper f \<and> y \<noteq> 0 then Some y else None)"
  using assms
proof (induction v)
  case (Cons a v)
  have "map_of (gobMessage v) f = None" if "f \<notin> fst ` set v"
    using that by (force simp: gobMessage_def map_of_eq_None_iff)
  moreover have "f \<in> fst ` set v" if "(f, k, y) \<in> set v" using that by force
  ultimately show ?case using Cons by (cases a) (auto simp: gobMessage_def)
qed simp

lemma checkDefault_reflected:
  fixes v :: "('x :: zero) fields"
  shows "checkDefault (Some (reflected v)) lg = Inr lg' \<Longrightarrow>
      list_all (\<lambda>(f, k, x). basic (f, k, x) \<longrightarrow> startsUpper f) v
      \<and> lg_errorCount lg' = lg_errorCount lg + int (length (filter (\<lambda>(f, k, x). basic (f, k, x) \<and> x \<noteq> 0) v))"
    and "checkDefault (Some (reflected v)) lg = Inl e \<Longrightarrow> \<exists>(f, k, x) \<in> set v. basic (f, k, x) \<and> \<not> startsUpper f"
proof -
  let ?walk = "\<lambda>v :: 'x fields. checkFields False (map reflectField v) 2 []"
  have step: "checkDefault1 (\<not> startsUpper f) (snd (reflectField (f, k, x))) 3 f lg =
     (if basic (f, k, x)
      then if startsUpper f then Inr (if x \<noteq> 0 then warn lg (if f = [] then (case k of FBasic tn \<Rightarrow> tn | FOther \<Rightarrow> []) else f) else lg)
           else Inl UnexportedField
      else Inr lg)" for f k lg and x :: 'x
    by (cases k) (auto simp: basic_def reflectField_def)
  have fst: "fst (reflectField a) = fst a" for a :: "string \<times> fkind \<times> 'x" by (cases a) (simp add: reflectField_def)
  have cons: "?walk (a # v) lg = res_bind (checkDefault1 (\<not> startsUpper (fst a)) (snd (reflectField a)) 3 (fst a) lg) (?walk v)"
    for a :: "string \<times> fkind \<times> 'x" and v lg using fst [of a] by (cases "reflectField a") simp
  have ok: "?walk v lg = Inr lg' \<Longrightarrow> list_all (\<lambda>(f, k, x). basic (f, k, x) \<longrightarrow> startsUpper f) v
      \<and> lg_errorCount lg' = lg_errorCount lg + int (length (filter (\<lambda>(f, k, x). basic (f, k, x) \<and> x \<noteq> 0) v))" for v lg lg'
  proof (induction v arbitrary: lg)
    case (Cons a v)
    obtain f k x where a: "a = (f, k, x)" by (cases a)
    from Cons.prems obtain lg1 where w: "checkDefault1 (\<not> startsUpper f) (snd (reflectField a)) 3 f lg = Inr lg1" "?walk v lg1 = Inr lg'"
      unfolding cons by (auto simp: a res_bind_def split: sum.splits)
    from Cons.IH [OF w(2)] w(1) show ?case unfolding a step by (auto simp: warn_def split: if_splits)
  qed simp
  have bad: "?walk v lg = Inl e \<Longrightarrow> \<exists>(f, k, x) \<in> set v. basic (f, k, x) \<and> \<not> startsUpper f" for v lg
  proof (induction v arbitrary: lg)
    case (Cons a v)
    obtain f k x where a: "a = (f, k, x)" by (cases a)
    from Cons.prems consider "checkDefault1 (\<not> startsUpper f) (snd (reflectField a)) 3 f lg = Inl e"
      | lg1 where "?walk v lg1 = Inl e"
      unfolding cons by (auto simp: a res_bind_def split: sum.splits)
    then show ?case
    proof cases
      case 1
      then show ?thesis unfolding a step by (auto split: if_splits)
    next
      case 2
      from Cons.IH [OF this] show ?thesis by auto
    qed
  qed simp
  have walk: "checkDefault (Some (reflected v)) lg = ?walk v lg" by (simp add: checkDefault_def reflected_def)
  show "checkDefault (Some (reflected v)) lg = Inr lg' \<Longrightarrow> list_all (\<lambda>(f, k, x). basic (f, k, x) \<longrightarrow> startsUpper f) v
      \<and> lg_errorCount lg' = lg_errorCount lg + int (length (filter (\<lambda>(f, k, x). basic (f, k, x) \<and> x \<noteq> 0) v))"
    unfolding walk by (rule ok)
  show "checkDefault (Some (reflected v)) lg = Inl e \<Longrightarrow> \<exists>(f, k, x) \<in> set v. basic (f, k, x) \<and> \<not> startsUpper f"
    unfolding walk by (rule bad)
qed


lemma overwritten_field:
  assumes "map (\<lambda>(f, k, _). (f, k)) var = map (\<lambda>(f, k, _). (f, k)) v" and "distinct (map fst v)" and "i < length v"
  shows "\<exists>f k x y. var ! i = (f, k, x) \<and> v ! i = (f, k, y)
    \<and> gobOverwrite merge var (gobMessage v) ! i = (f, k, if startsUpper f \<and> y \<noteq> 0 then gobField merge k x y else x)"
proof -
  have i: "i < length var" using arg_cong [OF assms(1), of length] assms(3) by simp
  obtain f k y where v: "v ! i = (f, k, y)" by (cases "v ! i")
  obtain f' k' x where var: "var ! i = (f', k', x)" by (cases "var ! i")
  have "f' = f \<and> k' = k" using arg_cong [OF assms(1), of "\<lambda>xs. xs ! i"] i assms(3) v var by simp
  moreover have "map_of (gobMessage v) f = (if startsUpper f \<and> y \<noteq> 0 then Some y else None)"
    by (rule map_of_gobMessage [OF assms(2), of f k]) (metis v assms(3) nth_mem)
  ultimately show ?thesis using i v var by (simp add: gobOverwrite_def)
qed


definition reply_types :: "go_type list" where
  "reply_types = [TStruct [(''Err'', 7), (''Num'', 7), (''Store'', 7)], TElem 0]"


text \<open>
  A lower-case field of a basic type is not only reported: decoding into such a variable panics, so the
  loop over the fields never gets to warn about it.
\<close>

lemma lower_case_reply_panics:
  "Decode (\<lambda>x y. y) [TStruct [(''Num'', 7), (''err'', 7)], TElem 0] labgob_init (NewDecoder [[(''Num'', 4 :: int)]]) 1
     [(''Num'', FBasic ''int'', 0), (''err'', FBasic ''string'', 0)] = Inl UnexportedField"
  by code_simp

end
