(* ===== verification/Futures.thy ===== *)
theory Futures
  imports Prelude
begin

text \<open>
  The futures of \<open>a1-futures/future.go\<close>: a one-place channel that is filled and closed once, and
  \<open>Wait\<close>, which starts a goroutine per future and returns the first \<open>n\<close> accepted values or what
  has arrived when the timer expires.

  \<open>wait_step\<close> interleaves the goroutines, the completion of futures by their owners, and \<open>Wait\<close>
  itself.  The owner of future \<open>i\<close> completes it with \<open>vals i\<close>, or closes it without a value when that is
  \<open>None\<close>; either panics when it is done again.  A value in the channel \<open>doneValues\<close> is tagged with the
  goroutine that sent it.  \<open>Wait\<close>
  takes its slice in one step: the channel only grows at its end while it does.
\<close>

subsection \<open>A future\<close>

record 'a Future =
  ft_buf :: "'a list"
  ft_closed :: bool

text \<open>An operation on a channel blocks, or panics on a closed channel.\<close>

datatype chan_stop = ChanBlocks | ChanClosed

definition NewFuture :: "'a Future" where
  "NewFuture = \<lparr>ft_buf = [], ft_closed = False\<rparr>"

definition CloseFuture :: "'a Future \<Rightarrow> chan_stop + 'a Future" where
  "CloseFuture f = (if ft_closed f then Inl ChanClosed else Inr (f\<lparr>ft_closed := True\<rparr>))"

definition CompleteFuture :: "'a Future \<Rightarrow> 'a \<Rightarrow> chan_stop + 'a Future" where
  "CompleteFuture f res =
     (if ft_closed f then Inl ChanClosed
      else if length (ft_buf f) \<ge> 1 then Inl ChanBlocks
      else CloseFuture (f\<lparr>ft_buf := ft_buf f @ [res]\<rparr>))"

text \<open>\<open>None\<close> is the \<open>nil\<close> a closed and empty channel delivers.\<close>

definition GetResult :: "'a Future \<Rightarrow> chan_stop + ('a Future \<times> 'a option)" where
  "GetResult f =
     (case ft_buf f of
        v # rest \<Rightarrow> Inr (f\<lparr>ft_buf := rest\<rparr>, Some v)
      | [] \<Rightarrow> if ft_closed f then Inr (f, None) else Inl ChanBlocks)"

text \<open>
  The user's functions: the result of a request (\<open>resp\<close> is what \<open>http.Get\<close> returns, \<open>readAll\<close> and
  \<open>unmarshal\<close> what the library makes of a body), and the filter on it.
\<close>

record ('f, 'err) WeatherDataResult =
  wd_Value :: 'f
  wd_Err :: "'err option"

definition weatherResult :: "('err + 'b) \<Rightarrow> ('b \<Rightarrow> 'err + 'c) \<Rightarrow> ('c \<Rightarrow> 'f \<times> 'err option)
    \<Rightarrow> ('f :: zero, 'err) WeatherDataResult" where
  "weatherResult resp readAll unmarshal =
     (case resp of
        Inl e \<Rightarrow> \<lparr>wd_Value = 0, wd_Err = Some e\<rparr>
      | Inr r \<Rightarrow>
          (case readAll r of
             Inl e \<Rightarrow> \<lparr>wd_Value = 0, wd_Err = Some e\<rparr>
           | Inr body \<Rightarrow> (case unmarshal body of (temp, err) \<Rightarrow> \<lparr>wd_Value = temp, wd_Err = err\<rparr>)))"

text \<open>The future \<open>GetWeatherData\<close> returns, once its goroutine has run.\<close>

definition GetWeatherData :: "('err + 'b) \<Rightarrow> ('b \<Rightarrow> 'err + 'c) \<Rightarrow> ('c \<Rightarrow> 'f \<times> 'err option)
    \<Rightarrow> chan_stop + ('f :: zero, 'err) WeatherDataResult Future" where
  "GetWeatherData resp readAll unmarshal = CompleteFuture NewFuture (weatherResult resp readAll unmarshal)"

text \<open>\<open>Inl\<close> is the failed type assertion on \<open>nil\<close>.\<close>

definition heatWaveWarning :: "('f :: linordered_idom, 'err) WeatherDataResult option \<Rightarrow> go_panic + bool" where
  "heatWaveWarning res =
     (case res of
        None \<Rightarrow> Inl NilDeref
      | Some w \<Rightarrow> Inr (if wd_Err w \<noteq> None then False else wd_Value w > 35))"

subsection \<open>Wait\<close>

datatype 'a pc = AtGet | AtSend "'a option" | AtLock | AtNotify | Counted | Rejected

record 'a wait_state =
  w_futures :: "'a Future list"
  w_pc :: "'a pc list"
  w_values :: "(nat \<times> 'a option) list"
  w_count :: int
  w_mu :: "nat option"
  w_result :: "(nat \<times> 'a option) list option"
  w_woken :: bool

definition chanToSlice :: "'v list \<Rightarrow> int \<Rightarrow> 'v list" where
  "chanToSlice ch n = take (nat (min n (int (length ch)))) ch"

definition wait_init :: "nat \<Rightarrow> 'a wait_state \<Rightarrow> bool" where
  "wait_init k s \<longleftrightarrow> s = \<lparr>w_futures = replicate k NewFuture, w_pc = replicate k AtGet, w_values = [], w_count = 0,
     w_mu = None, w_result = None, w_woken = False\<rparr>"

inductive wait_step :: "int \<Rightarrow> ('a option \<Rightarrow> bool) \<Rightarrow> (nat \<Rightarrow> 'a option) \<Rightarrow> 'a wait_state \<Rightarrow> 'a wait_state \<Rightarrow> bool"
  for n :: int and post :: "'a option \<Rightarrow> bool" and vals :: "nat \<Rightarrow> 'a option" where
  ws_complete: "i < length (w_futures s) \<Longrightarrow> vals i = Some v \<Longrightarrow> CompleteFuture (w_futures s ! i) v = Inr f \<Longrightarrow>
    wait_step n post vals s (s\<lparr>w_futures := (w_futures s)[i := f]\<rparr>)"
| ws_close: "i < length (w_futures s) \<Longrightarrow> vals i = None \<Longrightarrow> CloseFuture (w_futures s ! i) = Inr f \<Longrightarrow>
    wait_step n post vals s (s\<lparr>w_futures := (w_futures s)[i := f]\<rparr>)"
| ws_get: "i < length (w_pc s) \<Longrightarrow> w_pc s ! i = AtGet \<Longrightarrow> GetResult (w_futures s ! i) = Inr (f, v) \<Longrightarrow>
    wait_step n post vals s (s\<lparr>w_futures := (w_futures s)[i := f],
                          w_pc := (w_pc s)[i := (if post v then AtSend v else Rejected)]\<rparr>)"
| ws_send: "i < length (w_pc s) \<Longrightarrow> w_pc s ! i = AtSend v \<Longrightarrow> length (w_values s) < length (w_futures s) \<Longrightarrow>
    wait_step n post vals s (s\<lparr>w_pc := (w_pc s)[i := AtLock], w_values := w_values s @ [(i, v)]\<rparr>)"
| ws_count: "i < length (w_pc s) \<Longrightarrow> w_pc s ! i = AtLock \<Longrightarrow> w_mu s = None \<Longrightarrow> w_count s + 1 < n \<Longrightarrow>
    wait_step n post vals s (s\<lparr>w_pc := (w_pc s)[i := Counted], w_count := w_count s + 1\<rparr>)"
| ws_count_enough: "i < length (w_pc s) \<Longrightarrow> w_pc s ! i = AtLock \<Longrightarrow> w_mu s = None \<Longrightarrow> n \<le> w_count s + 1 \<Longrightarrow>
    wait_step n post vals s (s\<lparr>w_pc := (w_pc s)[i := AtNotify], w_count := w_count s + 1, w_mu := Some i\<rparr>)"
| ws_notify: "i < length (w_pc s) \<Longrightarrow> w_pc s ! i = AtNotify \<Longrightarrow> w_result s = None \<Longrightarrow>
    wait_step n post vals s (s\<lparr>w_pc := (w_pc s)[i := Counted], w_values := drop (length (chanToSlice (w_values s) n)) (w_values s),
                          w_mu := None, w_result := Some (chanToSlice (w_values s) n), w_woken := True\<rparr>)"
| ws_timeout: "w_result s = None \<Longrightarrow>
    wait_step n post vals s (s\<lparr>w_values := drop (length (chanToSlice (w_values s) n)) (w_values s),
                          w_result := Some (chanToSlice (w_values s) n)\<rparr>)"

subsection \<open>What Wait returns\<close>

definition sent_by :: "'a pc \<Rightarrow> bool" where
  "sent_by p \<longleftrightarrow> p \<in> {AtLock, AtNotify, Counted}"

definition counted_by :: "'a pc \<Rightarrow> bool" where
  "counted_by p \<longleftrightarrow> p \<in> {AtNotify, Counted}"

text \<open>All values ever sent, in order.\<close>

definition sent_values :: "'a wait_state \<Rightarrow> (nat \<times> 'a option) list" where
  "sent_values s = (case w_result s of None \<Rightarrow> [] | Some rs \<Rightarrow> rs) @ w_values s"

text \<open>The goroutines at a given point.\<close>

definition pcs :: "('p \<Rightarrow> bool) \<Rightarrow> 'p list \<Rightarrow> nat set" where
  "pcs P ps = {i. i < length ps \<and> P (ps ! i)}"

definition wait_ok :: "int \<Rightarrow> ('a option \<Rightarrow> bool) \<Rightarrow> nat \<Rightarrow> 'a wait_state \<Rightarrow> bool" where
  "wait_ok n post k s \<longleftrightarrow> length (w_pc s) = k \<and> length (w_futures s) = k
     \<and> distinct (map fst (sent_values s)) \<and> fst ` set (sent_values s) = pcs sent_by (w_pc s)
     \<and> (\<forall>x \<in> set (sent_values s). post (snd x)) \<and> (\<forall>v. AtSend v \<in> set (w_pc s) \<longrightarrow> post v)
     \<and> w_count s = int (card (pcs counted_by (w_pc s))) \<and> (AtNotify \<in> set (w_pc s) \<longrightarrow> n \<le> w_count s)
     \<and> (\<forall>rs. w_result s = Some rs \<longrightarrow> int (length rs) \<le> max 0 n \<and> (w_woken s \<and> 0 \<le> n \<longrightarrow> int (length rs) = n))
     \<and> (w_woken s \<longrightarrow> w_result s \<noteq> None)"

lemma pcs_update:
  "i < length ps \<Longrightarrow> pcs P (ps[i := p]) = (if P p then insert i (pcs P ps) else pcs P ps - {i})"
  by (auto simp: pcs_def nth_list_update split: if_splits)

lemma pcs_mem: "i \<in> pcs P ps \<longleftrightarrow> i < length ps \<and> P (ps ! i)"
  by (simp add: pcs_def)

lemma finite_pcs [simp]: "finite (pcs P ps)"
  by (simp add: pcs_def)

lemma pcs_same: "i < length ps \<Longrightarrow> P (ps ! i) = P p \<Longrightarrow> pcs P (ps[i := p]) = pcs P ps"
  by (auto simp: pcs_update pcs_mem)

lemma card_pcs_update:
  assumes "i < length ps" and "P (ps ! i) \<Longrightarrow> P p"
  shows "card (pcs P (ps[i := p])) = card (pcs P ps) + (if P p \<and> \<not> P (ps ! i) then 1 else 0)"
proof (cases "P p = P (ps ! i)")
  case True
  then show ?thesis using assms by (simp add: pcs_same)
next
  case False
  then have "P p" "i \<notin> pcs P ps" using assms by (auto simp: pcs_mem)
  with False show ?thesis using assms by (simp add: pcs_update)
qed

lemma pc_kinds [simp]:
  "\<not> sent_by AtGet" "\<not> sent_by (AtSend v)" "sent_by AtLock" "sent_by AtNotify" "sent_by Counted" "\<not> sent_by Rejected"
  "\<not> counted_by AtGet" "\<not> counted_by (AtSend v)" "\<not> counted_by AtLock" "counted_by AtNotify" "counted_by Counted"
  "\<not> counted_by Rejected"
  by (simp_all add: sent_by_def counted_by_def)

lemma pc_update_mem: "q \<in> set (ps[i := p]) \<Longrightarrow> q \<noteq> p \<Longrightarrow> q \<in> set ps"
  using set_update_subset_insert [of ps i p] by auto

lemma chanToSlice_append [simp]: "chanToSlice ch n @ drop (length (chanToSlice ch n)) ch = ch"
  by (simp add: chanToSlice_def)

lemma length_chanToSlice: "int (length (chanToSlice ch n)) = max 0 (min n (int (length ch)))"
  by (simp add: chanToSlice_def)

text \<open>Every counted goroutine has sent its value.\<close>

lemma wait_ok_enough:
  assumes "wait_ok n post k s" and "w_result s = None"
  shows "w_count s \<le> int (length (w_values s))"
proof -
  have d: "distinct (map fst (w_values s))" "set (map fst (w_values s)) = pcs sent_by (w_pc s)"
    using assms by (auto simp: wait_ok_def sent_values_def)
  have "card (pcs counted_by (w_pc s)) \<le> card (pcs sent_by (w_pc s))"
    by (rule card_mono) (auto simp: pcs_mem sent_by_def counted_by_def)
  also have "\<dots> = length (w_values s)" using distinct_card [OF d(1)] d(2) by simp
  finally show ?thesis using assms(1) by (simp add: wait_ok_def)
qed

text \<open>A goroutine moves without sending, and \<open>Wait\<close> goes on waiting.\<close>

lemma wait_ok_move:
  assumes "wait_ok n post k s" and "i < length (w_pc s)" and "sent_by (w_pc s ! i) = sent_by p"
    and "\<And>v. p = AtSend v \<Longrightarrow> post v" and "p = AtNotify \<Longrightarrow> n \<le> w_count t"
    and "w_count t = w_count s + (if counted_by p \<and> \<not> counted_by (w_pc s ! i) then 1 else 0)"
    and "counted_by (w_pc s ! i) \<Longrightarrow> counted_by p"
    and "w_pc t = (w_pc s)[i := p]" "w_result t = w_result s" "w_values t = w_values s" "w_woken t = w_woken s"
    and "length (w_futures t) = length (w_futures s)"
  shows "wait_ok n post k t"
proof -
  note ok = assms(1) [unfolded wait_ok_def]
  have "pcs sent_by (w_pc t) = pcs sent_by (w_pc s)" using assms(2,3,8) by (simp add: pcs_same)
  moreover have "int (card (pcs counted_by (w_pc t))) = w_count t"
    using ok assms(6,8) card_pcs_update [of i "w_pc s" counted_by p, OF assms(2,7)] by simp
  moreover have "AtSend v \<in> set (w_pc t) \<Longrightarrow> post v" for v
    using ok assms(4) [of v] pc_update_mem [of "AtSend v" "w_pc s" i p] assms(8) by metis
  moreover have "AtNotify \<in> set (w_pc t) \<Longrightarrow> n \<le> w_count t"
    using ok assms(5,6) pc_update_mem [of AtNotify "w_pc s" i p] assms(8) by fastforce
  moreover have "sent_values t = sent_values s" using assms(9,10) by (simp add: sent_values_def)
  ultimately show ?thesis using ok assms(8-12) unfolding wait_ok_def by simp
qed

lemma wait_ok_finish:
  assumes "wait_ok n post k s" and "w_result s = None" and "w_woken t \<Longrightarrow> n \<le> w_count s"
    and "w_result t = Some (chanToSlice (w_values s) n)"
    and "w_values t = drop (length (chanToSlice (w_values s) n)) (w_values s)"
    and "w_pc t = w_pc s" "w_count t = w_count s" "length (w_futures t) = length (w_futures s)"
  shows "wait_ok n post k t"
proof -
  have "sent_values t = sent_values s" using assms(2,4,5) by (simp add: sent_values_def)
  moreover have "w_woken t \<Longrightarrow> 0 \<le> n \<Longrightarrow> int (length (chanToSlice (w_values s) n)) = n"
    using assms(3) wait_ok_enough [OF assms(1,2)] by (auto simp: length_chanToSlice)
  moreover have "int (length (chanToSlice (w_values s) n)) \<le> max 0 n" by (simp add: length_chanToSlice)
  ultimately show ?thesis using assms unfolding wait_ok_def by auto
qed

lemma wait_ok_send:
  assumes "wait_ok n post k s" and "i < length (w_pc s)" and "w_pc s ! i = AtSend v"
  shows "wait_ok n post k (s\<lparr>w_pc := (w_pc s)[i := AtLock], w_values := w_values s @ [(i, v)]\<rparr>)" (is "wait_ok n post k ?t")
proof -
  note ok = assms(1) [unfolded wait_ok_def]
  have "post v" using ok assms(2,3) by (metis nth_mem)
  have new: "i \<notin> fst ` set (sent_values s)" using ok assms(2,3) by (simp add: pcs_mem)
  have "sent_values ?t = sent_values s @ [(i, v)]" by (simp add: sent_values_def)
  moreover have "pcs sent_by (w_pc ?t) = insert i (pcs sent_by (w_pc s))" using assms(2) by (simp add: pcs_update)
  moreover have "pcs counted_by (w_pc ?t) = pcs counted_by (w_pc s)" using assms(2,3) by (simp add: pcs_same)
  moreover have "AtSend u \<in> set (w_pc ?t) \<Longrightarrow> post u" for u
    using ok pc_update_mem [of "AtSend u" "w_pc s" i AtLock] by simp
  moreover have "AtNotify \<in> set (w_pc ?t) \<Longrightarrow> n \<le> w_count s"
    using ok pc_update_mem [of AtNotify "w_pc s" i AtLock] by simp
  ultimately show ?thesis using ok new \<open>post v\<close> unfolding wait_ok_def by simp
qed

lemma wait_ok_step: "wait_step n post vals s t \<Longrightarrow> wait_ok n post k s \<Longrightarrow> wait_ok n post k t"
proof (induction rule: wait_step.induct)
  case (ws_complete i s v f)
  then show ?case by (auto simp: wait_ok_def sent_values_def)
next
  case (ws_close i s f)
  then show ?case by (auto simp: wait_ok_def sent_values_def)
next
  case (ws_get i s f v)
  show ?case
  proof (cases "post v")
    case True
    with ws_get.hyps show ?thesis
      by (intro wait_ok_move [OF ws_get.prems ws_get.hyps(1), of "AtSend v"]) simp_all
  next
    case False
    with ws_get.hyps show ?thesis
      by (intro wait_ok_move [OF ws_get.prems ws_get.hyps(1), of Rejected]) simp_all
  qed
next
  case (ws_send i s v)
  then show ?case by (intro wait_ok_send)
next
  case (ws_count i s)
  then show ?case by (intro wait_ok_move [OF ws_count.prems ws_count.hyps(1), of Counted]) auto
next
  case (ws_count_enough i s)
  then show ?case by (intro wait_ok_move [OF ws_count_enough.prems ws_count_enough.hyps(1), of AtNotify]) auto
next
  case (ws_notify i s)
  then have "n \<le> w_count s" unfolding wait_ok_def by (metis nth_mem)
  moreover have ok: "wait_ok n post k (s\<lparr>w_pc := (w_pc s)[i := Counted]\<rparr>)"
    by (rule wait_ok_move [OF ws_notify.prems ws_notify.hyps(1), of Counted]) (use ws_notify.hyps in simp_all)
  ultimately show ?case by - (rule wait_ok_finish [OF ok], use ws_notify.hyps in simp_all)
next
  case (ws_timeout s)
  then show ?case by (intro wait_ok_finish [OF ws_timeout.prems]) (auto simp: wait_ok_def)
qed

lemma wait_ok_init: "wait_init k s \<Longrightarrow> wait_ok n post k s"
  by (auto simp: wait_init_def wait_ok_def sent_values_def pcs_def)

interpretation wait: inductive_invariant "wait_init k" "wait_step n post vals" "wait_ok n post k" for k n post vals
  by unfold_locales (auto intro: wait_ok_init wait_ok_step)

text \<open>
  Goroutine \<open>i\<close> reads future \<open>i\<close>, once, after its owner is done with it: what it holds, and what it
  sends, is what the owner completed the future with.
\<close>

definition future_ok :: "'a option \<Rightarrow> 'a Future \<Rightarrow> 'a pc \<Rightarrow> bool" where
  "future_ok v f p \<longleftrightarrow>
     (if p = AtGet then ft_buf f = (if ft_closed f then (case v of None \<Rightarrow> [] | Some x \<Rightarrow> [x]) else []) else ft_closed f)
     \<and> (\<forall>u. p = AtSend u \<longrightarrow> u = v)"

definition values_ok :: "(nat \<Rightarrow> 'a option) \<Rightarrow> nat \<Rightarrow> 'a wait_state \<Rightarrow> bool" where
  "values_ok vals k s \<longleftrightarrow> length (w_pc s) = k \<and> length (w_futures s) = k
     \<and> (\<forall>i < k. future_ok (vals i) (w_futures s ! i) (w_pc s ! i))
     \<and> (\<forall>x \<in> set (sent_values s). fst x < k \<and> snd x = vals (fst x) \<and> w_pc s ! fst x \<noteq> AtGet)"

lemma values_ok_move:
  assumes "values_ok vals k s" and "i < k" and "p \<noteq> AtGet" and "future_ok (vals i) (w_futures t ! i) p"
    and "w_pc t = (w_pc s)[i := p]" and "\<And>j. j \<noteq> i \<Longrightarrow> w_futures t ! j = w_futures s ! j"
    and "length (w_futures t) = length (w_futures s)"
    and "set (sent_values t) \<subseteq> insert (i, vals i) (set (sent_values s))"
  shows "values_ok vals k t"
proof -
  note ok = assms(1) [unfolded values_ok_def]
  have "future_ok (vals j) (w_futures t ! j) (w_pc t ! j)" if "j < k" for j
    using ok assms(2,4-6) that by (cases "j = i") (auto simp: nth_list_update)
  moreover have "fst x < k \<and> snd x = vals (fst x) \<and> w_pc t ! fst x \<noteq> AtGet" if "x \<in> set (sent_values t)" for x
  proof -
    from that assms(8) consider "x = (i, vals i)" | "x \<in> set (sent_values s)" by blast
    then show ?thesis using ok assms(2,3,5) by cases (auto simp: nth_list_update)
  qed
  ultimately show ?thesis using ok assms(5,7) by (simp add: values_ok_def)
qed

lemma values_ok_done:
  assumes "values_ok vals k s" and "i < k" and "\<not> ft_closed (w_futures s ! i)" and "ft_closed f"
    and "ft_buf f = (case vals i of None \<Rightarrow> ft_buf (w_futures s ! i) | Some x \<Rightarrow> ft_buf (w_futures s ! i) @ [x])"
  shows "values_ok vals k (s\<lparr>w_futures := (w_futures s)[i := f]\<rparr>)"
proof -
  have "future_ok (vals i) f (w_pc s ! i)"
    using assms by (auto simp: values_ok_def future_ok_def split: if_splits option.splits)
  moreover note assms(1,2)
  ultimately have "future_ok (vals j) ((w_futures s)[i := f] ! j) (w_pc s ! j)" if "j < k" for j
    using that by (cases "j = i") (auto simp: values_ok_def)
  with assms(1) show ?thesis by (auto simp: values_ok_def sent_values_def)
qed

lemma values_ok_step: "wait_step n post vals s t \<Longrightarrow> values_ok vals k s \<Longrightarrow> values_ok vals k t"
proof (induction rule: wait_step.induct)
  case (ws_complete i s v f)
  then show ?case
    by (intro values_ok_done) (auto simp: CompleteFuture_def CloseFuture_def values_ok_def split: if_splits)
next
  case (ws_close i s f)
  then show ?case by (intro values_ok_done) (auto simp: CloseFuture_def values_ok_def split: if_splits)
next
  case (ws_get i s f v)
  have fo: "future_ok (vals i) (w_futures s ! i) AtGet" and i: "i < k"
    using ws_get unfolding values_ok_def by metis+
  then have "ft_closed f \<and> v = vals i"
    using ws_get(3) by (auto simp: GetResult_def future_ok_def split: list.splits if_splits option.splits)
  with ws_get i show ?case
    by (intro values_ok_move [OF ws_get(4) i, of "if post v then AtSend v else Rejected"])
      (auto simp: future_ok_def sent_values_def values_ok_def)
next
  case (ws_send i s v)
  then have "future_ok (vals i) (w_futures s ! i) (AtSend v)" and i: "i < k" unfolding values_ok_def by metis+
  with ws_send show ?case
    by (intro values_ok_move [OF ws_send(4) i, of AtLock]) (auto simp: future_ok_def sent_values_def)
next
  case (ws_count i s)
  then have "future_ok (vals i) (w_futures s ! i) AtLock" and i: "i < k" unfolding values_ok_def by metis+
  with ws_count show ?case
    by (intro values_ok_move [OF ws_count(5) i, of Counted]) (auto simp: future_ok_def sent_values_def)
next
  case (ws_count_enough i s)
  then have "future_ok (vals i) (w_futures s ! i) AtLock" and i: "i < k" unfolding values_ok_def by metis+
  with ws_count_enough show ?case
    by (intro values_ok_move [OF ws_count_enough(5) i, of AtNotify]) (auto simp: future_ok_def sent_values_def)
next
  case (ws_notify i s)
  then have "future_ok (vals i) (w_futures s ! i) AtNotify" and i: "i < k" unfolding values_ok_def by metis+
  with ws_notify show ?case
    by (intro values_ok_move [OF ws_notify(4) i, of Counted]) (auto simp: future_ok_def sent_values_def)
next
  case (ws_timeout s)
  then show ?case by (auto simp: values_ok_def sent_values_def)
qed

lemma values_ok_init: "wait_init k s \<Longrightarrow> values_ok vals k s"
  by (auto simp: wait_init_def values_ok_def future_ok_def sent_values_def NewFuture_def)

interpretation wait_values: inductive_invariant "wait_init k" "wait_step n post vals" "values_ok vals k" for k n post vals
  by unfold_locales (auto intro: values_ok_init values_ok_step)

text \<open>
  C30: \<open>Wait\<close> returns what different futures were completed with, each accepted by the filter, at most
  \<open>n\<close> of them, and exactly \<open>n\<close> when it was woken rather than timed out, whatever the order in which
  the goroutines run.  A value carries the number of the goroutine that sent it: it is the value of
  the future with that number, and that future has been completed or closed.
\<close>
theorem wait_returns_accepted:
  assumes "reach (wait_init k) (wait_step n post vals) s" and "w_result s = Some rs"
  shows "int (length rs) \<le> max 0 n \<and> distinct (map fst rs)
    \<and> (\<forall>(i, v) \<in> set rs. i < k \<and> v = vals i \<and> ft_closed (w_futures s ! i) \<and> post v)
    \<and> (w_woken s \<and> 0 \<le> n \<longrightarrow> int (length rs) = n)"
proof -
  have ok: "wait_ok n post k s" using assms(1) by (rule wait.reach_inv)
  have vs: "values_ok vals k s" using assms(1) by (rule wait_values.reach_inv)
  have sub: "set rs \<subseteq> set (sent_values s)" "distinct (map fst rs)"
    using ok assms(2) by (auto simp: wait_ok_def sent_values_def)
  have "i < k \<and> v = vals i \<and> ft_closed (w_futures s ! i) \<and> post v" if "(i, v) \<in> set rs" for i v
  proof -
    from that sub(1) have "(i, v) \<in> set (sent_values s)" by blast
    with ok vs show ?thesis by (fastforce simp: wait_ok_def values_ok_def future_ok_def)
  qed
  then show ?thesis using ok sub(2) assms(2) by (auto simp: wait_ok_def)
qed

text \<open>
  A goroutine that reaches the limit after \<open>Wait\<close> has returned stays at the send on \<open>doneN\<close> for ever,
  and keeps the mutex.
\<close>

lemma late_goroutine_is_stuck:
  assumes "wait_step n post vals s t" and "w_result s \<noteq> None" and "i < length (w_pc s)" and "w_pc s ! i = AtNotify" and "w_mu s = Some i"
  shows "w_result t \<noteq> None \<and> i < length (w_pc t) \<and> w_pc t ! i = AtNotify \<and> w_mu t = Some i"
  using assms by (induction rule: wait_step.induct) (auto simp: nth_list_update split: if_splits)

text \<open>Schedules, to run \<open>Wait\<close> on concrete futures.\<close>

datatype event = Complete nat | Get nat | Send nat | Count nat | Notify nat | Timeout

fun wait_exec :: "int \<Rightarrow> ('a option \<Rightarrow> bool) \<Rightarrow> (nat \<Rightarrow> 'a option) \<Rightarrow> event \<Rightarrow> 'a wait_state \<Rightarrow> 'a wait_state option" where
  "wait_exec n post vals (Complete i) s =
     (if i < length (w_futures s)
      then (case (case vals i of None \<Rightarrow> CloseFuture (w_futures s ! i) | Some v \<Rightarrow> CompleteFuture (w_futures s ! i) v) of
              Inl _ \<Rightarrow> None | Inr f \<Rightarrow> Some (s\<lparr>w_futures := (w_futures s)[i := f]\<rparr>)) else None)"
| "wait_exec n post vals (Get i) s =
     (if i < length (w_pc s) \<and> w_pc s ! i = AtGet
      then (case GetResult (w_futures s ! i) of
              Inl _ \<Rightarrow> None
            | Inr (f, v) \<Rightarrow> Some (s\<lparr>w_futures := (w_futures s)[i := f],
                                    w_pc := (w_pc s)[i := (if post v then AtSend v else Rejected)]\<rparr>)) else None)"
| "wait_exec n post vals (Send i) s =
     (if i < length (w_pc s) \<and> length (w_values s) < length (w_futures s)
      then (case w_pc s ! i of
              AtSend v \<Rightarrow> Some (s\<lparr>w_pc := (w_pc s)[i := AtLock], w_values := w_values s @ [(i, v)]\<rparr>) | _ \<Rightarrow> None) else None)"
| "wait_exec n post vals (Count i) s =
     (if i < length (w_pc s) \<and> w_pc s ! i = AtLock \<and> w_mu s = None
      then if w_count s + 1 < n then Some (s\<lparr>w_pc := (w_pc s)[i := Counted], w_count := w_count s + 1\<rparr>)
           else Some (s\<lparr>w_pc := (w_pc s)[i := AtNotify], w_count := w_count s + 1, w_mu := Some i\<rparr>) else None)"
| "wait_exec n post vals (Notify i) s =
     (if i < length (w_pc s) \<and> w_pc s ! i = AtNotify \<and> w_result s = None
      then Some (s\<lparr>w_pc := (w_pc s)[i := Counted], w_values := drop (length (chanToSlice (w_values s) n)) (w_values s),
                   w_mu := None, w_result := Some (chanToSlice (w_values s) n), w_woken := True\<rparr>) else None)"
| "wait_exec n post vals Timeout s =
     (if w_result s = None
      then Some (s\<lparr>w_values := drop (length (chanToSlice (w_values s) n)) (w_values s),
                   w_result := Some (chanToSlice (w_values s) n)\<rparr>) else None)"

fun wait_run :: "int \<Rightarrow> ('a option \<Rightarrow> bool) \<Rightarrow> (nat \<Rightarrow> 'a option) \<Rightarrow> event list \<Rightarrow> 'a wait_state \<Rightarrow> 'a wait_state option" where
  "wait_run n post vals [] s = Some s"
| "wait_run n post vals (e # es) s = (case wait_exec n post vals e s of None \<Rightarrow> None | Some t \<Rightarrow> wait_run n post vals es t)"

lemma wait_exec_sound: "wait_exec n post vals e s = Some t \<Longrightarrow> wait_step n post vals s t"
  by (cases e) (auto split: if_splits sum.splits pc.splits option.splits intro: wait_step.intros)

lemma wait_run_sound:
  "wait_run n post vals es s = Some t \<Longrightarrow> reach (wait_init k) (wait_step n post vals) s \<Longrightarrow> reach (wait_init k) (wait_step n post vals) t"
proof (induction es arbitrary: s)
  case (Cons e es)
  then obtain u where u: "wait_exec n post vals e s = Some u" "wait_run n post vals es u = Some t" by (auto split: option.splits)
  from reach_step [OF Cons.prems(2) wait_exec_sound [OF u(1)]] show ?case by (rule Cons.IH [OF u(2)])
qed simp

definition wait_start :: "nat \<Rightarrow> 'a wait_state" where
  "wait_start k = \<lparr>w_futures = replicate k NewFuture, w_pc = replicate k AtGet, w_values = [], w_count = 0, w_mu = None,
     w_result = None, w_woken = False\<rparr>"

text \<open>Two futures, one value wanted: the first goroutine wakes \<open>Wait\<close>, the second is stuck.\<close>

lemma two_futures_run:
  "map_option (\<lambda>s. (w_result s, w_woken s, w_pc s, w_mu s))
     (wait_run 1 (\<lambda>v. v \<noteq> None) (\<lambda>i. Some (7 + int i)) [Complete 0, Complete 1, Get 0, Get 1, Send 0, Send 1, Count 0, Notify 0, Count 1]
        (wait_start 2))
   = Some (Some [(0, Some (7 :: int))], True, [Counted, AtNotify], Some 1)"
  by code_simp

theorem wait_returns_accepted_witness:
  "\<exists>s rs. reach (wait_init 2) (wait_step 1 (\<lambda>v. v \<noteq> None) (\<lambda>i. Some (7 + int i))) s \<and> w_result s = Some rs \<and> length rs = 1 \<and> snd (rs ! 0) = Some 7"
proof -
  have start: "reach (wait_init 2) (wait_step 1 (\<lambda>v. v \<noteq> None) (\<lambda>i. Some (7 + int i))) (wait_start 2)"
    by (rule reach_init) (simp add: wait_init_def wait_start_def)
  from two_futures_run obtain s where
    run: "wait_run 1 (\<lambda>v. v \<noteq> None) (\<lambda>i. Some (7 + int i)) [Complete 0, Complete 1, Get 0, Get 1, Send 0, Send 1, Count 0, Notify 0, Count 1]
        (wait_start 2) = Some s"
      and s: "w_result s = Some [(0, Some (7 :: int))]" "w_woken s" by auto
  from wait_returns_accepted [OF wait_run_sound [OF run start] s(1)] wait_run_sound [OF run start] s show ?thesis
    by (intro exI [of _ s] exI [of _ "[(0, Some 7)]"]) simp
qed

end
