(* ===== verification/Naive.thy ===== *)
theory Naive
  imports Futures
begin

text \<open>
  The demonstration program \<open>a1-futures/naive/naive_requests.go\<close>: ten goroutines ask for data and count
  their answers under a mutex, and \<open>main\<close> waits for a majority or a timeout.  The goroutines and \<open>main\<close>
  are interleaved at every operation on the mutex, the channel \<open>done\<close> (which has no buffer, so a send
  waits until \<open>main\<close> receives) and the counter, which \<open>main\<close> reads without the mutex.  Sleeping is left
  out: an event may happen at any time.
\<close>

definition nPeers :: nat where
  "nPeers = 10"

definition requiredTrueCount :: int where
  "requiredTrueCount = int nPeers div 2 + 1"

text \<open>\<open>GetWeatherData\<close> returns a value and whether it failed; \<open>randomNumber\<close> is drawn below 10000.\<close>

definition slowGetWeatherData :: "bool \<Rightarrow> bool \<Rightarrow> int \<Rightarrow> int \<times> bool" where
  "slowGetWeatherData straggler unreliable randomNumber = (if unreliable then (- 1, True) else (randomNumber, False))"

datatype gpc = Requesting | Locking | Adding | Sending | Unlocking | Returned

datatype select_state = Selecting | Done | TimedOut

record naive =
  nv_mu :: "nat option"
  nv_trueCount :: int
  nv_pc :: "gpc list"
  nv_select :: select_state
  nv_printed :: "int option"

definition naive_start :: naive where
  "naive_start = \<lparr>nv_mu = None, nv_trueCount = 0, nv_pc = replicate nPeers Requesting, nv_select = Selecting, nv_printed = None\<rparr>"

datatype naive_event = Answer nat int | Lock nat | Add nat | Rendezvous nat | Unlock nat | Expire | Print

fun naive_exec :: "naive_event \<Rightarrow> naive \<Rightarrow> naive option" where
  "naive_exec (Answer i r) s =
     (if i < length (nv_pc s) \<and> nv_pc s ! i = Requesting
      then Some (s\<lparr>nv_pc := (nv_pc s)[i := (if \<not> snd (slowGetWeatherData False False r) then Locking else Returned)]\<rparr>)
      else None)"
| "naive_exec (Lock i) s =
     (if i < length (nv_pc s) \<and> nv_pc s ! i = Locking \<and> nv_mu s = None
      then Some (s\<lparr>nv_pc := (nv_pc s)[i := Adding], nv_mu := Some i\<rparr>) else None)"
| "naive_exec (Add i) s =
     (if i < length (nv_pc s) \<and> nv_pc s ! i = Adding
      then Some (s\<lparr>nv_pc := (nv_pc s)[i := (if nv_trueCount s + 1 \<ge> requiredTrueCount then Sending else Unlocking)],
                   nv_trueCount := nv_trueCount s + 1\<rparr>) else None)"
| "naive_exec (Rendezvous i) s =
     (if i < length (nv_pc s) \<and> nv_pc s ! i = Sending \<and> nv_select s = Selecting
      then Some (s\<lparr>nv_pc := (nv_pc s)[i := Unlocking], nv_select := Done\<rparr>) else None)"
| "naive_exec (Unlock i) s =
     (if i < length (nv_pc s) \<and> nv_pc s ! i = Unlocking
      then Some (s\<lparr>nv_pc := (nv_pc s)[i := Returned], nv_mu := None\<rparr>) else None)"
| "naive_exec Expire s = (if nv_select s = Selecting then Some (s\<lparr>nv_select := TimedOut\<rparr>) else None)"
| "naive_exec Print s =
     (if nv_select s \<noteq> Selecting \<and> nv_printed s = None then Some (s\<lparr>nv_printed := Some (nv_trueCount s)\<rparr>) else None)"

inductive naive_step :: "naive \<Rightarrow> naive \<Rightarrow> bool" where
  "naive_exec e s = Some t \<Longrightarrow> naive_step s t"

inductive_cases naive_stepE: "naive_step s t"

subsection \<open>The invariant\<close>

definition holds_mu :: "gpc \<Rightarrow> bool" where
  "holds_mu p \<longleftrightarrow> p \<in> {Adding, Sending, Unlocking}"

definition has_added :: "gpc \<Rightarrow> bool" where
  "has_added p \<longleftrightarrow> p \<in> {Sending, Unlocking, Returned}"

lemmas gpc_defs = holds_mu_def has_added_def

text \<open>How far the counter can get before a send blocks for good.\<close>

definition cap :: "naive \<Rightarrow> int" where
  "cap s = requiredTrueCount + (if nv_select s = Done then 1 else 0)"

definition naive_ok :: "naive \<Rightarrow> bool" where
  "naive_ok s \<longleftrightarrow> length (nv_pc s) = nPeers \<and> pcs holds_mu (nv_pc s) = set_option (nv_mu s)
     \<and> nv_trueCount s = int (card (pcs has_added (nv_pc s))) \<and> nv_trueCount s \<le> cap s
     \<and> (nv_trueCount s = cap s \<longleftrightarrow> pcs (\<lambda>p. p = Sending) (nv_pc s) \<noteq> {})
     \<and> (nv_select s = Done \<longrightarrow> requiredTrueCount \<le> nv_trueCount s)
     \<and> (\<forall>v. nv_printed s = Some v \<longrightarrow> nv_select s \<noteq> Selecting \<and> 0 \<le> v \<and> v \<le> cap s
          \<and> (nv_select s = Done \<longrightarrow> requiredTrueCount \<le> v))"

lemma sending_holds: "pcs (\<lambda>p. p = Sending) ps \<subseteq> pcs holds_mu ps"
  by (auto simp: pcs_def gpc_defs)

lemma naive_ok_start: "naive_ok naive_start"
  by (auto simp: naive_ok_def naive_start_def pcs_def gpc_defs cap_def requiredTrueCount_def nPeers_def)

text \<open>What each operation does to the sets of goroutines the invariant speaks of.\<close>

lemma pcs_move:
  assumes "i < length ps" and "ps ! i = p"
  shows "pcs P (ps[i := q]) = (if P q then insert i (pcs P ps) else pcs P ps - {i})" and "P p \<longleftrightarrow> i \<in> pcs P ps"
  using assms by (auto simp: pcs_update pcs_mem)

lemma naive_ok_step:
  assumes "naive_ok s" and "naive_exec e s = Some t"
  shows "naive_ok t"
proof -
  have len: "length (nv_pc s) = nPeers" and mu: "pcs holds_mu (nv_pc s) = set_option (nv_mu s)"
    and count: "nv_trueCount s = int (card (pcs has_added (nv_pc s)))" and le: "nv_trueCount s \<le> cap s"
    and blocked: "nv_trueCount s = cap s \<longleftrightarrow> pcs (\<lambda>p. p = Sending) (nv_pc s) \<noteq> {}"
    and ready: "nv_select s = Done \<Longrightarrow> requiredTrueCount \<le> nv_trueCount s"
    and shown: "\<And>v. nv_printed s = Some v \<Longrightarrow> nv_select s \<noteq> Selecting \<and> 0 \<le> v \<and> v \<le> cap s \<and> (nv_select s = Done \<longrightarrow> requiredTrueCount \<le> v)"
    using assms(1) by (auto simp: naive_ok_def)
  have alone: "i \<in> pcs holds_mu (nv_pc s) \<Longrightarrow> pcs (\<lambda>p. p = Sending) (nv_pc s) \<subseteq> {i}" for i
    using sending_holds [of "nv_pc s"] mu by (cases "nv_mu s") auto
  show ?thesis
  proof (cases e)
    case (Answer i r)
    then have t: "t = s\<lparr>nv_pc := (nv_pc s)[i := Locking]\<rparr>" and i: "i < length (nv_pc s)" "nv_pc s ! i = Requesting"
      using assms(2) by (auto simp: slowGetWeatherData_def split: if_splits)
    note m = pcs_same [OF i(1), unfolded i(2), of _ Locking]
    show ?thesis using assms(1) by (auto simp: t naive_ok_def m gpc_defs cap_def)
  next
    case (Lock i)
    then have t: "t = s\<lparr>nv_pc := (nv_pc s)[i := Adding], nv_mu := Some i\<rparr>" and i: "i < length (nv_pc s)" "nv_pc s ! i = Locking" "nv_mu s = None"
      using assms(2) by (auto split: if_splits)
    note m = pcs_same [OF i(1), unfolded i(2), of _ Adding]
    have "pcs holds_mu ((nv_pc s)[i := Adding]) = {i}" using mu i by (simp add: pcs_update gpc_defs)
    then show ?thesis using assms(1) by (auto simp: t naive_ok_def m gpc_defs cap_def)
  next
    case (Add i)
    let ?q = "if nv_trueCount s + 1 \<ge> requiredTrueCount then Sending else Unlocking"
    from Add have t: "t = s\<lparr>nv_pc := (nv_pc s)[i := ?q], nv_trueCount := nv_trueCount s + 1\<rparr>" and i: "i < length (nv_pc s)" "nv_pc s ! i = Adding"
      using assms(2) by (auto split: if_splits)
    have h: "i \<in> pcs holds_mu (nv_pc s)" using i by (simp add: pcs_mem gpc_defs)
    have none: "pcs (\<lambda>p. p = Sending) (nv_pc s) = {}" using alone [OF h] i by (auto simp: pcs_mem)
    with blocked le have lt: "nv_trueCount s < cap s" by auto
    have "pcs holds_mu ((nv_pc s)[i := ?q]) = pcs holds_mu (nv_pc s)" using i by (intro pcs_same) (simp_all add: gpc_defs)
    moreover have "card (pcs has_added ((nv_pc s)[i := ?q])) = card (pcs has_added (nv_pc s)) + 1"
      using card_pcs_update [of i "nv_pc s" has_added ?q] i by (simp add: gpc_defs)
    moreover have "pcs (\<lambda>p. p = Sending) ((nv_pc s)[i := ?q]) = (if nv_trueCount s + 1 \<ge> requiredTrueCount then {i} else {})"
      using i none by (simp add: pcs_update)
    moreover have "nv_trueCount s + 1 = cap s \<longleftrightarrow> nv_trueCount s + 1 \<ge> requiredTrueCount"
      using lt ready by (auto simp: cap_def split: if_splits)
    ultimately show ?thesis
      using len mu count lt ready shown by (auto simp: t naive_ok_def cap_def split: if_splits)
  next
    case (Rendezvous i)
    then have t: "t = s\<lparr>nv_pc := (nv_pc s)[i := Unlocking], nv_select := Done\<rparr>" and i: "i < length (nv_pc s)" "nv_pc s ! i = Sending" "nv_select s = Selecting"
      using assms(2) by (auto split: if_splits)
    have "i \<in> pcs (\<lambda>p. p = Sending) (nv_pc s)" using i by (simp add: pcs_mem)
    then have full: "nv_trueCount s = requiredTrueCount" using blocked i(3) by (auto simp: cap_def)
    have "i \<in> pcs holds_mu (nv_pc s)" using i by (simp add: pcs_mem gpc_defs)
    then have "pcs (\<lambda>p. p = Sending) ((nv_pc s)[i := Unlocking]) = {}" using alone i by (auto simp: pcs_update)
    moreover note m = pcs_same [OF i(1), unfolded i(2), of _ Unlocking]
    ultimately show ?thesis
      using len mu count shown full i(3) by (auto simp: t naive_ok_def m gpc_defs cap_def)
  next
    case (Unlock i)
    then have t: "t = s\<lparr>nv_pc := (nv_pc s)[i := Returned], nv_mu := None\<rparr>" and i: "i < length (nv_pc s)" "nv_pc s ! i = Unlocking"
      using assms(2) by (auto split: if_splits)
    have "i \<in> pcs holds_mu (nv_pc s)" using i by (simp add: pcs_mem gpc_defs)
    with mu have "pcs holds_mu ((nv_pc s)[i := Returned]) = {}" using i by (cases "nv_mu s") (auto simp: pcs_update gpc_defs)
    moreover note m = pcs_same [OF i(1), unfolded i(2), of _ Returned]
    ultimately show ?thesis using assms(1) by (auto simp: t naive_ok_def m gpc_defs cap_def)
  next
    case Expire
    then show ?thesis using assms by (auto simp: naive_ok_def cap_def split: if_splits)
  next
    case Print
    then show ?thesis using assms by (auto simp: naive_ok_def cap_def split: if_splits)
  qed
qed

interpretation demo: inductive_invariant "\<lambda>s. s = naive_start" naive_step naive_ok
  by unfold_locales (auto simp: naive_ok_start elim: naive_stepE intro: naive_ok_step)

text \<open>
  What the demonstration prints.  Whatever the schedule, \<open>main\<close> prints Done only with a majority counted,
  the number it prints is at most seven, the counter stops there, and of the ten goroutines at most six
  ever return: the next one waits for ever to send, with the mutex locked.
\<close>
theorem naive_majority_or_timeout:
  assumes "reach (\<lambda>s. s = naive_start) naive_step s"
  shows "(nv_select s = Done \<longrightarrow> 6 \<le> nv_trueCount s) \<and> nv_trueCount s \<le> 7
    \<and> (\<forall>v. nv_printed s = Some v \<longrightarrow> v \<le> 7 \<and> (nv_select s = Done \<longrightarrow> 6 \<le> v) \<and> (nv_select s = TimedOut \<longrightarrow> v \<le> 6))
    \<and> card (pcs (\<lambda>p. p = Returned) (nv_pc s)) \<le> 6"
proof -
  have ok: "naive_ok s" by (rule demo.reach_inv [OF assms])
  have req: "requiredTrueCount = 6" by (simp add: requiredTrueCount_def nPeers_def)
  have "pcs (\<lambda>p. p = Returned) (nv_pc s) \<subseteq> pcs has_added (nv_pc s) - pcs (\<lambda>p. p = Sending) (nv_pc s)"
    by (auto simp: pcs_def gpc_defs)
  then have "card (pcs (\<lambda>p. p = Returned) (nv_pc s)) \<le> card (pcs has_added (nv_pc s) - pcs (\<lambda>p. p = Sending) (nv_pc s))"
    by (intro card_mono) auto
  also have "int \<dots> \<le> 6"
  proof (cases "pcs (\<lambda>p. p = Sending) (nv_pc s) = {}")
    case True
    then show ?thesis using ok by (auto simp: naive_ok_def cap_def req split: if_splits)
  next
    case False
    then obtain i where i: "i \<in> pcs (\<lambda>p. p = Sending) (nv_pc s)" by blast
    then have "i \<in> pcs has_added (nv_pc s)" by (simp add: pcs_mem gpc_defs)
    then have "card (pcs has_added (nv_pc s) - pcs (\<lambda>p. p = Sending) (nv_pc s)) < card (pcs has_added (nv_pc s))"
      using i by (intro psubset_card_mono) auto
    then show ?thesis using ok by (auto simp: naive_ok_def cap_def req split: if_splits)
  qed
  finally have "card (pcs (\<lambda>p. p = Returned) (nv_pc s)) \<le> 6" by simp
  with ok show ?thesis by (auto simp: naive_ok_def cap_def req split: if_splits)
qed

text \<open>A goroutine that reaches the send when \<open>main\<close> no longer receives never gets past it.\<close>

lemma late_sender_is_stuck:
  assumes "naive_step s t" and "nv_select s \<noteq> Selecting" and "i \<in> pcs (\<lambda>p. p = Sending) (nv_pc s)"
  shows "nv_select t \<noteq> Selecting \<and> i \<in> pcs (\<lambda>p. p = Sending) (nv_pc t)"
proof -
  from assms(1) obtain e where "naive_exec e s = Some t" by (rule naive_stepE)
  with assms(2,3) show ?thesis by (cases e) (auto simp: pcs_mem nth_list_update split: if_splits)
qed

primrec naive_run :: "naive_event list \<Rightarrow> naive \<Rightarrow> naive option" where
  "naive_run [] s = Some s"
| "naive_run (e # es) s = Option.bind (naive_exec e s) (naive_run es)"

lemma naive_run_reach:
  "naive_run es s = Some t \<Longrightarrow> reach (\<lambda>s. s = naive_start) naive_step s \<Longrightarrow> reach (\<lambda>s. s = naive_start) naive_step t"
proof (induction es arbitrary: s)
  case (Cons e es)
  then obtain u where u: "naive_exec e s = Some u" "naive_run es u = Some t" by (auto simp: bind_eq_Some_conv)
  from Cons.prems(2) naive_step.intros [OF u(1)] have "reach (\<lambda>s. s = naive_start) naive_step u" by (rule reach_step)
  with Cons.IH u(2) show ?case by blast
qed simp

definition seven_answers :: "naive_event list" where
  "seven_answers = concat (map (\<lambda>i. [Answer i 5, Lock i, Add i] @ (if i = 5 then [Rendezvous i] else []) @ [Unlock i]) [0..<6])
     @ [Answer 6 5, Lock 6, Add 6, Print]"

lemma seven_answers_run:
  "map_option (\<lambda>s. (nv_printed s, nv_select s)) (naive_run seven_answers naive_start) = Some (Some 7, Done)"
  by code_simp

theorem naive_majority_or_timeout_witness:
  "\<exists>s. naive_run seven_answers naive_start = Some s \<and> nv_printed s = Some 7 \<and> 6 \<le> nv_trueCount s
     \<and> card (pcs (\<lambda>p. p = Returned) (nv_pc s)) \<le> 6"
proof -
  from seven_answers_run obtain s where s: "naive_run seven_answers naive_start = Some s" "nv_printed s = Some 7" "nv_select s = Done"
    by auto
  from naive_run_reach [OF s(1)] have "reach (\<lambda>s. s = naive_start) naive_step s" by (simp add: reach_init)
  from naive_majority_or_timeout [OF this] s show ?thesis by auto
qed

end
