(* ===== verification/Ballots.thy ===== *)
theory Ballots
  imports Prelude
begin

text \<open>
  Ballots of \<open>a2-omnipaxos/omnipaxos.go\<close>: the struct \<open>Ballot\<close>, its three-way \<open>compare\<close>, the
  method \<open>max\<close> over a map keyed by ballots and \<open>increment\<close>.  \<open>compare\<close> is shown to be the
  comparison of a linear order, which is installed as the type's \<open>linorder\<close> instance, and
  \<open>max\<close> to return the greatest key whatever order \<open>range\<close> visits the map in.
\<close>

datatype Ballot = Ballot (ballot_N: int) (ballot_Pid: int)

definition compare :: "Ballot \<Rightarrow> Ballot \<Rightarrow> int" where
  "compare b o' =
     (if ballot_N b < ballot_N o' then -1
      else if ballot_N b = ballot_N o' then
        (if ballot_Pid b < ballot_Pid o' then -1
         else if ballot_Pid b = ballot_Pid o' then 0
         else 1)
      else 1)"

definition zero_ballot :: Ballot where
  "zero_ballot = Ballot 0 0"

definition increment :: "Ballot \<Rightarrow> int \<Rightarrow> Ballot" where
  "increment ballot i = Ballot (i + 1) (ballot_Pid ballot)"

definition max_ballot :: "(Ballot \<times> bool) list \<Rightarrow> Ballot" where
  "max_ballot m = fold (\<lambda>b res. if compare res b < 0 then b else res) (map fst m) (Ballot (-1) (-2))"

subsection \<open>The order on ballots\<close>

instantiation Ballot :: linorder
begin

definition less_eq_Ballot :: "Ballot \<Rightarrow> Ballot \<Rightarrow> bool" where
  "less_eq_Ballot a b \<longleftrightarrow>
     ballot_N a < ballot_N b \<or> ballot_N a = ballot_N b \<and> ballot_Pid a \<le> ballot_Pid b"

definition less_Ballot :: "Ballot \<Rightarrow> Ballot \<Rightarrow> bool" where
  "less_Ballot a b \<longleftrightarrow>
     ballot_N a < ballot_N b \<or> ballot_N a = ballot_N b \<and> ballot_Pid a < ballot_Pid b"

instance
  by standard (auto simp: less_eq_Ballot_def less_Ballot_def intro: Ballot.expand)

end

lemma compare_lt [simp]: "compare a b < 0 \<longleftrightarrow> a < b"
  and compare_gt [simp]: "0 < compare a b \<longleftrightarrow> b < a"
  and compare_eq [simp]: "compare a b = 0 \<longleftrightarrow> a = b"
  by (auto simp: compare_def less_Ballot_def Ballot.expand)

lemma less_Ballot_simp [simp]:
  "Ballot n p < Ballot m q \<longleftrightarrow> n < m \<or> n = m \<and> p < q"
  "Ballot n p \<le> Ballot m q \<longleftrightarrow> n < m \<or> n = m \<and> p \<le> q"
  by (simp_all add: less_Ballot_def less_eq_Ballot_def)

lemma increment_above: "ballot_N l \<le> i \<Longrightarrow> l < increment b i"
  by (simp add: increment_def less_Ballot_def)

subsection \<open>The maximum of a ballot map\<close>

lemma fold_max_ballot:
  "fold (\<lambda>b res. if compare res b < 0 then b else res) xs a = fold max xs (a :: Ballot)"
  by (rule fold_cong) (auto simp: max_def fun_eq_iff)

lemma max_ballot_Max: "max_ballot m = Max (insert (Ballot (-1) (-2)) (fst ` set m))"
proof -
  have "max_ballot m = fold max (map fst m) (Ballot (-1) (-2))"
    by (simp only: max_ballot_def fold_max_ballot)
  also have "\<dots> = Max (set (Ballot (-1) (-2) # map fst m))"
    by (simp only: Max.set_eq_fold)
  finally show ?thesis by simp
qed

lemma max_ballot_upper: "b \<in> fst ` set m \<Longrightarrow> b \<le> max_ballot m"
  by (simp add: max_ballot_Max)

lemma max_ballot_cases: "max_ballot m = Ballot (-1) (-2) \<or> max_ballot m \<in> fst ` set m"
  using Max_in [of "insert (Ballot (-1) (-2)) (fst ` set m)"] by (auto simp: max_ballot_Max)

text \<open>
  \<open>compare\<close> is the three-way comparison of the lexicographic linear order on
  \<open>(N, Pid)\<close>: its sign decides exactly one of less, equal and greater, swapping the arguments
  swaps the sign, and it is transitive.
\<close>

theorem compare_linear_order:
  "(compare a b < 0 \<longleftrightarrow> a < b) \<and> (compare a b = 0 \<longleftrightarrow> a = b) \<and> (compare a b > 0 \<longleftrightarrow> a > b)
   \<and> compare b a = - compare a b
   \<and> (compare a b > 0 \<or> compare b c > 0 \<or> compare a c \<le> 0)"
proof -
  have "compare b a = - compare a b" by (auto simp: compare_def)
  moreover have "compare a c \<le> 0 \<longleftrightarrow> \<not> c < a" by (metis compare_gt not_le)
  ultimately show ?thesis by auto
qed

text \<open>
  \<open>max\<close> over a ballot map returns the greatest ballot of the map when that map has a
  ballot above the sentinel \<open>{-1,-2}\<close>, and the sentinel otherwise; the result does not
  depend on the order in which \<open>range\<close> visits the map.
\<close>

theorem max_ballot_correct:
  "max_ballot m = Max (insert (Ballot (-1) (-2)) (fst ` set m))
   \<and> (mset m = mset m' \<longrightarrow> max_ballot m = max_ballot m')"
  using max_ballot_Max mset_eq_setD by metis

theorem max_ballot_correct_witness:
  "max_ballot [(Ballot 1 0, True), (Ballot 2 1, True)] = max_ballot [(Ballot 2 1, True), (Ballot 1 0, True)]"
proof -
  have "mset [(Ballot 1 0, True), (Ballot 2 1, True)] = mset [(Ballot 2 1, True), (Ballot 1 0, True)]"
    by simp
  then show ?thesis using max_ballot_correct by blast
qed

end
