(* ===== verification/Persistence.thy ===== *)
theory Persistence
  imports Ballots
begin

text \<open>
  Stable storage: \<open>Persister\<close> of \<open>a2-omnipaxos/persister.go\<close> and the persisted struct
  \<open>OmniPaxosState\<close> with \<open>toBytes\<close> and \<open>omnipaxosStatefromBytes\<close> of \<open>omnipaxos.go\<close>.

  The byte streams are \<open>encoding/gob\<close> streams, modelled at the level of gob values: a stream is
  a list of messages, a struct is the list of its sent fields with their numbers, integer
  fields holding zero and empty slices are not sent, decoding starts from the zero struct and
  overwrites the fields it finds, and decoding an empty stream reports EOF and leaves the
  struct untouched.  Commands (\<open>interface{}\<close> values) are opaque and of registered types, so
  encoding them succeeds.  The mutex of the persister makes each operation atomic, and copying
  a byte slice (\<open>clone\<close>) is the identity on values.
\<close>

record 'b Persister =
  omnipaxosstate :: "'b list"
  snapshot :: "'b list"

definition MakePersister :: "'b Persister" where
  "MakePersister = \<lparr>omnipaxosstate = [], snapshot = []\<rparr>"

definition clone :: "'b list \<Rightarrow> 'b list" where
  "clone orig = map (\<lambda>i. orig ! i) [0..<length orig]"

definition Copy :: "'b Persister \<Rightarrow> 'b Persister" where
  "Copy ps = MakePersister\<lparr>omnipaxosstate := omnipaxosstate ps, snapshot := snapshot ps\<rparr>"

definition SaveOmnipaxosState :: "'b Persister \<Rightarrow> 'b list \<Rightarrow> 'b Persister" where
  "SaveOmnipaxosState ps st = ps\<lparr>omnipaxosstate := clone st\<rparr>"

definition ReadOmnipaxosState :: "'b Persister \<Rightarrow> 'b list" where
  "ReadOmnipaxosState ps = clone (omnipaxosstate ps)"

definition OmnipaxosStateSize :: "'b Persister \<Rightarrow> nat" where
  "OmnipaxosStateSize ps = length (omnipaxosstate ps)"

definition SaveStateAndSnapshot :: "'b Persister \<Rightarrow> 'b list \<Rightarrow> 'b list \<Rightarrow> 'b Persister" where
  "SaveStateAndSnapshot ps st sn = ps\<lparr>omnipaxosstate := clone st, snapshot := clone sn\<rparr>"

definition ReadSnapshot :: "'b Persister \<Rightarrow> 'b list" where
  "ReadSnapshot ps = clone (snapshot ps)"

definition SnapshotSize :: "'b Persister \<Rightarrow> nat" where
  "SnapshotSize ps = length (snapshot ps)"

record 'c OmniPaxosState =
  os_L :: Ballot
  os_Log :: "'c list"
  os_PromisedRnd :: Ballot
  os_AcceptedRnd :: Ballot
  os_DecidedIdx :: int

definition zero_os :: "'c OmniPaxosState" where
  "zero_os = \<lparr>os_L = zero_ballot, os_Log = [], os_PromisedRnd = zero_ballot,
              os_AcceptedRnd = zero_ballot, os_DecidedIdx = 0\<rparr>"

datatype 'c gob_val = GInt int | GSlice "'c list" | GStruct "(nat \<times> 'c gob_val) list"

datatype 'c gob_msg = GobTypeDef | GobValue "'c gob_val"

datatype gob_error = EOF | BadStream

definition enc_int :: "nat \<Rightarrow> int \<Rightarrow> (nat \<times> 'c gob_val) list" where
  "enc_int k v = (if v = 0 then [] else [(k, GInt v)])"

definition enc_slice :: "nat \<Rightarrow> 'c list \<Rightarrow> (nat \<times> 'c gob_val) list" where
  "enc_slice k xs = (if xs = [] then [] else [(k, GSlice xs)])"

definition enc_ballot :: "nat \<Rightarrow> Ballot \<Rightarrow> (nat \<times> 'c gob_val) list" where
  "enc_ballot k b = [(k, GStruct (enc_int 0 (ballot_N b) @ enc_int 1 (ballot_Pid b)))]"

definition dec_int :: "nat \<Rightarrow> (nat \<times> 'c gob_val) list \<Rightarrow> int \<Rightarrow> int" where
  "dec_int k fs z = (case map_of fs k of Some (GInt v) \<Rightarrow> v | _ \<Rightarrow> z)"

definition dec_slice :: "nat \<Rightarrow> (nat \<times> 'c gob_val) list \<Rightarrow> 'c list \<Rightarrow> 'c list" where
  "dec_slice k fs z = (case map_of fs k of Some (GSlice xs) \<Rightarrow> xs | _ \<Rightarrow> z)"

definition dec_ballot :: "nat \<Rightarrow> (nat \<times> 'c gob_val) list \<Rightarrow> Ballot \<Rightarrow> Ballot" where
  "dec_ballot k fs z =
     (case map_of fs k of
        Some (GStruct gs) \<Rightarrow> Ballot (dec_int 0 gs (ballot_N z)) (dec_int 1 gs (ballot_Pid z))
      | _ \<Rightarrow> z)"

definition toBytes :: "'c OmniPaxosState \<Rightarrow> 'c gob_msg list" where
  "toBytes r =
     [GobTypeDef,
      GobValue (GStruct (enc_ballot 0 (os_L r) @ enc_slice 1 (os_Log r)
        @ enc_ballot 2 (os_PromisedRnd r) @ enc_ballot 3 (os_AcceptedRnd r)
        @ enc_int 4 (os_DecidedIdx r)))]"

definition gob_decode_into ::
  "'c OmniPaxosState \<Rightarrow> (nat \<times> 'c gob_val) list \<Rightarrow> 'c OmniPaxosState" where
  "gob_decode_into s fs =
     \<lparr>os_L = dec_ballot 0 fs (os_L s), os_Log = dec_slice 1 fs (os_Log s),
      os_PromisedRnd = dec_ballot 2 fs (os_PromisedRnd s),
      os_AcceptedRnd = dec_ballot 3 fs (os_AcceptedRnd s),
      os_DecidedIdx = dec_int 4 fs (os_DecidedIdx s)\<rparr>"

fun omnipaxosStatefromBytes :: "'c gob_msg list \<Rightarrow> 'c OmniPaxosState \<times> gob_error option" where
  "omnipaxosStatefromBytes [] = (zero_os, Some EOF)"
| "omnipaxosStatefromBytes (GobTypeDef # b) = omnipaxosStatefromBytes b"
| "omnipaxosStatefromBytes (GobValue (GStruct fs) # b) = (gob_decode_into zero_os fs, None)"
| "omnipaxosStatefromBytes (GobValue v # b) = (zero_os, Some BadStream)"

subsection \<open>The persister is a store\<close>

lemma clone_id [simp]: "clone xs = xs"
  by (simp add: clone_def map_nth)

lemma read_save [simp]: "ReadOmnipaxosState (SaveOmnipaxosState ps st) = st"
  by (simp add: ReadOmnipaxosState_def SaveOmnipaxosState_def)

lemma read_copy [simp]: "ReadOmnipaxosState (Copy ps) = ReadOmnipaxosState ps"
  by (simp add: ReadOmnipaxosState_def Copy_def)

lemma read_make [simp]: "ReadOmnipaxosState MakePersister = []"
  by (simp add: ReadOmnipaxosState_def MakePersister_def clone_def)

text \<open>
  What a server relies on when it saves its state, is replaced by a new incarnation working on
  a copy of the storage, and reads the state back.
\<close>

locale stable_storage =
  fixes save :: "'s \<Rightarrow> 'b list \<Rightarrow> 's" and load :: "'s \<Rightarrow> 'b list" and copy :: "'s \<Rightarrow> 's"
    and encode :: "'v \<Rightarrow> 'b list" and decode :: "'b list \<Rightarrow> 'v \<times> 'e option"
  assumes load_save: "load (save s bs) = bs"
    and load_copy: "load (copy s) = load s"
    and decode_encode: "decode (encode v) = (v, None)"
begin

lemma recover_saved: "fst (decode (load (copy (save s (encode v))))) = v"
  by (simp add: load_copy load_save decode_encode)

lemma recover_last: "fst (decode (load (copy (save (save s (encode u)) (encode v))))) = v"
  by (simp add: load_copy load_save decode_encode)

lemma encode_inj: "encode u = encode v \<Longrightarrow> u = v"
  by (metis decode_encode fst_conv)

end

lemma map_of_enc [simp]:
  "map_of (enc_int k v @ fs) j = (if j = k \<and> v \<noteq> 0 then Some (GInt v) else map_of fs j)"
  "map_of (enc_slice k xs @ fs) j = (if j = k \<and> xs \<noteq> [] then Some (GSlice xs) else map_of fs j)"
  "map_of (enc_ballot k b @ fs) j =
     (if j = k then Some (GStruct (enc_int 0 (ballot_N b) @ enc_int 1 (ballot_Pid b))) else map_of fs j)"
  "map_of (enc_int k v) j = (if j = k \<and> v \<noteq> 0 then Some (GInt v) else None)"
  by (simp_all add: enc_int_def enc_slice_def enc_ballot_def del: map_of_append)

lemma decode_encode_state: "omnipaxosStatefromBytes (toBytes s) = (s, None)"
proof (cases s)
  case (fields l lg p a d)
  then show ?thesis
    by (cases l; cases p; cases a)
       (simp add: toBytes_def gob_decode_into_def zero_os_def dec_ballot_def dec_slice_def
          dec_int_def zero_ballot_def del: map_of_append)
qed

interpretation gobstore: stable_storage SaveOmnipaxosState ReadOmnipaxosState Copy
    toBytes omnipaxosStatefromBytes
  by unfold_locales (simp_all add: decode_encode_state)

text \<open>
  Writing the persistent struct and reading it back through a copy of the persister (what a
  crash and restart does) gives the same struct with no decoding error, for every value of the
  five fields, the all-zero ones and the empty log included.
\<close>

theorem persist_roundtrip:
  "omnipaxosStatefromBytes (ReadOmnipaxosState (Copy (SaveOmnipaxosState ps (toBytes s)))) = (s, None)"
  by (simp add: decode_encode_state)

end
