(* ===== verification/OmniPaxos.thy ===== *)
theory OmniPaxos
  imports Persistence
begin

text \<open>
  One OmniPaxos server (\<open>a2-omnipaxos/omnipaxos.go\<close>): the struct \<open>OmniPaxos\<close>, the RPC request
  structs, and one definition per method.  A definition describes what the method does between
  taking and releasing \<open>op.mu\<close>; its result is the updated server together with the RPCs it
  issues, as pairs of destination and request, or the run-time panic it raises.

  \<^item> \<open>op_peers\<close> is \<open>len(op.peers)\<close>; a call on \<open>op.peers[f]\<close> is the pair \<open>(f, request)\<close>, and an
    index outside the slice is a panic (\<open>send_to\<close>).
  \<^item> \<open>op_applyCh\<close> is everything this incarnation has sent on its apply channel.
  \<^item> \<open>op_persister\<close> is the stable storage the server writes to.
  \<^item> \<open>op_maxProm\<close> is the pointer \<open>maxProm\<close>, \<open>None\<close> standing for \<open>nil\<close>.
  \<^item> \<open>PromiseHandler\<close> takes the order in which \<open>range op.promises\<close> visits the map.
  \<^item> Log output (\<open>Debug\<close>, \<open>Info\<close>, \<open>Trace\<close>) is left out.
\<close>

subsection \<open>Data\<close>

datatype Role = LEADER | FOLLOWER

datatype Phase = PREPARE | ACCEPT | RECOVER

record State =
  role :: Role
  phase :: Phase

record 'c Promise =
  p_f :: int
  p_accRnd :: Ballot
  p_logIdx :: int
  p_decIdx :: int
  p_log :: "'c list"

definition zero_promise :: "'c Promise" where
  "zero_promise = \<lparr>p_f = 0, p_accRnd = zero_ballot, p_logIdx = 0, p_decIdx = 0, p_log = []\<rparr>"

record 'c ApplyMsg =
  CommandValid :: bool
  Command :: 'c
  CommandIndex :: int

record HBReply =
  hb_Rnd :: int
  hb_Ballot :: int
  hb_Q :: bool

datatype 'c rpc =
    PrepareRequest (req_L: int) (req_N: Ballot) (req_AccRnd: Ballot) (req_LogIdx: int) (req_DecIdx: int)
  | PromiseRequest (req_F: int) (req_N: Ballot) (req_AccRnd: Ballot) (req_LogIdx: int) (req_DecIdx: int)
      (req_Sfx: "'c list")
  | AcceptSyncRequest (req_L: int) (req_N: Ballot) (req_Sfx: "'c list") (req_SyncIdx: int)
  | DecideRequest (req_L: int) (req_N: Ballot) (req_DecIdx: int)
  | AcceptedRequest (req_F: int) (req_N: Ballot) (req_LogIdx: int)
  | AcceptRequest (req_L: int) (req_N: Ballot) (req_Idx: int) (req_C: 'c)
  | PrepareReqRequest (req_F: int)
  | ReconnectedRequest (req_F: int)
  | HBRequest (hb_from: int) (req_Rnd: int)
  | HBResponse (hb_from: int) (req_Rnd: int) (hb_reply: HBReply)

type_synonym 'c calls = "(int \<times> 'c rpc) list"

record 'c OmniPaxos =
  op_peers :: nat
  op_persister :: "'c gob_msg Persister"
  op_me :: int
  op_dead :: int
  op_enableLogging :: int
  op_currentRnd :: Ballot
  op_promises :: "(int, 'c Promise) gomap"
  op_maxProm :: "'c Promise option"
  op_accepted :: "int list"
  op_buffer :: "'c list"
  op_os :: "'c OmniPaxosState"
  op_r :: int
  op_b :: Ballot
  op_qc :: bool
  op_ballots :: "(Ballot, bool) gomap"
  op_state :: State
  op_applyCh :: "'c ApplyMsg list"
  op_linkDrop :: bool
  op_missedHbCounts :: "(int, int) gomap"
  op_restart_loop :: int

type_synonym 'c outcome = "('c OmniPaxos \<times> 'c calls) go"

abbreviation leads :: "'c OmniPaxos \<Rightarrow> bool" where
  "leads op \<equiv> role (op_state op) = LEADER"

abbreviation in_state :: "'c OmniPaxos \<Rightarrow> Role \<Rightarrow> Phase \<Rightarrow> bool" where
  "in_state op r p \<equiv> role (op_state op) = r \<and> phase (op_state op) = p"

abbreviation promised :: "'c OmniPaxos \<Rightarrow> Ballot" where
  "promised op \<equiv> os_PromisedRnd (op_os op)"

abbreviation acceptedRnd :: "'c OmniPaxos \<Rightarrow> Ballot" where
  "acceptedRnd op \<equiv> os_AcceptedRnd (op_os op)"

abbreviation decidedIdx :: "'c OmniPaxos \<Rightarrow> int" where
  "decidedIdx op \<equiv> os_DecidedIdx (op_os op)"

abbreviation oplog :: "'c OmniPaxos \<Rightarrow> 'c list" where
  "oplog op \<equiv> os_Log (op_os op)"

subsection \<open>Helpers of the server\<close>

definition peer_ids :: "'c OmniPaxos \<Rightarrow> int list" where
  "peer_ids op = map int [0..<op_peers op]"

definition other_peers :: "'c OmniPaxos \<Rightarrow> int list" where
  "other_peers op = filter (\<lambda>p. p \<noteq> op_me op) (peer_ids op)"

definition send_to :: "'c OmniPaxos \<Rightarrow> 'c calls \<Rightarrow> 'c outcome" where
  "send_to op ms =
     (if list_all (\<lambda>(d, _). 0 \<le> d \<and> d < int (op_peers op)) ms then Inr (op, ms)
      else Inl IndexOutOfRange)"

definition persist :: "'c OmniPaxos \<Rightarrow> 'c OmniPaxos" where
  "persist op = op\<lparr>op_persister := SaveOmnipaxosState (op_persister op) (toBytes (op_os op))\<rparr>"

definition readPersist :: "'c OmniPaxos \<Rightarrow> 'c OmniPaxos" where
  "readPersist op = op\<lparr>op_os := fst (omnipaxosStatefromBytes (ReadOmnipaxosState (op_persister op)))\<rparr>"

definition stopped :: "'c OmniPaxos \<Rightarrow> bool" where
  "stopped op = False"

definition op_suffix :: "'c OmniPaxos \<Rightarrow> int \<Rightarrow> 'c list go" where
  "op_suffix op idx = (if idx > int (length (oplog op)) then Inr [] else go_from (oplog op) idx)"

definition op_prefix :: "'c OmniPaxos \<Rightarrow> int \<Rightarrow> 'c list go" where
  "op_prefix op idx =
     go_upto (oplog op) (if idx > int (length (oplog op)) then int (length (oplog op)) else idx)"

definition addToApplyChan :: "'c OmniPaxos \<Rightarrow> 'c list \<Rightarrow> int \<Rightarrow> int \<Rightarrow> 'c OmniPaxos go" where
  "addToApplyChan op lg from to =
     res_bind
       (go_mapM (\<lambda>i. res_bind (go_index lg i)
          (\<lambda>c. Inr \<lparr>CommandValid = True, Command = c, CommandIndex = i\<rparr>)) [from..to - 1])
       (\<lambda>msgs. Inr (op\<lparr>op_applyCh := op_applyCh op @ msgs\<rparr>))"

definition hasMajorityAccepted :: "'c OmniPaxos \<Rightarrow> int \<Rightarrow> bool" where
  "hasMajorityAccepted op v =
     (majority (op_peers op) \<le> length (filter (\<lambda>a. v \<le> a) (op_accepted op)))"

definition maxPromise :: "'c Promise list \<Rightarrow> 'c Promise" where
  "maxPromise ps =
     fold (\<lambda>p mx. if compare (p_accRnd p) (p_accRnd mx) > 0
                     \<or> p_accRnd p = p_accRnd mx \<and> p_logIdx p > p_logIdx mx then p else mx)
       ps (zero_promise\<lparr>p_accRnd := Ballot (-1) (-1)\<rparr>)"

definition Kill :: "'c OmniPaxos \<Rightarrow> 'c OmniPaxos" where
  "Kill op = op\<lparr>op_dead := 1, op_enableLogging := 0\<rparr>"

definition killed :: "'c OmniPaxos \<Rightarrow> bool" where
  "killed op = (op_dead op = 1)"

subsection \<open>Ballot leader election\<close>

definition HeartBeatHandler :: "'c OmniPaxos \<Rightarrow> int \<Rightarrow> HBReply" where
  "HeartBeatHandler op rnd = \<lparr>hb_Rnd = rnd, hb_Ballot = ballot_N (op_b op), hb_Q = op_qc op\<rparr>"

definition GetState :: "'c OmniPaxos \<Rightarrow> int \<times> bool" where
  "GetState op =
     (ballot_N (op_b op), role (op_state op) = LEADER \<and> ballot_Pid (os_L (op_os op)) = op_me op)"

definition triggerLeader :: "'c OmniPaxos \<Rightarrow> int \<Rightarrow> Ballot \<Rightarrow> 'c outcome" where
  "triggerLeader op s n =
     (if \<not> (s = op_me op \<and> compare n (promised op) > 0)
      then Inr (op\<lparr>op_state := (op_state op)\<lparr>role := FOLLOWER\<rparr>\<rparr>, [])
      else
        let op1 = op\<lparr>op_accepted := replicate (length (op_accepted op)) 0,
                     op_promises := [],
                     op_maxProm := Some zero_promise,
                     op_buffer := [],
                     op_qc := True,
                     op_state := \<lparr>role = LEADER, phase = PREPARE\<rparr>,
                     op_currentRnd := n,
                     op_os := (op_os op)\<lparr>os_PromisedRnd := n\<rparr>\<rparr>
        in res_bind (op_suffix op1 (decidedIdx op1)) (\<lambda>sfx.
          let promise = \<lparr>p_f = op_me op1, p_accRnd = acceptedRnd op1,
                         p_logIdx = int (length (oplog op1)), p_decIdx = decidedIdx op1, p_log = sfx\<rparr>;
              op2 = op1\<lparr>op_promises := mput (op_me op1) promise (op_promises op1)\<rparr>
          in Inr (persist op2,
                  map (\<lambda>peer. (peer, PrepareRequest (op_me op2) (op_currentRnd op2) (acceptedRnd op2)
                                 (int (length (oplog op2))) (decidedIdx op2))) (other_peers op2))))"

definition checkLeader :: "'c OmniPaxos \<Rightarrow> 'c outcome" where
  "checkLeader op =
     (let candidates = filter snd (op_ballots op);
          mx = max_ballot candidates;
          l = os_L (op_os op)
      in if compare mx l < 0
         then Inr (op\<lparr>op_b := increment (op_b op) (ballot_N l), op_qc := True\<rparr>, [])
         else if compare mx l > 0
         then triggerLeader (persist (op\<lparr>op_os := (op_os op)\<lparr>os_L := mx\<rparr>\<rparr>)) (ballot_Pid mx) mx
         else Inr (op, []))"

text \<open>The loop over the received ballots in \<open>updateMissedHbsAndReconnect\<close>.\<close>

fun missedLoop ::
  "int \<Rightarrow> int \<Rightarrow> Ballot list \<Rightarrow> (int, int) gomap \<Rightarrow> int list \<Rightarrow> 'c calls
     \<Rightarrow> (int, int) gomap \<times> int list \<times> 'c calls" where
  "missedLoop me l [] missed allMissed ms = (missed, allMissed, ms)"
| "missedLoop me l (b # bs) missed allMissed ms =
     (if ballot_Pid b = me then missedLoop me l bs missed allMissed ms
      else
        let isLinkReconnected = (mget0 0 missed (ballot_Pid b) > 3 \<and> me = l);
            ms' = (if isLinkReconnected then ms @ [(ballot_Pid b, ReconnectedRequest me)] else ms)
        in missedLoop me l bs (mput (ballot_Pid b) 0 missed) (remove1 (ballot_Pid b) allMissed) ms')"

definition updateMissedHbsAndReconnect :: "'c OmniPaxos \<Rightarrow> 'c outcome" where
  "updateMissedHbsAndReconnect op =
     (let (missed, allMissed, ms) =
            missedLoop (op_me op) (ballot_Pid (os_L (op_os op))) (map fst (op_ballots op))
              (op_missedHbCounts op) (other_peers op) [];
          missed' = fold (\<lambda>p m. mput p (mget0 0 m p + 1) m) allMissed missed;
          drop = (if int (length allMissed) = int (op_peers op) - 1 then True
                  else if op_linkDrop op then False else op_linkDrop op);
          loop = op_restart_loop op + 1;
          reqs = (if loop = 2 then map (\<lambda>p. (p, PrepareReqRequest (op_me op))) (peer_ids op) else [])
      in send_to (op\<lparr>op_missedHbCounts := missed', op_linkDrop := drop, op_restart_loop := loop\<rparr>)
           (ms @ reqs))"

text \<open>One iteration of the loop of \<open>startTimer\<close>, with the heartbeats it sends at the end.\<close>

definition startTimer :: "'c OmniPaxos \<Rightarrow> 'c outcome" where
  "startTimer op =
     (let op1 = op\<lparr>op_ballots := mput (op_b op) (op_qc op) (op_ballots op)\<rparr>
      in res_bind
           (if majority (op_peers op1) \<le> length (op_ballots op1) then checkLeader op1
            else Inr (op1\<lparr>op_qc := False\<rparr>, []))
           (\<lambda>(op2, ms2). res_bind (updateMissedHbsAndReconnect op2)
             (\<lambda>(op3, ms3).
               let op4 = op3\<lparr>op_ballots := [], op_r := op_r op3 + 1\<rparr>
               in Inr (op4, ms2 @ ms3 @
                    map (\<lambda>p. (p, HBRequest (op_me op4) (op_r op4))) (other_peers op4)))))"

text \<open>
  The heartbeat goroutine after \<open>Call\<close> returned: \<open>r\<close> is the round it was started with, \<open>p\<close> the
  peer it called.
\<close>

definition heartBeatReturn :: "'c OmniPaxos \<Rightarrow> int \<Rightarrow> int \<Rightarrow> HBReply \<Rightarrow> 'c OmniPaxos" where
  "heartBeatReturn op r p reply =
     (if hb_Rnd reply = r
      then op\<lparr>op_ballots := mput (Ballot (hb_Ballot reply) p) (hb_Q reply) (op_ballots op)\<rparr>
      else op)"

subsection \<open>Log replication\<close>

definition Proposal ::
  "'c OmniPaxos \<Rightarrow> 'c \<Rightarrow> (('c OmniPaxos \<times> 'c calls) \<times> (int \<times> int \<times> bool)) go" where
  "Proposal op command =
     (let isLeader = (role (op_state op) = LEADER \<and> ballot_Pid (os_L (op_os op)) = op_me op)
      in if stopped op then Inr ((op, []), (-1, -1, isLeader))
         else if in_state op LEADER PREPARE
         then Inr ((op\<lparr>op_buffer := op_buffer op @ [command]\<rparr>, []),
                   (int (length (oplog op)) - 1, ballot_N (os_L (op_os op)), isLeader))
         else if in_state op LEADER ACCEPT
         then
           let op1 = op\<lparr>op_os := (op_os op)\<lparr>os_Log := oplog op @ [command]\<rparr>\<rparr>
           in res_bind (go_set (op_accepted op1) (op_me op1) (int (length (oplog op1)))) (\<lambda>acc.
             let op2 = persist (op1\<lparr>op_accepted := acc\<rparr>);
                 ms = map (\<lambda>p. (p_f p, AcceptRequest (op_me op2) (op_currentRnd op2)
                                  (int (length (oplog op2))) command))
                        (filter (\<lambda>p. p_f p \<noteq> op_me op2) (map snd (op_promises op2)))
             in res_bind (send_to op2 ms) (\<lambda>out.
                  Inr (out, (int (length (oplog op2)) - 1, ballot_N (os_L (op_os op2)), isLeader))))
         else Inr ((op, []), (-1, -1, isLeader)))"

definition PrepareHandler ::
  "'c OmniPaxos \<Rightarrow> int \<Rightarrow> Ballot \<Rightarrow> Ballot \<Rightarrow> int \<Rightarrow> int \<Rightarrow> 'c outcome" where
  "PrepareHandler op l n accRnd logIdx decIdx =
     (if compare (promised op) n > 0 then Inr (op, [])
      else
        let op1 = persist (op\<lparr>op_state := \<lparr>role = FOLLOWER, phase = PREPARE\<rparr>,
                              op_os := (op_os op)\<lparr>os_PromisedRnd := n\<rparr>\<rparr>)
        in res_bind
             (if compare (acceptedRnd op1) accRnd > 0 then op_suffix op1 decIdx
              else if compare (acceptedRnd op1) accRnd = 0 then op_suffix op1 logIdx
              else Inr [])
             (\<lambda>sfx. send_to op1
                [(l, PromiseRequest (op_me op1) n (acceptedRnd op1) (int (length (oplog op1)))
                       (decidedIdx op1) sfx)]))"

text \<open>The synchronisation message to the promised follower \<open>p\<close> (step P5 of \<open>PromiseHandler\<close>).\<close>

definition syncTo :: "'c OmniPaxos \<Rightarrow> Ballot \<Rightarrow> 'c Promise \<Rightarrow> 'c Promise \<Rightarrow> (int \<times> 'c rpc) go" where
  "syncTo op n mx p =
     (let syncIdx = (if p_accRnd p = p_accRnd mx then p_logIdx p else p_decIdx p)
      in res_bind (op_suffix op syncIdx) (\<lambda>sfx.
           Inr (p_f p, AcceptSyncRequest (op_me op) n sfx syncIdx)))"

text \<open>Steps P2 to P6: the leader adopts the log of the greatest promise.\<close>

definition adoptPromise :: "'c OmniPaxos \<Rightarrow> 'c Promise \<Rightarrow> 'c OmniPaxos go" where
  "adoptPromise op mx =
     res_bind (if p_accRnd mx \<noteq> acceptedRnd op then op_prefix op (decidedIdx op) else Inr (oplog op))
       (\<lambda>lg.
         let lg1 = lg @ p_log mx;
             op1 = op\<lparr>op_maxProm := Some mx\<rparr>;
             op2 = (if stopped op1
                    then op1\<lparr>op_os := (op_os op1)\<lparr>os_Log := lg1\<rparr>, op_buffer := []\<rparr>
                    else op1\<lparr>op_os := (op_os op1)\<lparr>os_Log := lg1 @ op_buffer op1\<rparr>\<rparr>);
             op3 = op2\<lparr>op_os := (op_os op2)\<lparr>os_AcceptedRnd := op_currentRnd op2\<rparr>\<rparr>
         in res_bind (go_set (op_accepted op3) (op_me op3) (int (length (oplog op3)))) (\<lambda>acc.
              Inr (op3\<lparr>op_accepted := acc, op_state := \<lparr>role = LEADER, phase = ACCEPT\<rparr>\<rparr>)))"

definition PromiseHandler ::
  "('c Promise list \<Rightarrow> 'c Promise list) \<Rightarrow> 'c OmniPaxos
     \<Rightarrow> int \<Rightarrow> Ballot \<Rightarrow> Ballot \<Rightarrow> int \<Rightarrow> int \<Rightarrow> 'c list \<Rightarrow> 'c outcome" where
  "PromiseHandler rng op f n accRnd logIdx decIdx sfx =
     (if compare n (op_currentRnd op) \<noteq> 0 then Inr (op, [])
      else
        let promise = \<lparr>p_f = f, p_accRnd = accRnd, p_logIdx = logIdx, p_decIdx = decIdx, p_log = sfx\<rparr>;
            op1 = op\<lparr>op_promises := mput f promise (op_promises op)\<rparr>
        in if role (op_state op1) \<noteq> LEADER then Inr (op1, [])
           else if phase (op_state op1) = PREPARE
           then
             if length (op_promises op1) < majority (op_peers op1) then Inr (op1, [])
             else
               let mx = maxPromise (rng (map snd (op_promises op1)))
               in res_bind (adoptPromise op1 mx) (\<lambda>op2.
                    res_bind (go_mapM (syncTo op2 n mx) (map snd (op_promises op2))) (\<lambda>ms.
                      send_to (persist op2) ms))
           else if phase (op_state op1) = ACCEPT
           then
             case op_maxProm op1 of
               None \<Rightarrow> Inl NilDeref
             | Some mx \<Rightarrow>
                 let syncIdx = (if accRnd = p_accRnd mx then p_logIdx mx else decIdx)
                 in res_bind (op_suffix op1 syncIdx) (\<lambda>s.
                      let ms = [(f, AcceptSyncRequest (op_me op1) n s syncIdx)]
                               @ (if decidedIdx op1 > decIdx
                                  then [(f, DecideRequest (op_me op1) n (decidedIdx op1))] else [])
                      in send_to (persist op1) ms)
           else Inr (persist op1, []))"

definition AcceptSyncHandler ::
  "'c OmniPaxos \<Rightarrow> int \<Rightarrow> Ballot \<Rightarrow> 'c list \<Rightarrow> int \<Rightarrow> 'c outcome" where
  "AcceptSyncHandler op l n sfx syncIdx =
     (if compare (promised op) n \<noteq> 0 \<or> \<not> in_state op FOLLOWER PREPARE then Inr (op, [])
      else
        let op1 = op\<lparr>op_os := (op_os op)\<lparr>os_AcceptedRnd := n\<rparr>,
                     op_state := \<lparr>role = FOLLOWER, phase = ACCEPT\<rparr>\<rparr>
        in res_bind (op_prefix op1 syncIdx) (\<lambda>lg.
             let op2 = persist (op1\<lparr>op_os := (op_os op1)\<lparr>os_Log := lg @ sfx\<rparr>\<rparr>)
             in send_to op2 [(l, AcceptedRequest (op_me op2) n (int (length (oplog op2))))]))"

definition DecideHandler :: "'c OmniPaxos \<Rightarrow> int \<Rightarrow> Ballot \<Rightarrow> int \<Rightarrow> 'c outcome" where
  "DecideHandler op l n decIdx =
     (if decIdx \<le> decidedIdx op then Inr (op, [])
      else if decIdx > int (length (oplog op)) then Inr (op, [])
      else if compare (promised op) n = 0 \<and> in_state op FOLLOWER ACCEPT
      then res_bind (addToApplyChan op (oplog op) (decidedIdx op) decIdx) (\<lambda>op1.
             Inr (persist (op1\<lparr>op_os := (op_os op1)\<lparr>os_DecidedIdx := decIdx\<rparr>\<rparr>), []))
      else Inr (op, []))"

definition AcceptedHandler :: "'c OmniPaxos \<Rightarrow> int \<Rightarrow> Ballot \<Rightarrow> int \<Rightarrow> 'c outcome" where
  "AcceptedHandler op f n logIdx =
     (if compare (promised op) n \<noteq> 0 \<or> \<not> in_state op LEADER ACCEPT then Inr (op, [])
      else res_bind (go_set (op_accepted op) f logIdx) (\<lambda>acc.
        let op1 = op\<lparr>op_accepted := acc\<rparr>
        in if logIdx > decidedIdx op1 \<and> hasMajorityAccepted op1 logIdx
           then res_bind (addToApplyChan op1 (oplog op1) (decidedIdx op1) logIdx) (\<lambda>op2.
             let op3 = persist (op2\<lparr>op_os := (op_os op2)\<lparr>os_DecidedIdx := logIdx\<rparr>\<rparr>)
             in send_to op3
                  (map (\<lambda>p. (p_f p, DecideRequest (op_me op3) (op_currentRnd op3) (decidedIdx op3)))
                     (map snd (op_promises op3))))
           else Inr (op1, [])))"

definition AcceptHandler :: "'c OmniPaxos \<Rightarrow> int \<Rightarrow> Ballot \<Rightarrow> int \<Rightarrow> 'c \<Rightarrow> 'c outcome" where
  "AcceptHandler op l n idx c =
     (if compare (promised op) n \<noteq> 0 \<or> \<not> in_state op FOLLOWER ACCEPT then Inr (op, [])
      else
        let op1 = persist (op\<lparr>op_os := (op_os op)\<lparr>os_Log := oplog op @ [c]\<rparr>\<rparr>)
        in send_to op1 [(l, AcceptedRequest (op_me op1) n (int (length (oplog op1))))])"

definition ReconnectedHandler :: "'c OmniPaxos \<Rightarrow> int \<Rightarrow> 'c outcome" where
  "ReconnectedHandler op f =
     (let op1 = (if f = ballot_Pid (os_L (op_os op))
                 then op\<lparr>op_state := \<lparr>role = FOLLOWER, phase = RECOVER\<rparr>\<rparr> else op)
      in send_to op1 [(f, PrepareReqRequest (op_me op1))])"

definition PrepareReqHandler :: "'c OmniPaxos \<Rightarrow> int \<Rightarrow> 'c outcome" where
  "PrepareReqHandler op f =
     (if role (op_state op) \<noteq> LEADER then Inr (op, [])
      else send_to op [(f, PrepareRequest (op_me op) (op_currentRnd op) (acceptedRnd op)
                            (int (length (oplog op))) (decidedIdx op))])"

definition checkRecover :: "'c OmniPaxos \<Rightarrow> 'c outcome" where
  "checkRecover op =
     (if ballot_Pid (promised op) \<noteq> -1
      then Inr (op\<lparr>op_state := \<lparr>role = FOLLOWER, phase = RECOVER\<rparr>\<rparr>,
                map (\<lambda>p. (p, PrepareReqRequest (op_me op))) (peer_ids op))
      else Inr (op, []))"

subsection \<open>Dispatch of a request, and start of a server\<close>

text \<open>
  What the server does with a request addressed to it.  A heartbeat request is answered with
  the reply; its arrival at the caller is the request \<open>HBResponse\<close>, which carries the round the
  caller's goroutine was started with.
\<close>

fun handle :: "('c Promise list \<Rightarrow> 'c Promise list) \<Rightarrow> 'c OmniPaxos \<Rightarrow> 'c rpc \<Rightarrow> 'c outcome" where
  "handle rng op (PrepareRequest l n a i d) = PrepareHandler op l n a i d"
| "handle rng op (PromiseRequest f n a i d s) = PromiseHandler rng op f n a i d s"
| "handle rng op (AcceptSyncRequest l n s i) = AcceptSyncHandler op l n s i"
| "handle rng op (DecideRequest l n d) = DecideHandler op l n d"
| "handle rng op (AcceptedRequest f n i) = AcceptedHandler op f n i"
| "handle rng op (AcceptRequest l n i c) = AcceptHandler op l n i c"
| "handle rng op (PrepareReqRequest f) = PrepareReqHandler op f"
| "handle rng op (ReconnectedRequest f) = ReconnectedHandler op f"
| "handle rng op (HBRequest f r) = send_to op [(f, HBResponse (op_me op) r (HeartBeatHandler op r))]"
| "handle rng op (HBResponse p r rep) = Inr (heartBeatReturn op r p rep, [])"

text \<open>\<open>Make\<close> before it starts the timer goroutine; \<open>n\<close> is \<open>len(peers)\<close>.\<close>

definition Make :: "nat \<Rightarrow> int \<Rightarrow> 'c gob_msg Persister \<Rightarrow> 'c OmniPaxos go" where
  "Make n me ps =
     (let op = \<lparr>op_peers = n, op_persister = ps, op_me = me, op_dead = 0, op_enableLogging = 0,
                op_currentRnd = zero_ballot, op_promises = [], op_maxProm = None,
                op_accepted = replicate n 0, op_buffer = [],
                op_os = \<lparr>os_L = Ballot (-1) (-1), os_Log = [], os_PromisedRnd = Ballot (-1) (-1),
                         os_AcceptedRnd = Ballot (-1) (-1), os_DecidedIdx = 0\<rparr>,
                op_r = 0, op_b = Ballot 0 me, op_qc = True, op_ballots = [],
                op_state = \<lparr>role = FOLLOWER, phase = PREPARE\<rparr>, op_applyCh = [],
                op_linkDrop = False, op_missedHbCounts = [], op_restart_loop = 0\<rparr>;
          op1 = readPersist op
      in addToApplyChan op1 (oplog op1) 0 (decidedIdx op1))"

end
