(* ===== verification/Server.thy ===== *)
theory Server
  imports OmniPaxos
begin

text \<open>
  What every operation of one OmniPaxos server keeps, whatever requests the network delivers:
  ranges (\<open>server_ok\<close>), the relation between role, phase and rounds (\<open>rounds_ok\<close>), that stable
  storage is never behind memory when the lock is free (\<open>durable\<close>), and that the apply channel
  carries consecutive indices (\<open>applied_ok\<close>).  Each has one preservation lemma per operation;
  \<open>op_step\<close> is the set of lock-protected operations; the theory \<open>Cluster\<close> derives what holds after
  any sequence of them on any number of servers.
\<close>

definition promise_ok :: "nat \<Rightarrow> int \<times> 'c Promise \<Rightarrow> bool" where
  "promise_ok n kp \<longleftrightarrow> p_f (snd kp) = fst kp \<and> 0 \<le> fst kp \<and> fst kp < int n
     \<and> 0 \<le> p_logIdx (snd kp) \<and> 0 \<le> p_decIdx (snd kp)"

definition promises_ok :: "nat \<Rightarrow> (int, 'c Promise) gomap \<Rightarrow> bool" where
  "promises_ok n m \<longleftrightarrow> gomap_ok m \<and> (\<forall>kp \<in> set m. promise_ok n kp)"

definition ballots_ok :: "nat \<Rightarrow> (Ballot, bool) gomap \<Rightarrow> bool" where
  "ballots_ok n m \<longleftrightarrow> (\<forall>b \<in> fst ` set m. 0 \<le> ballot_Pid b \<and> ballot_Pid b < int n)"

definition server_ok :: "'c OmniPaxos \<Rightarrow> bool" where
  "server_ok op \<longleftrightarrow>
     0 \<le> op_me op \<and> op_me op < int (op_peers op) \<and> length (op_accepted op) = op_peers op
     \<and> promises_ok (op_peers op) (op_promises op)
     \<and> 0 \<le> decidedIdx op
     \<and> (\<forall>mx. op_maxProm op = Some mx \<longrightarrow> 0 \<le> p_logIdx mx)
     \<and> (leads op \<longrightarrow> op_maxProm op \<noteq> None)
     \<and> ballots_ok (op_peers op) (op_ballots op)
     \<and> ballot_Pid (op_b op) = op_me op"

definition rounds_ok :: "'c OmniPaxos \<Rightarrow> bool" where
  "rounds_ok op \<longleftrightarrow>
     acceptedRnd op \<le> promised op
     \<and> (leads op \<longrightarrow> op_currentRnd op = promised op \<and> ballot_Pid (promised op) = op_me op)
     \<and> (phase (op_state op) = ACCEPT \<longrightarrow> acceptedRnd op = promised op)"

definition stored :: "'c OmniPaxos \<Rightarrow> 'c OmniPaxosState" where
  "stored op = fst (omnipaxosStatefromBytes (ReadOmnipaxosState (op_persister op)))"

definition durable :: "'c OmniPaxos \<Rightarrow> bool" where
  "durable op \<longleftrightarrow> stored op = op_os op"

definition applied_ok :: "'c OmniPaxos \<Rightarrow> bool" where
  "applied_ok op \<longleftrightarrow> map CommandIndex (op_applyCh op) = [0..decidedIdx op - 1]
     \<and> list_all CommandValid (op_applyCh op)"

definition rpc_ok :: "nat \<Rightarrow> 'c rpc \<Rightarrow> bool" where
  "rpc_ok n m \<longleftrightarrow> (case m of
      PrepareRequest l _ _ i d \<Rightarrow> 0 \<le> l \<and> l < int n \<and> 0 \<le> i \<and> 0 \<le> d
    | PromiseRequest f _ _ i d _ \<Rightarrow> 0 \<le> f \<and> f < int n \<and> 0 \<le> i \<and> 0 \<le> d
    | AcceptSyncRequest l _ _ i \<Rightarrow> 0 \<le> l \<and> l < int n \<and> 0 \<le> i
    | DecideRequest l _ d \<Rightarrow> 0 \<le> l \<and> l < int n \<and> 0 \<le> d
    | AcceptedRequest f _ i \<Rightarrow> 0 \<le> f \<and> f < int n \<and> 0 \<le> i
    | AcceptRequest l _ i _ \<Rightarrow> 0 \<le> l \<and> l < int n \<and> 1 \<le> i
    | PrepareReqRequest f \<Rightarrow> 0 \<le> f \<and> f < int n
    | ReconnectedRequest f \<Rightarrow> 0 \<le> f \<and> f < int n
    | HBRequest f _ \<Rightarrow> 0 \<le> f \<and> f < int n
    | HBResponse f _ _ \<Rightarrow> 0 \<le> f \<and> f < int n)"

definition calls_ok :: "nat \<Rightarrow> 'c calls \<Rightarrow> bool" where
  "calls_ok n ms \<longleftrightarrow> list_all (\<lambda>(d, m). 0 \<le> d \<and> d < int n \<and> rpc_ok n m) ms"

text \<open>The operations a server performs under its lock: an RPC, a timer tick, a client proposal.\<close>

inductive op_step :: "'c OmniPaxos \<Rightarrow> 'c OmniPaxos \<Rightarrow> 'c calls \<Rightarrow> bool" where
  step_handle: "range_order rng \<Longrightarrow> rpc_ok (op_peers op) m \<Longrightarrow> handle rng op m = Inr (op', ms)
    \<Longrightarrow> op_step op op' ms"
| step_timer: "startTimer op = Inr (op', ms) \<Longrightarrow> op_step op op' ms"
| step_propose: "Proposal op c = Inr ((op', ms), r) \<Longrightarrow> op_step op op' ms"

subsection \<open>Shared facts\<close>

lemmas handler_defs =
  PrepareHandler_def PromiseHandler_def AcceptSyncHandler_def DecideHandler_def AcceptedHandler_def
  AcceptHandler_def ReconnectedHandler_def PrepareReqHandler_def heartBeatReturn_def

lemma rpc_ok_simps [simp]:
  "rpc_ok n (PrepareRequest l b a i d) \<longleftrightarrow> 0 \<le> l \<and> l < int n \<and> 0 \<le> i \<and> 0 \<le> d"
  "rpc_ok n (PromiseRequest f b a i d s) \<longleftrightarrow> 0 \<le> f \<and> f < int n \<and> 0 \<le> i \<and> 0 \<le> d"
  "rpc_ok n (AcceptSyncRequest l b s i) \<longleftrightarrow> 0 \<le> l \<and> l < int n \<and> 0 \<le> i"
  "rpc_ok n (DecideRequest l b d) \<longleftrightarrow> 0 \<le> l \<and> l < int n \<and> 0 \<le> d"
  "rpc_ok n (AcceptedRequest f b i) \<longleftrightarrow> 0 \<le> f \<and> f < int n \<and> 0 \<le> i"
  "rpc_ok n (AcceptRequest l b i c) \<longleftrightarrow> 0 \<le> l \<and> l < int n \<and> 1 \<le> i"
  "rpc_ok n (PrepareReqRequest f) \<longleftrightarrow> 0 \<le> f \<and> f < int n"
  "rpc_ok n (ReconnectedRequest f) \<longleftrightarrow> 0 \<le> f \<and> f < int n"
  "rpc_ok n (HBRequest f r) \<longleftrightarrow> 0 \<le> f \<and> f < int n"
  "rpc_ok n (HBResponse f r h) \<longleftrightarrow> 0 \<le> f \<and> f < int n"
  by (simp_all add: rpc_ok_def)

lemma stored_persist [simp]: "stored (persist op) = op_os op"
  by (simp add: stored_def persist_def decode_encode_state)

lemma durable_persist [simp]: "durable (persist op)"
  by (simp add: durable_def) (simp add: persist_def)

lemma persist_frame [simp]:
  "op_os (persist op) = op_os op" "op_state (persist op) = op_state op" "op_me (persist op) = op_me op"
  "op_peers (persist op) = op_peers op" "op_currentRnd (persist op) = op_currentRnd op"
  "op_promises (persist op) = op_promises op" "op_maxProm (persist op) = op_maxProm op"
  "op_accepted (persist op) = op_accepted op" "op_buffer (persist op) = op_buffer op"
  "op_applyCh (persist op) = op_applyCh op" "op_ballots (persist op) = op_ballots op"
  "op_b (persist op) = op_b op" "op_qc (persist op) = op_qc op" "op_r (persist op) = op_r op"
  "op_missedHbCounts (persist op) = op_missedHbCounts op" "op_linkDrop (persist op) = op_linkDrop op"
  "op_restart_loop (persist op) = op_restart_loop op"
  by (simp_all add: persist_def)

lemma send_to_Inr [simp]:
  "send_to op ms = Inr (op', ms') \<longleftrightarrow>
     op' = op \<and> ms' = ms \<and> (\<forall>(d, m) \<in> set ms. 0 \<le> d \<and> d < int (op_peers op))"
  by (auto simp: send_to_def list_all_iff)

lemma addToApplyChan_Inr:
  "addToApplyChan op lg from to = Inr op' \<longleftrightarrow>
     (from < to \<longrightarrow> 0 \<le> from \<and> to \<le> int (length lg))
     \<and> op' = op\<lparr>op_applyCh := op_applyCh op @
          map (\<lambda>i. \<lparr>CommandValid = True, Command = lg ! nat i, CommandIndex = i\<rparr>) [from..to - 1]\<rparr>"
  (is "?L \<longleftrightarrow> ?R")
proof -
  let ?f = "\<lambda>i. res_bind (go_index lg i) (\<lambda>c. Inr \<lparr>CommandValid = True, Command = c, CommandIndex = i\<rparr>)"
  let ?g = "\<lambda>i. \<lparr>CommandValid = True, Command = lg ! nat i, CommandIndex = i\<rparr>"
  have nth: "[from..to - 1] ! k = from + int k" if "k < nat (to - from)" for k
    using that by (simp add: nth_upto)
  have rng: "(\<forall>k < nat (to - from). 0 \<le> from + int k \<and> from + int k < int (length lg))
      \<longleftrightarrow> (from < to \<longrightarrow> 0 \<le> from \<and> to \<le> int (length lg))"
  proof (cases "from < to")
    case True
    show ?thesis
    proof
      assume a: "\<forall>k < nat (to - from). 0 \<le> from + int k \<and> from + int k < int (length lg)"
      from True have "0 < nat (to - from)" "nat (to - from) - 1 < nat (to - from)" by auto
      with a have "0 \<le> from + int 0" "from + int (nat (to - from) - 1) < int (length lg)" by blast+
      with True show "from < to \<longrightarrow> 0 \<le> from \<and> to \<le> int (length lg)" by auto
    qed auto
  qed auto
  have "go_mapM ?f [from..to - 1] = Inr ms \<longleftrightarrow>
      (from < to \<longrightarrow> 0 \<le> from \<and> to \<le> int (length lg)) \<and> ms = map ?g [from..to - 1]" for ms
    unfolding go_mapM_Inr_iff rng [symmetric]
    by (auto simp: nth go_index_Inr list_eq_iff_nth_eq)
  then show ?thesis by (auto simp: addToApplyChan_def)
qed

lemma op_suffix_Inr:
  "op_suffix op i = Inr xs \<longleftrightarrow>
     (if i > int (length (oplog op)) then xs = [] else 0 \<le> i \<and> xs = drop (nat i) (oplog op))"
  by (auto simp: op_suffix_def go_from_Inr)

lemma op_suffix_nonneg: "0 \<le> i \<Longrightarrow> op_suffix op i = Inr (drop (nat i) (oplog op))"
  by (auto simp: op_suffix_Inr)

lemma op_prefix_Inr:
  "op_prefix op i = Inr xs \<longleftrightarrow> 0 \<le> i \<and> xs = take (nat i) (oplog op)"
  by (auto simp: op_prefix_def go_upto_Inr)

lemma op_prefix_nonneg: "0 \<le> i \<Longrightarrow> op_prefix op i = Inr (take (nat i) (oplog op))"
  by (simp add: op_prefix_Inr)


definition adoptedLog :: "'c OmniPaxos \<Rightarrow> 'c Promise \<Rightarrow> 'c list" where
  "adoptedLog op mx =
     ((if p_accRnd mx \<noteq> acceptedRnd op then take (nat (decidedIdx op)) (oplog op) else oplog op)
      @ p_log mx) @ op_buffer op"

lemma adoptPromise_Inr:
  "adoptPromise op mx = Inr op' \<longleftrightarrow>
     (p_accRnd mx \<noteq> acceptedRnd op \<longrightarrow> 0 \<le> decidedIdx op)
     \<and> 0 \<le> op_me op \<and> op_me op < int (length (op_accepted op))
     \<and> op' = op\<lparr>op_maxProm := Some mx,
               op_os := (op_os op)\<lparr>os_Log := adoptedLog op mx, os_AcceptedRnd := op_currentRnd op\<rparr>,
               op_accepted := (op_accepted op)[nat (op_me op) := int (length (adoptedLog op mx))],
               op_state := \<lparr>role = LEADER, phase = ACCEPT\<rparr>\<rparr>"
proof (cases "p_accRnd mx = acceptedRnd op")
  case True
  then show ?thesis
    by (auto simp: adoptPromise_def stopped_def Let_def go_set_Inr adoptedLog_def
        simp del: append_assoc length_append)
next
  case False
  then show ?thesis
    by (auto simp: adoptPromise_def stopped_def Let_def go_set_Inr op_prefix_Inr adoptedLog_def
        simp del: append_assoc length_append)
qed

lemma maxPromise_induct:
  assumes "P (zero_promise\<lparr>p_accRnd := Ballot (-1) (-1)\<rparr>)" and "\<And>p. p \<in> set ps \<Longrightarrow> P p"
  shows "P (maxPromise ps)"
proof -
  have fold: "P (fold (\<lambda>p mx. if c p mx then p else mx) ps a)" if "P a" for c a
    using that assms(2) by (induction ps arbitrary: a) auto
  show ?thesis
    unfolding maxPromise_def by (rule fold) (rule assms(1))
qed

lemma maxPromise_nonneg:
  "(\<And>p. p \<in> set ps \<Longrightarrow> 0 \<le> p_logIdx p) \<Longrightarrow> 0 \<le> p_logIdx (maxPromise ps)"
  by (rule maxPromise_induct) (auto simp: zero_promise_def)

lemma promises_ok_simps [simp]:
  "promises_ok n []"
  "promises_ok n m \<Longrightarrow> promise_ok n (k, p) \<Longrightarrow> promises_ok n (mput k p m)"
  by (auto simp: promises_ok_def dest!: set_mput_subset)

lemma ballots_ok_simps [simp]:
  "ballots_ok n []"
  "ballots_ok n m \<Longrightarrow> 0 \<le> ballot_Pid b \<Longrightarrow> ballot_Pid b < int n \<Longrightarrow> ballots_ok n (mput b q m)"
  by (simp_all add: ballots_ok_def)

lemma promise_ok_vals:
  assumes "promises_ok n m" and "p \<in> snd ` set m"
  shows "0 \<le> p_f p" "p_f p < int n" "0 \<le> p_logIdx p" "0 \<le> p_decIdx p"
  using assms by (auto simp: promises_ok_def promise_ok_def)

lemma other_peers_range: "p \<in> set (other_peers op) \<Longrightarrow> 0 \<le> p \<and> p < int (op_peers op) \<and> p \<noteq> op_me op"
  by (auto simp: other_peers_def peer_ids_def)

lemma peer_ids_range: "p \<in> set (peer_ids op) \<longleftrightarrow> 0 \<le> p \<and> p < int (op_peers op)"
  by (auto simp: peer_ids_def image_iff) (metis nat_0_le nat_less_iff atLeastLessThan_iff zero_le)

lemma calls_ok_simps [simp]:
  "calls_ok n []"
  "calls_ok n ((d, m) # ms) \<longleftrightarrow> 0 \<le> d \<and> d < int n \<and> rpc_ok n m \<and> calls_ok n ms"
  "calls_ok n (ms @ ms') \<longleftrightarrow> calls_ok n ms \<and> calls_ok n ms'"
  by (auto simp: calls_ok_def)

lemma calls_ok_map:
  "(\<And>x. x \<in> set xs \<Longrightarrow> 0 \<le> g x \<and> g x < int n \<and> rpc_ok n (h x)) \<Longrightarrow>
     calls_ok n (map (\<lambda>x. (g x, h x)) xs)"
  by (auto simp: calls_ok_def list_all_iff)

subsection \<open>The identity of a server never changes\<close>

lemma addToApplyChan_frame:
  assumes "addToApplyChan op lg a b = Inr op'"
  shows "op_os op' = op_os op" "op_state op' = op_state op" "op_me op' = op_me op"
    "op_peers op' = op_peers op" "op_persister op' = op_persister op"
    "op_currentRnd op' = op_currentRnd op" "op_promises op' = op_promises op"
    "op_maxProm op' = op_maxProm op" "op_accepted op' = op_accepted op"
    "op_ballots op' = op_ballots op" "op_b op' = op_b op" "op_buffer op' = op_buffer op"
  using assms unfolding addToApplyChan_Inr by simp_all

text \<open>The state and the requests of a server that makes itself the leader of round \<open>n\<close>.\<close>

definition ownPromise :: "'c OmniPaxos \<Rightarrow> 'c Promise" where
  "ownPromise op = \<lparr>p_f = op_me op, p_accRnd = acceptedRnd op, p_logIdx = int (length (oplog op)),
                    p_decIdx = decidedIdx op, p_log = drop (nat (decidedIdx op)) (oplog op)\<rparr>"

definition newLeader :: "'c OmniPaxos \<Rightarrow> Ballot \<Rightarrow> 'c OmniPaxos" where
  "newLeader op n = persist (op\<lparr>op_accepted := replicate (length (op_accepted op)) 0,
      op_maxProm := Some zero_promise, op_buffer := [],
      op_qc := True, op_state := \<lparr>role = LEADER, phase = PREPARE\<rparr>, op_currentRnd := n,
      op_os := (op_os op)\<lparr>os_PromisedRnd := n\<rparr>, op_promises := [(op_me op, ownPromise op)]\<rparr>)"

definition prepareCalls :: "'c OmniPaxos \<Rightarrow> Ballot \<Rightarrow> 'c calls" where
  "prepareCalls op n = map (\<lambda>peer. (peer, PrepareRequest (op_me op) n (acceptedRnd op)
      (int (length (oplog op))) (decidedIdx op))) (other_peers op)"

lemma triggerLeader_eq:
  assumes "0 \<le> decidedIdx op"
  shows "triggerLeader op s n =
    (if s = op_me op \<and> promised op < n then Inr (newLeader op n, prepareCalls op n)
     else Inr (op\<lparr>op_state := (op_state op)\<lparr>role := FOLLOWER\<rparr>\<rparr>, []))"
  using assms
  by (auto simp: triggerLeader_def Let_def op_suffix_nonneg newLeader_def prepareCalls_def
      ownPromise_def other_peers_def peer_ids_def)

lemma newLeader_simps [simp]:
  "op_os (newLeader op n) = (op_os op)\<lparr>os_PromisedRnd := n\<rparr>"
  "op_state (newLeader op n) = \<lparr>role = LEADER, phase = PREPARE\<rparr>"
  "op_me (newLeader op n) = op_me op" "op_peers (newLeader op n) = op_peers op"
  "op_currentRnd (newLeader op n) = n" "op_promises (newLeader op n) = [(op_me op, ownPromise op)]"
  "op_maxProm (newLeader op n) = Some zero_promise" "op_buffer (newLeader op n) = []"
  "op_accepted (newLeader op n) = replicate (length (op_accepted op)) 0"
  "op_applyCh (newLeader op n) = op_applyCh op" "op_ballots (newLeader op n) = op_ballots op"
  "op_b (newLeader op n) = op_b op" "durable (newLeader op n)"
  by (simp_all add: newLeader_def)

lemma prepareCalls_ok:
  "0 \<le> op_me op \<Longrightarrow> op_me op < int (op_peers op) \<Longrightarrow> 0 \<le> decidedIdx op \<Longrightarrow>
     calls_ok (op_peers op) (prepareCalls op n)"
  unfolding prepareCalls_def by (rule calls_ok_map) (auto dest: other_peers_range)

lemma prepareCalls_mem:
  "(d, m) \<in> set (prepareCalls op n) \<Longrightarrow>
     m = PrepareRequest (op_me op) n (acceptedRnd op) (int (length (oplog op))) (decidedIdx op)"
  by (auto simp: prepareCalls_def)

lemma updateMissed_Inr:
  assumes "updateMissedHbsAndReconnect op = Inr (op', ms)"
  obtains missed am ms1 m d where
    "missedLoop (op_me op) (ballot_Pid (os_L (op_os op))) (map fst (op_ballots op))
       (op_missedHbCounts op) (other_peers op) [] = (missed, am, ms1)"
    "ms = ms1 @ (if op_restart_loop op = 1
                 then map (\<lambda>p. (p, PrepareReqRequest (op_me op))) (peer_ids op) else [])"
    "op' = op\<lparr>op_missedHbCounts := m, op_linkDrop := d, op_restart_loop := op_restart_loop op + 1\<rparr>"
proof -
  obtain missed am ms1 where
    "missedLoop (op_me op) (ballot_Pid (os_L (op_os op))) (map fst (op_ballots op))
       (op_missedHbCounts op) (other_peers op) ([] :: 'a calls) = (missed, am, ms1)"
    using prod_cases3 by blast
  with assms show ?thesis
    by (intro that [of missed am ms1]) (simp_all add: updateMissedHbsAndReconnect_def Let_def)
qed

lemma startTimer_Inr:
  assumes "startTimer op = Inr (op', ms)"
  obtains op1 op2 ms2 op3 ms3 where
    "op1 = op\<lparr>op_ballots := mput (op_b op) (op_qc op) (op_ballots op)\<rparr>"
    "(if majority (op_peers op1) \<le> length (op_ballots op1) then checkLeader op1
      else Inr (op1\<lparr>op_qc := False\<rparr>, [])) = Inr (op2, ms2)"
    "updateMissedHbsAndReconnect op2 = Inr (op3, ms3)"
    "op' = op3\<lparr>op_ballots := [], op_r := op_r op3 + 1\<rparr>"
    "ms = ms2 @ ms3 @ map (\<lambda>p. (p, HBRequest (op_me op') (op_r op'))) (other_peers op')"
proof -
  let ?op1 = "op\<lparr>op_ballots := mput (op_b op) (op_qc op) (op_ballots op)\<rparr>"
  from assms obtain op2 ms2 where
    2: "(if majority (op_peers ?op1) \<le> length (op_ballots ?op1) then checkLeader ?op1
         else Inr (?op1\<lparr>op_qc := False\<rparr>, [])) = Inr (op2, ms2)" and
    3: "res_bind (updateMissedHbsAndReconnect op2) (\<lambda>(op3, ms3).
          let op4 = op3\<lparr>op_ballots := [], op_r := op_r op3 + 1\<rparr>
          in Inr (op4, ms2 @ ms3 @ map (\<lambda>p. (p, HBRequest (op_me op4) (op_r op4))) (other_peers op4)))
        = Inr (op', ms)"
    unfolding startTimer_def Let_def res_bind_eq_Inr by (elim exE conjE) (simp split: prod.splits)
  from 3 obtain op3 ms3 where "updateMissedHbsAndReconnect op2 = Inr (op3, ms3)"
    "op' = op3\<lparr>op_ballots := [], op_r := op_r op3 + 1\<rparr>"
    "ms = ms2 @ ms3 @ map (\<lambda>p. (p, HBRequest (op_me op') (op_r op'))) (other_peers op')"
    unfolding Let_def res_bind_eq_Inr by (elim exE conjE) (auto split: prod.splits)
  with 2 show ?thesis by (intro that [OF refl])
qed

subsection \<open>Ranges: every operation keeps \<open>server_ok\<close> and sends well-formed requests\<close>

definition sound_result :: "'c OmniPaxos \<Rightarrow> 'c OmniPaxos \<Rightarrow> 'c calls \<Rightarrow> bool" where
  "sound_result op op' ms \<longleftrightarrow> server_ok op' \<and> calls_ok (op_peers op) ms
     \<and> op_peers op' = op_peers op \<and> op_me op' = op_me op"

lemma server_ok_persist [simp]: "server_ok (persist op) = server_ok op"
  by (simp add: server_ok_def)

lemma server_ok_role: "server_ok op \<Longrightarrow> server_ok (op\<lparr>op_state := (op_state op)\<lparr>role := FOLLOWER\<rparr>\<rparr>)"
  by (simp add: server_ok_def)

lemma server_ok_newLeader: "server_ok op \<Longrightarrow> server_ok (newLeader op n)"
  by (simp add: server_ok_def promises_ok_def promise_ok_def ownPromise_def zero_promise_def)

lemma triggerLeader_ok:
  assumes "server_ok op" and "triggerLeader op s n = Inr (op', ms)"
  shows "sound_result op op' ms"
proof -
  have "0 \<le> decidedIdx op" "0 \<le> op_me op" "op_me op < int (op_peers op)"
    using assms(1) by (simp_all add: server_ok_def)
  with assms show ?thesis
    by (auto simp: triggerLeader_eq sound_result_def server_ok_role server_ok_newLeader prepareCalls_ok
        split: if_splits)
qed

lemma checkLeader_ok:
  assumes "server_ok op" and "checkLeader op = Inr (op', ms)"
  shows "sound_result op op' ms"
proof -
  have "server_ok (op\<lparr>op_b := increment (op_b op) i, op_qc := True\<rparr>)"
    and *: "server_ok (persist (op\<lparr>op_os := (op_os op)\<lparr>os_L := l\<rparr>\<rparr>))" for i l
    using assms(1) by (simp_all add: server_ok_def increment_def)
  with assms show ?thesis
    using triggerLeader_ok [OF *]
    by (auto simp: checkLeader_def Let_def sound_result_def split: if_splits)
qed

lemma missedLoop_mem:
  assumes "missedLoop me l bs missed am ms = (missed', am', ms')" and "(d, m) \<in> set ms'"
  shows "(d, m) \<in> set ms \<or> d \<in> ballot_Pid ` set bs \<and> m = ReconnectedRequest me"
  using assms
proof (induction me l bs missed am ms rule: missedLoop.induct)
  case (1 me l missed am ms)
  then show ?case by simp
next
  case (2 me l b bs missed am ms)
  show ?case
  proof (cases "ballot_Pid b = me")
    case True
    with 2 show ?thesis by auto
  next
    case False
    then show ?thesis
      using "2.IH"(2) [OF False refl refl] "2.prems" by (auto simp: Let_def split: if_splits)
  qed
qed

lemma updateMissed_ok:
  assumes "server_ok op" and "updateMissedHbsAndReconnect op = Inr (op', ms)"
  shows "sound_result op op' ms"
  using assms(2)
proof (rule updateMissed_Inr)
  fix missed am ms1 m d
  assume loop: "missedLoop (op_me op) (ballot_Pid (os_L (op_os op))) (map fst (op_ballots op))
      (op_missedHbCounts op) (other_peers op) [] = (missed, am, ms1)"
    and ms: "ms = ms1 @ (if op_restart_loop op = 1
      then map (\<lambda>p. (p, PrepareReqRequest (op_me op))) (peer_ids op) else [])"
    and op': "op' = op\<lparr>op_missedHbCounts := m, op_linkDrop := d, op_restart_loop := op_restart_loop op + 1\<rparr>"
  have "calls_ok (op_peers op) ms1"
    using assms(1) by (auto simp: calls_ok_def list_all_iff server_ok_def ballots_ok_def dest!: missedLoop_mem [OF loop])
  moreover have "calls_ok (op_peers op)
      (map (\<lambda>p. (p, PrepareReqRequest (op_me op) :: 'a rpc)) (peer_ids op))"
    by (rule calls_ok_map) (use assms(1) in \<open>auto simp: server_ok_def peer_ids_range\<close>)
  ultimately show ?thesis
    using assms(1) op' by (simp add: ms sound_result_def server_ok_def)
qed

lemma startTimer_ok:
  assumes "server_ok op" and "startTimer op = Inr (op', ms)"
  shows "sound_result op op' ms"
  using assms(2)
proof (rule startTimer_Inr)
  fix op1 op2 ms2 op3 ms3
  assume 1: "op1 = op\<lparr>op_ballots := mput (op_b op) (op_qc op) (op_ballots op)\<rparr>"
    and 2: "(if majority (op_peers op1) \<le> length (op_ballots op1) then checkLeader op1
             else Inr (op1\<lparr>op_qc := False\<rparr>, [])) = Inr (op2, ms2)"
    and 3: "updateMissedHbsAndReconnect op2 = Inr (op3, ms3)"
    and 4: "op' = op3\<lparr>op_ballots := [], op_r := op_r op3 + 1\<rparr>"
      "ms = ms2 @ ms3 @ map (\<lambda>p. (p, HBRequest (op_me op') (op_r op'))) (other_peers op')"
  have ok1: "server_ok op1" "server_ok (op1\<lparr>op_qc := False\<rparr>)"
    using assms(1) 1 by (simp_all add: server_ok_def)
  then have s2: "sound_result op1 op2 ms2"
    using 2 checkLeader_ok [of op1 op2 ms2] by (auto simp: sound_result_def split: if_splits)
  then have s3: "sound_result op2 op3 ms3"
    using 3 updateMissed_ok [of op2] by (simp add: sound_result_def)
  have "calls_ok (op_peers op') (map (\<lambda>p. (p, HBRequest (op_me op') (op_r op') :: 'a rpc)) (other_peers op'))"
    by (rule calls_ok_map) (use s3 4(1) in \<open>auto simp: sound_result_def server_ok_def dest: other_peers_range\<close>)
  moreover from s3 have "server_ok op3" by (simp add: sound_result_def)
  then have "server_ok op'" by (simp add: 4(1) server_ok_def)
  ultimately show ?thesis
    using s2 s3 1 4 by (simp add: sound_result_def)
qed

lemma promise_vals_mem: "p \<in> set (map snd m) \<Longrightarrow> p \<in> snd ` set m"
  by simp

lemma Proposal_ok:
  assumes "server_ok op" and "Proposal op c = Inr ((op', ms), r)"
  shows "sound_result op op' ms"
  using assms
  by (auto simp: Proposal_def Let_def sound_result_def server_ok_def go_set_Inr stopped_def
      intro!: calls_ok_map split: if_splits dest: promise_ok_vals)

lemma syncTo_ok:
  assumes "syncTo op n mx p = Inr (d, m)" and "0 \<le> op_me op" "op_me op < int k"
    and "0 \<le> p_logIdx p" "0 \<le> p_decIdx p"
  shows "d = p_f p \<and> rpc_ok k m"
  using assms by (auto simp: syncTo_def Let_def)

lemma sync_calls_ok:
  assumes "go_mapM (syncTo op n mx) (map snd prs) = Inr ms"
    and "server_ok op" and "promises_ok (op_peers op) prs"
  shows "calls_ok (op_peers op) ms"
  unfolding calls_ok_def list_all_iff
proof clarify
  fix d m
  assume "(d, m) \<in> set ms"
  with assms(1) obtain p where p: "p \<in> snd ` set prs" "syncTo op n mx p = Inr (d, m)"
    by (auto elim!: go_mapM_Inr_mem)
  note v = promise_ok_vals [OF assms(3) p(1)]
  have "d = p_f p \<and> rpc_ok (op_peers op) m"
    by (rule syncTo_ok [OF p(2)]) (use assms(2) v in \<open>auto simp: server_ok_def\<close>)
  with v show "0 \<le> d \<and> d < int (op_peers op) \<and> rpc_ok (op_peers op) m" by simp
qed

definition storePromise ::
  "'c OmniPaxos \<Rightarrow> int \<Rightarrow> Ballot \<Rightarrow> int \<Rightarrow> int \<Rightarrow> 'c list \<Rightarrow> 'c OmniPaxos" where
  "storePromise op f a i d s = op\<lparr>op_promises :=
     mput f \<lparr>p_f = f, p_accRnd = a, p_logIdx = i, p_decIdx = d, p_log = s\<rparr> (op_promises op)\<rparr>"

lemma storePromise_simps [simp]:
  "op_os (storePromise op f a i d s) = op_os op" "op_state (storePromise op f a i d s) = op_state op"
  "op_me (storePromise op f a i d s) = op_me op" "op_peers (storePromise op f a i d s) = op_peers op"
  "op_currentRnd (storePromise op f a i d s) = op_currentRnd op"
  "op_maxProm (storePromise op f a i d s) = op_maxProm op"
  "op_accepted (storePromise op f a i d s) = op_accepted op"
  "op_buffer (storePromise op f a i d s) = op_buffer op"
  "op_applyCh (storePromise op f a i d s) = op_applyCh op"
  "op_persister (storePromise op f a i d s) = op_persister op"
  "op_ballots (storePromise op f a i d s) = op_ballots op" "op_b (storePromise op f a i d s) = op_b op"
  by (simp_all add: storePromise_def)

lemma PromiseHandler_Inr:
  assumes "PromiseHandler rng op f n a i d s = Inr (op', ms)"
  obtains
    (stale) "n \<noteq> op_currentRnd op" "op' = op" "ms = []"
  | (store) "n = op_currentRnd op" "op' = storePromise op f a i d s" "ms = []"
  | (sync) op1 mx op2 where "n = op_currentRnd op" "in_state op LEADER PREPARE"
      "op1 = storePromise op f a i d s" "majority (op_peers op) \<le> length (op_promises op1)"
      "mx = maxPromise (rng (map snd (op_promises op1)))" "adoptPromise op1 mx = Inr op2"
      "go_mapM (syncTo op2 n mx) (map snd (op_promises op2)) = Inr ms" "op' = persist op2"
  | (late) op1 mx syncIdx sfx where "n = op_currentRnd op" "in_state op LEADER ACCEPT"
      "op1 = storePromise op f a i d s" "op_maxProm op = Some mx"
      "syncIdx = (if a = p_accRnd mx then p_logIdx mx else d)" "op_suffix op1 syncIdx = Inr sfx"
      "op' = persist op1"
      "ms = [(f, AcceptSyncRequest (op_me op) n sfx syncIdx)]
            @ (if decidedIdx op > d then [(f, DecideRequest (op_me op) n (decidedIdx op))] else [])"
  | (other) "n = op_currentRnd op" "in_state op LEADER RECOVER"
      "op' = persist (storePromise op f a i d s)" "ms = []"
proof (cases "n = op_currentRnd op")
  case False
  then have "op' = op" "ms = []"
    using assms by (simp_all add: PromiseHandler_def)
  with False show ?thesis by (rule stale)
next
  case True
  let ?op1 = "storePromise op f a i d s"
  note h = assms [unfolded PromiseHandler_def Let_def, folded storePromise_def]
  show ?thesis
  proof (cases "leads op")
    case False
    with h True store show ?thesis by simp
  next
    case lead: True
    show ?thesis
    proof (cases "phase (op_state op)")
      case PREPARE
      show ?thesis
      proof (cases "length (op_promises ?op1) < majority (op_peers op)")
        case True
        with h \<open>n = op_currentRnd op\<close> lead PREPARE store show ?thesis by simp
      next
        case False
        let ?mx = "maxPromise (rng (map snd (op_promises ?op1)))"
        from False h True lead PREPARE obtain op2 where "adoptPromise ?op1 ?mx = Inr op2"
          "go_mapM (syncTo op2 n ?mx) (map snd (op_promises op2)) = Inr ms" "op' = persist op2"
          by (simp del: map_map) blast
        moreover have "in_state op LEADER PREPARE" "majority (op_peers op) \<le> length (op_promises ?op1)"
          using lead PREPARE False by simp_all
        ultimately show ?thesis using True sync [OF _ _ refl _ refl] by blast
      qed
    next
      case ACCEPT
      then obtain mx sfx where 1: "op_maxProm op = Some mx"
        "op_suffix ?op1 (if a = p_accRnd mx then p_logIdx mx else d) = Inr sfx"
        using h True lead by (cases "op_maxProm op") auto
      then show ?thesis
        using h True lead ACCEPT late [OF _ _ refl 1(1) refl 1(2)] by simp
    next
      case RECOVER
      with h True lead other show ?thesis by simp
    qed
  qed
qed

lemma server_ok_storePromise:
  "server_ok op \<Longrightarrow> 0 \<le> f \<Longrightarrow> f < int (op_peers op) \<Longrightarrow> 0 \<le> i \<Longrightarrow> 0 \<le> d
     \<Longrightarrow> server_ok (storePromise op f a i d s)"
  by (simp add: server_ok_def) (simp add: storePromise_def promise_ok_def)

lemma adoptPromise_ok:
  assumes "server_ok op" and "adoptPromise op mx = Inr op'" and "0 \<le> p_logIdx mx"
  shows "server_ok op' \<and> op_peers op' = op_peers op \<and> op_me op' = op_me op
    \<and> op_promises op' = op_promises op"
  using assms by (auto simp: adoptPromise_Inr server_ok_def)

lemma maxPromise_range:
  assumes "server_ok op" and "range_order rng"
  shows "0 \<le> p_logIdx (maxPromise (rng (map snd (op_promises op))))"
  by (rule maxPromise_nonneg) (use assms in \<open>auto simp: server_ok_def dest: promise_ok_vals\<close>)

lemma PromiseHandler_ok:
  assumes ok: "server_ok op" and rng: "range_order rng"
    and req: "rpc_ok (op_peers op) (PromiseRequest f n a i d s)"
    and res: "PromiseHandler rng op f n a i d s = Inr (op', ms)"
  shows "sound_result op op' ms"
proof -
  have ok1: "server_ok (storePromise op f a i d s)"
    using ok req by (simp add: server_ok_storePromise)
  from res show ?thesis
  proof (cases rule: PromiseHandler_Inr)
    case (sync op1 mx op2)
    have *: "server_ok op2 \<and> op_peers op2 = op_peers op1 \<and> op_me op2 = op_me op1
        \<and> op_promises op2 = op_promises op1"
      by (rule adoptPromise_ok [OF _ sync(6)]) (use sync ok1 rng maxPromise_range in auto)
    then have "calls_ok (op_peers op2) ms"
      using sync_calls_ok [OF sync(7)] by (auto simp: server_ok_def)
    with * sync show ?thesis by (simp add: sound_result_def)
  next
    case (late op1 mx syncIdx sfx)
    then show ?thesis using ok ok1 req by (auto simp: sound_result_def server_ok_def)
  qed (use ok ok1 in \<open>auto simp: sound_result_def\<close>)
qed

lemma AcceptedHandler_Inr:
  assumes "AcceptedHandler op f n i = Inr (op', ms)"
  obtains
    (ignored) "op' = op" "ms = []"
  | (count) acc where "promised op = n" "in_state op LEADER ACCEPT" "0 \<le> f" "f < int (length (op_accepted op))"
      "acc = (op_accepted op)[nat f := i]" "op' = op\<lparr>op_accepted := acc\<rparr>" "ms = []"
  | (decide) acc where "promised op = n" "in_state op LEADER ACCEPT" "0 \<le> f" "f < int (length (op_accepted op))"
      "acc = (op_accepted op)[nat f := i]" "decidedIdx op < i"
      "hasMajorityAccepted (op\<lparr>op_accepted := acc\<rparr>) i" "0 \<le> decidedIdx op" "i \<le> int (length (oplog op))"
      "op' = persist (op\<lparr>op_accepted := acc, op_applyCh := op_applyCh op @
          map (\<lambda>i. \<lparr>CommandValid = True, Command = oplog op ! nat i, CommandIndex = i\<rparr>)
            [decidedIdx op..i - 1], op_os := (op_os op)\<lparr>os_DecidedIdx := i\<rparr>\<rparr>)"
      "ms = map (\<lambda>p. (p_f p, DecideRequest (op_me op) (op_currentRnd op) i)) (map snd (op_promises op))"
proof (cases "promised op = n \<and> in_state op LEADER ACCEPT")
  case False
  with assms ignored show ?thesis by (simp add: AcceptedHandler_def split: if_splits)
next
  case True
  let ?acc = "(op_accepted op)[nat f := i]"
  have f: "0 \<le> f" "f < int (length (op_accepted op))"
    using assms True by (auto simp: AcceptedHandler_def go_set_Inr)
  note h = assms [unfolded AcceptedHandler_def Let_def] and g = True f
  show ?thesis
  proof (cases "decidedIdx op < i \<and> hasMajorityAccepted (op\<lparr>op_accepted := ?acc\<rparr>) i")
    case False
    with h g have "op' = op\<lparr>op_accepted := ?acc\<rparr>" "ms = []"
      by (auto simp: go_set_def)
    with g count show ?thesis by blast
  next
    case True
    with h g show ?thesis
      by (intro decide [OF _ _ _ _ refl]) (simp_all add: go_set_def addToApplyChan_Inr del: map_map)
  qed
qed

lemma decide_calls_ok:
  assumes "server_ok op" and "0 \<le> i"
  shows "calls_ok (op_peers op)
    (map (\<lambda>p. (p_f p, DecideRequest (op_me op) b i :: 'c rpc)) (map snd (op_promises op)))"
  by (rule calls_ok_map) (use assms in \<open>auto simp: server_ok_def dest: promise_ok_vals\<close>)

lemma handle_ok:
  assumes "server_ok op" and "range_order rng" and "rpc_ok (op_peers op) m"
    and "handle rng op m = Inr (op', ms)"
  shows "sound_result op op' ms"
proof (cases m)
  case (PromiseRequest f n a i d s)
  with assms show ?thesis by (auto intro: PromiseHandler_ok)
next
  case (AcceptedRequest f n i)
  with assms show ?thesis
    by (auto elim!: AcceptedHandler_Inr simp: sound_result_def decide_calls_ok simp del: map_map)
       (auto simp: server_ok_def)
qed (use assms in \<open>auto simp: handler_defs Let_def sound_result_def server_ok_def addToApplyChan_Inr
        split: if_splits\<close>)

lemma op_step_ok: "op_step op op' ms \<Longrightarrow> server_ok op \<Longrightarrow> sound_result op op' ms"
  by (induction rule: op_step.induct) (auto intro: handle_ok startTimer_ok Proposal_ok)

subsection \<open>Rounds, durability and the apply channel\<close>

definition advances :: "'c OmniPaxos \<Rightarrow> 'c OmniPaxos \<Rightarrow> bool" where
  "advances op op' \<longleftrightarrow> promised op \<le> promised op' \<and> acceptedRnd op \<le> acceptedRnd op'
     \<and> decidedIdx op \<le> decidedIdx op' \<and> os_L (op_os op) \<le> os_L (op_os op')"

definition server_inv :: "'c OmniPaxos \<Rightarrow> bool" where
  "server_inv op \<longleftrightarrow> server_ok op \<and> rounds_ok op \<and> durable op \<and> applied_ok op"

lemma server_inv_ok: "server_inv op \<Longrightarrow> server_ok op"
  by (simp add: server_inv_def)

lemma rounds_ok_persist [simp]: "rounds_ok (persist op) = rounds_ok op"
  and applied_ok_persist [simp]: "applied_ok (persist op) = applied_ok op"
  and advances_persist [simp]: "advances op (persist op') = advances op op'"
  and advances_persist_left [simp]: "advances (persist op) op' = advances op op'"
  by (simp_all add: rounds_ok_def applied_ok_def advances_def)

lemma advances_refl [simp]: "advances op op"
  by (simp add: advances_def)

lemma advances_trans: "advances a b \<Longrightarrow> advances b c \<Longrightarrow> advances a c"
  by (auto simp: advances_def)

lemma durable_volatile [simp]:
  "durable (op\<lparr>op_state := st\<rparr>) = durable op" "durable (op\<lparr>op_buffer := bf\<rparr>) = durable op"
  "durable (op\<lparr>op_ballots := bs\<rparr>) = durable op" "durable (op\<lparr>op_qc := q\<rparr>) = durable op"
  by (simp_all add: durable_def stored_def)

lemma inv_frame:
  assumes "op_os op' = op_os op" "op_persister op' = op_persister op" "op_applyCh op' = op_applyCh op"
    and "rounds_ok op'" and "durable op" "applied_ok op"
  shows "rounds_ok op' \<and> durable op' \<and> applied_ok op' \<and> advances op op'"
  using assms by (simp add: durable_def stored_def applied_ok_def advances_def)

text \<open>The three invariants together with progress, as every operation establishes them.\<close>

definition keeps :: "'c OmniPaxos \<Rightarrow> 'c OmniPaxos \<Rightarrow> bool" where
  "keeps op op' \<longleftrightarrow> rounds_ok op' \<and> durable op' \<and> applied_ok op' \<and> advances op op'"

lemma keeps_refl: "server_inv op \<Longrightarrow> keeps op op"
  by (simp add: keeps_def server_inv_def)

lemma keeps_role:
  assumes "server_inv op"
  shows "keeps op (op\<lparr>op_state := (op_state op)\<lparr>role := FOLLOWER\<rparr>\<rparr>)"
  unfolding keeps_def by (rule inv_frame) (use assms in \<open>auto simp: server_inv_def rounds_ok_def\<close>)

lemma keeps_newLeader:
  assumes "server_inv op" and "promised op < n" and "ballot_Pid n = op_me op"
  shows "keeps op (newLeader op n)"
  using assms by (auto simp: keeps_def rounds_ok_def server_inv_def applied_ok_def advances_def)

lemma server_inv_newL:
  assumes "server_inv op" and "os_L (op_os op) \<le> l"
  defines "op1 \<equiv> persist (op\<lparr>op_os := (op_os op)\<lparr>os_L := l\<rparr>\<rparr>)"
  shows "server_inv op1" "keeps op op1"
  using assms
  by (simp_all add: server_inv_def server_ok_def rounds_ok_def applied_ok_def keeps_def advances_def)

lemma keeps_trans: "keeps a b \<Longrightarrow> keeps b c \<Longrightarrow> keeps a c"
  by (auto simp: keeps_def intro: advances_trans)

lemma server_invI: "sound_result op op' ms \<Longrightarrow> keeps op op' \<Longrightarrow> server_inv op'"
  by (simp add: sound_result_def keeps_def server_inv_def)

lemma checkLeader_keeps:
  assumes inv: "server_inv op" and res: "checkLeader op = Inr (op', ms)"
  shows "keeps op op'"
proof -
  let ?mx = "max_ballot (filter snd (op_ballots op))" and ?l = "os_L (op_os op)"
  consider "?mx < ?l" | "?mx = ?l" | "?l < ?mx" by fastforce
  then show ?thesis
  proof cases
    case 1
    then have "op' = op\<lparr>op_b := increment (op_b op) (ballot_N ?l), op_qc := True\<rparr>"
      using res by (simp add: checkLeader_def Let_def)
    then show ?thesis
      unfolding keeps_def by (intro inv_frame) (use inv in \<open>auto simp: server_inv_def rounds_ok_def\<close>)
  next
    case 2
    then show ?thesis using res inv by (simp add: checkLeader_def Let_def keeps_refl)
  next
    case 3
    let ?op1 = "persist (op\<lparr>op_os := (op_os op)\<lparr>os_L := ?mx\<rparr>\<rparr>)"
    from 3 have 1: "server_inv ?op1" "keeps op ?op1"
      using server_inv_newL [OF inv, of ?mx] by auto
    from 3 have "\<not> ?mx < ?l" by simp
    with 3 res have t: "triggerLeader ?op1 (ballot_Pid ?mx) ?mx = Inr (op', ms)"
      by (simp add: checkLeader_def Let_def)
    have "0 \<le> decidedIdx ?op1" using 1(1) by (simp add: server_inv_def server_ok_def)
    then have "keeps ?op1 op'"
      using t keeps_role [OF 1(1)] keeps_newLeader [OF 1(1)] by (auto simp: triggerLeader_eq split: if_splits)
    then show ?thesis using 1(2) by (blast intro: keeps_trans)
  qed
qed

lemma startTimer_keeps:
  assumes inv: "server_inv op" and res: "startTimer op = Inr (op', ms)"
  shows "keeps op op'"
  using res
proof (rule startTimer_Inr)
  fix op1 op2 ms2 op3 ms3
  assume 1: "op1 = op\<lparr>op_ballots := mput (op_b op) (op_qc op) (op_ballots op)\<rparr>"
    and 2: "(if majority (op_peers op1) \<le> length (op_ballots op1) then checkLeader op1
             else Inr (op1\<lparr>op_qc := False\<rparr>, [])) = Inr (op2, ms2)"
    and 3: "updateMissedHbsAndReconnect op2 = Inr (op3, ms3)"
    and 4: "op' = op3\<lparr>op_ballots := [], op_r := op_r op3 + 1\<rparr>"
  have inv1: "server_inv op1"
    using inv 1 by (simp add: server_inv_def server_ok_def rounds_ok_def applied_ok_def)
  have k1: "keeps op op1"
    unfolding keeps_def 1 by (rule inv_frame) (use inv in \<open>auto simp: server_inv_def rounds_ok_def\<close>)
  have k2: "keeps op1 op2"
  proof (cases "majority (op_peers op1) \<le> length (op_ballots op1)")
    case True
    with 2 checkLeader_keeps [OF inv1] show ?thesis by simp
  next
    case False
    with 2 have "op2 = op1\<lparr>op_qc := False\<rparr>" by simp
    then show ?thesis
      unfolding keeps_def by (intro inv_frame) (use inv1 in \<open>auto simp: server_inv_def rounds_ok_def\<close>)
  qed
  from 3 obtain m d l where "op3 = op2\<lparr>op_missedHbCounts := m, op_linkDrop := d, op_restart_loop := l\<rparr>"
    by (rule updateMissed_Inr)
  with 4 have 5: "op_os op' = op_os op2" "op_persister op' = op_persister op2"
    "op_applyCh op' = op_applyCh op2" "op_state op' = op_state op2"
    "op_currentRnd op' = op_currentRnd op2" "op_me op' = op_me op2"
    by simp_all
  have "keeps op2 op'"
    unfolding keeps_def by (rule inv_frame) (use 5 k2 in \<open>auto simp: keeps_def rounds_ok_def\<close>)
  with k1 k2 show ?thesis by (blast intro: keeps_trans)
qed

lemma Proposal_keeps:
  assumes "server_inv op" and "Proposal op c = Inr ((op', ms), r)"
  shows "keeps op op'"
  using assms
  by (auto simp: Proposal_def Let_def stopped_def keeps_def server_inv_def rounds_ok_def applied_ok_def
      advances_def split: if_splits)

lemma applied_extend:
  assumes "applied_ok op" and "0 \<le> decidedIdx op" and "decidedIdx op \<le> i"
    and "op_applyCh op' = op_applyCh op @
      map (\<lambda>i. \<lparr>CommandValid = True, Command = f i, CommandIndex = i\<rparr>) [decidedIdx op..i - 1]"
    and "decidedIdx op' = i"
  shows "applied_ok op'"
proof (cases "decidedIdx op < i")
  case True
  then have "[0..i - 1] = [0..decidedIdx op - 1] @ [decidedIdx op..i - 1]"
    using assms(2) by (intro upto_split1) auto
  then show ?thesis using assms by (auto simp: applied_ok_def o_def list_all_iff)
next
  case False
  then show ?thesis using assms by (simp add: applied_ok_def)
qed

lemma AcceptedHandler_keeps:
  assumes inv: "server_inv op" and res: "AcceptedHandler op f n i = Inr (op', ms)"
  shows "keeps op op'"
  using res
proof (cases rule: AcceptedHandler_Inr)
  case ignored
  then show ?thesis using inv by (simp add: keeps_refl)
next
  case (count acc)
  then show ?thesis
    unfolding keeps_def by (intro inv_frame) (use inv in \<open>auto simp: server_inv_def rounds_ok_def\<close>)
next
  case (decide acc)
  have "applied_ok op'"
    by (rule applied_extend [of op i _ "\<lambda>i. oplog op ! nat i"]) (use inv decide in \<open>auto simp: server_inv_def\<close>)
  with inv decide show ?thesis
    by (auto simp: keeps_def server_inv_def rounds_ok_def advances_def)
qed

lemma DecideHandler_Inr:
  assumes "DecideHandler op l n d = Inr (op', ms)"
  obtains (ignored) "op' = op" "ms = []"
  | (decide) "promised op = n" "in_state op FOLLOWER ACCEPT" "decidedIdx op < d" "0 \<le> decidedIdx op"
      "d \<le> int (length (oplog op))" "ms = []"
      "op' = persist (op\<lparr>op_applyCh := op_applyCh op @
          map (\<lambda>i. \<lparr>CommandValid = True, Command = oplog op ! nat i, CommandIndex = i\<rparr>)
            [decidedIdx op..d - 1], op_os := (op_os op)\<lparr>os_DecidedIdx := d\<rparr>\<rparr>)"
proof (cases "decidedIdx op < d \<and> d \<le> int (length (oplog op)) \<and> promised op = n \<and> in_state op FOLLOWER ACCEPT")
  case True
  with assms show ?thesis
    by (intro decide) (simp_all add: DecideHandler_def addToApplyChan_Inr)
next
  case False
  with assms have "op' = op" "ms = []" by (auto simp: DecideHandler_def split: if_splits)
  then show ?thesis by (rule ignored)
qed

lemma DecideHandler_keeps:
  assumes inv: "server_inv op" and res: "DecideHandler op l n d = Inr (op', ms)"
  shows "keeps op op'"
  using res
proof (cases rule: DecideHandler_Inr)
  case ignored
  then show ?thesis using inv by (simp add: keeps_refl)
next
  case decide
  have "applied_ok op'"
    by (rule applied_extend [of op d _ "\<lambda>i. oplog op ! nat i"]) (use inv decide in \<open>auto simp: server_inv_def\<close>)
  with inv decide show ?thesis
    by (auto simp: keeps_def server_inv_def rounds_ok_def advances_def)
qed

lemma PromiseHandler_keeps:
  assumes inv: "server_inv op" and res: "PromiseHandler rng op f n a i d s = Inr (op', ms)"
  shows "keeps op op'"
proof -
  have st: "keeps op (storePromise op f a i d s)"
    unfolding keeps_def by (rule inv_frame) (use inv in \<open>auto simp: server_inv_def rounds_ok_def\<close>)
  from res show ?thesis
  proof (cases rule: PromiseHandler_Inr)
    case stale
    then show ?thesis using inv by (simp add: keeps_refl)
  next
    case (sync op1 mx op2)
    with inv show ?thesis
      by (auto simp: adoptPromise_Inr keeps_def server_inv_def rounds_ok_def applied_ok_def advances_def)
  qed (use st in \<open>auto simp: keeps_def\<close>)
qed

lemma handle_keeps:
  assumes "server_inv op" and "handle rng op m = Inr (op', ms)"
  shows "keeps op op'"
proof (cases m)
  case (PrepareRequest l n a i d)
  with assms show ?thesis
    by (auto simp: PrepareHandler_def Let_def keeps_def server_inv_def rounds_ok_def applied_ok_def advances_def
        split: if_splits)
next
  case (AcceptSyncRequest l n s i)
  with assms show ?thesis
    by (auto simp: AcceptSyncHandler_def Let_def keeps_def server_inv_def rounds_ok_def applied_ok_def
        advances_def split: if_splits)
next
  case (AcceptRequest l n i c)
  with assms show ?thesis
    by (auto simp: AcceptHandler_def Let_def keeps_def server_inv_def rounds_ok_def applied_ok_def
        advances_def split: if_splits)
next
  case (ReconnectedRequest f)
  with assms show ?thesis
    by (auto simp: ReconnectedHandler_def Let_def keeps_def server_inv_def rounds_ok_def applied_ok_def
        advances_def split: if_splits)
next
  case (HBResponse p r rep)
  with assms show ?thesis
    by (auto simp: heartBeatReturn_def keeps_def server_inv_def rounds_ok_def applied_ok_def
        advances_def split: if_splits)
qed (use assms PromiseHandler_keeps DecideHandler_keeps AcceptedHandler_keeps keeps_refl in
      \<open>auto simp: PrepareReqHandler_def split: if_splits\<close>)

lemma op_step_keeps: "op_step op op' ms \<Longrightarrow> server_inv op \<Longrightarrow> keeps op op'"
  by (induction rule: op_step.induct) (blast intro: handle_keeps startTimer_keeps Proposal_keeps)+

lemma op_step_inv: "op_step op op' ms \<Longrightarrow> server_inv op \<Longrightarrow> server_inv op'"
  by (meson op_step_keeps op_step_ok server_invI server_inv_def)

subsection \<open>Start and restart\<close>

text \<open>The state a server has after \<open>Make\<close> when the storage holds \<open>st\<close>.\<close>

definition freshServer :: "nat \<Rightarrow> int \<Rightarrow> 'c gob_msg Persister \<Rightarrow> 'c OmniPaxosState \<Rightarrow> 'c OmniPaxos" where
  "freshServer n me ps st =
     \<lparr>op_peers = n, op_persister = ps, op_me = me, op_dead = 0, op_enableLogging = 0,
      op_currentRnd = zero_ballot, op_promises = [], op_maxProm = None,
      op_accepted = replicate n 0, op_buffer = [], op_os = st,
      op_r = 0, op_b = Ballot 0 me, op_qc = True, op_ballots = [],
      op_state = \<lparr>role = FOLLOWER, phase = PREPARE\<rparr>,
      op_applyCh = map (\<lambda>i. \<lparr>CommandValid = True, Command = os_Log st ! nat i, CommandIndex = i\<rparr>)
        [0..os_DecidedIdx st - 1],
      op_linkDrop = False, op_missedHbCounts = [], op_restart_loop = 0\<rparr>"

lemma freshServer_simps [simp]:
  "op_peers (freshServer n me ps st) = n" "op_persister (freshServer n me ps st) = ps"
  "op_me (freshServer n me ps st) = me" "op_os (freshServer n me ps st) = st"
  "op_state (freshServer n me ps st) = \<lparr>role = FOLLOWER, phase = PREPARE\<rparr>"
  "op_currentRnd (freshServer n me ps st) = zero_ballot" "op_promises (freshServer n me ps st) = []"
  "op_accepted (freshServer n me ps st) = replicate n 0" "op_buffer (freshServer n me ps st) = []"
  "op_maxProm (freshServer n me ps st) = None" "op_ballots (freshServer n me ps st) = []"
  "op_b (freshServer n me ps st) = Ballot 0 me"
  by (simp_all add: freshServer_def)

lemma Make_Inr:
  assumes "st = fst (omnipaxosStatefromBytes (ReadOmnipaxosState ps))"
  shows "Make n me ps = Inr op \<longleftrightarrow>
    (0 < os_DecidedIdx st \<longrightarrow> os_DecidedIdx st \<le> int (length (os_Log st))) \<and> op = freshServer n me ps st"
  using assms
  by (auto simp: Make_def Let_def readPersist_def addToApplyChan_Inr freshServer_def)

lemma freshServer_inv:
  assumes "0 \<le> me" "me < int n" and "os_AcceptedRnd st \<le> os_PromisedRnd st" and "0 \<le> os_DecidedIdx st"
    and "st = fst (omnipaxosStatefromBytes (ReadOmnipaxosState ps))"
  shows "server_inv (freshServer n me ps st)"
  using assms
  by (simp add: server_inv_def server_ok_def rounds_ok_def durable_def stored_def applied_ok_def
      freshServer_def o_def list_all_iff)

lemma Make_fresh: "Make n me MakePersister = Inr (freshServer n me MakePersister zero_os)"
  by (simp add: Make_Inr) (simp add: zero_os_def)

lemma Make_fresh_inv:
  "0 \<le> me \<Longrightarrow> me < int n \<Longrightarrow> server_inv (freshServer n me MakePersister zero_os)"
  by (rule freshServer_inv) (simp_all add: zero_os_def)

lemma Make_restart:
  assumes "server_inv op" and "Make (op_peers op) (op_me op) (Copy (op_persister op)) = Inr op'"
  shows "op' = freshServer (op_peers op) (op_me op) (Copy (op_persister op)) (op_os op)"
    and "server_inv op'" and "op_os op' = op_os op" and "\<not> leads op'" and "op_me op' = op_me op"
    and "op_peers op' = op_peers op"
proof -
  have st: "op_os op = fst (omnipaxosStatefromBytes (ReadOmnipaxosState (Copy (op_persister op))))"
    using assms(1) by (simp add: server_inv_def durable_def stored_def)
  with assms(2) show op': "op' = freshServer (op_peers op) (op_me op) (Copy (op_persister op)) (op_os op)"
    by (simp add: Make_Inr [OF st])
  have "server_inv (freshServer (op_peers op) (op_me op) (Copy (op_persister op)) (op_os op))"
    by (rule freshServer_inv [OF _ _ _ _ st])
       (use assms(1) in \<open>auto simp: server_inv_def server_ok_def rounds_ok_def\<close>)
  with op' show "server_inv op'" by simp
  from op' show "op_os op' = op_os op" "\<not> leads op'" "op_me op' = op_me op" "op_peers op' = op_peers op"
    by (simp_all add: freshServer_def)
qed

text \<open>
  C6: the invariant of a server is kept by every RPC handler, timer tick and proposal, whatever
  well-formed request the network delivers: indices and identities stay in range, the rounds
  agree with role and phase, storage equals memory whenever the lock is free, and the apply
  channel holds one message per decided index in order.  Along the way the promised round, the
  accepted round, the decided index and the elected ballot never decrease, and every RPC sent
  is addressed to an existing peer.
\<close>

theorem server_step_invariant:
  assumes "server_inv op" and "op_step op op' ms"
  shows "server_inv op'
    \<and> promised op \<le> promised op' \<and> acceptedRnd op \<le> acceptedRnd op'
    \<and> decidedIdx op \<le> decidedIdx op' \<and> os_L (op_os op) \<le> os_L (op_os op')
    \<and> op_me op' = op_me op \<and> calls_ok (op_peers op) ms"
  using op_step_inv [OF assms(2,1)] op_step_keeps [OF assms(2,1)] op_step_ok [OF assms(2)] assms(1)
  by (simp add: keeps_def advances_def sound_result_def server_inv_def)

theorem server_step_invariant_witness:
  "\<exists>op'. op_step (freshServer 3 1 MakePersister zero_os :: nat OmniPaxos) op' []
     \<and> server_inv op' \<and> op_me op' = 1"
proof -
  let ?op = "freshServer 3 1 MakePersister zero_os :: nat OmniPaxos"
  have "DecideHandler ?op 0 zero_ballot 1 = Inr (?op, [])"
    by (simp add: DecideHandler_def freshServer_def zero_os_def)
  then have "op_step ?op ?op []"
    by (intro step_handle [of id _ "DecideRequest 0 zero_ballot 1"]) (simp_all add: freshServer_def)
  moreover have "server_inv ?op" by (rule Make_fresh_inv) simp_all
  ultimately show ?thesis
    using server_step_invariant [of ?op ?op "[]"] by (auto simp: freshServer_def)
qed

text \<open>
  C24: crash and restart lose nothing that was decided or promised: \<open>Make\<close> on a copy of the
  storage of a server gives a server with the same persistent state, in the follower role, that
  first replays every decided entry in order; it panics only if the stored decided index exceeds
  the stored log.
\<close>

theorem restart_recovers:
  assumes "server_inv op" and "decidedIdx op \<le> int (length (oplog op))"
  shows "\<exists>op'. Make (op_peers op) (op_me op) (Copy (op_persister op)) = Inr op'
    \<and> server_inv op' \<and> op_os op' = op_os op \<and> \<not> leads op'
    \<and> map Command (op_applyCh op') = take (nat (decidedIdx op)) (oplog op)"
proof -
  have st: "op_os op = fst (omnipaxosStatefromBytes (ReadOmnipaxosState (Copy (op_persister op))))"
    using assms(1) by (simp add: server_inv_def durable_def stored_def)
  let ?op' = "freshServer (op_peers op) (op_me op) (Copy (op_persister op)) (op_os op)"
  have m: "Make (op_peers op) (op_me op) (Copy (op_persister op)) = Inr ?op'"
    using assms(2) by (simp add: Make_Inr [OF st])
  have "0 \<le> decidedIdx op" using assms(1) by (simp add: server_inv_def server_ok_def)
  then have "map (\<lambda>i. oplog op ! nat i) [0..decidedIdx op - 1] = take (nat (decidedIdx op)) (oplog op)"
    using assms(2) by (auto simp: list_eq_iff_nth_eq nth_upto)
  then have "map Command (op_applyCh ?op') = take (nat (decidedIdx op)) (oplog op)"
    by (simp add: freshServer_def o_def)
  with m Make_restart [OF assms(1) m] show ?thesis by blast
qed

theorem restart_recovers_witness:
  "\<exists>op'. Make 3 0 (Copy MakePersister) = Inr (op' :: nat OmniPaxos) \<and> op_os op' = zero_os"
proof -
  let ?op = "freshServer 3 0 MakePersister zero_os :: nat OmniPaxos"
  have "server_inv ?op" by (rule Make_fresh_inv) simp_all
  moreover have "decidedIdx ?op \<le> int (length (oplog ?op))" by (simp add: freshServer_def zero_os_def)
  ultimately show ?thesis
    using restart_recovers [of ?op] by (auto simp: freshServer_def)
qed

end
