(* ===== verification/Replication.thy ===== *)
theory Replication
  imports Server
begin

text \<open>
  What the handlers of one server compute: absence of run-time panics, the choice of the
  greatest promise, the synchronisation of a follower with its leader, the index a proposal
  returns, the election step of the heartbeat timer, and the places where the code departs from
  its comments.
\<close>

subsection \<open>No operation panics on well-formed input\<close>

lemma send_to_total: "calls_ok (op_peers op) ms \<Longrightarrow> send_to op ms = Inr (op, ms)"
  by (auto simp: calls_ok_def list_all_iff)

lemma addToApplyChan_total:
  assumes "0 \<le> a" and "b \<le> int (length lg)"
  shows "\<exists>op'. addToApplyChan op lg a b = Inr op'"
  using assms by (simp add: addToApplyChan_Inr)

lemma syncTo_total:
  "0 \<le> p_logIdx p \<Longrightarrow> 0 \<le> p_decIdx p \<Longrightarrow> \<exists>m. syncTo op n mx p = Inr (p_f p, m)"
  by (simp add: syncTo_def Let_def op_suffix_nonneg)

lemma PromiseHandler_total:
  assumes ok: "server_ok op" and rng: "range_order rng"
    and req: "rpc_ok (op_peers op) (PromiseRequest f n a i d s)"
  shows "\<exists>res. PromiseHandler rng op f n a i d s = Inr res"
proof -
  let ?op1 = "storePromise op f a i d s"
  let ?mx = "maxPromise (rng (map snd (op_promises ?op1)))"
  have ok1: "server_ok ?op1" using ok req by (simp add: server_ok_storePromise)
  obtain op2 where op2: "adoptPromise ?op1 ?mx = Inr op2"
    using ok1 by (simp add: adoptPromise_Inr server_ok_def)
  have s2: "server_ok op2" "op_promises op2 = op_promises ?op1" "op_peers op2 = op_peers ?op1"
    using adoptPromise_ok [OF ok1 op2 maxPromise_range [OF ok1 rng]] by auto
  have "\<exists>ms. go_mapM (syncTo op2 n ?mx) (map snd (op_promises op2)) = Inr ms"
  proof (rule go_mapM_total)
    fix p
    assume "p \<in> set (map snd (op_promises op2))"
    then have "0 \<le> p_logIdx p" "0 \<le> p_decIdx p"
      using s2(1) by (auto simp: server_ok_def dest: promise_ok_vals)
    then show "\<exists>y. syncTo op2 n ?mx p = Inr y" using syncTo_total by blast
  qed
  then obtain ms where ms: "go_mapM (syncTo op2 n ?mx) (map snd (op_promises op2)) = Inr ms" by blast
  have "calls_ok (op_peers op2) ms"
    by (rule sync_calls_ok [OF ms s2(1)]) (use s2(1) in \<open>simp add: server_ok_def\<close>)
  then have send: "send_to (persist op2) ms = Inr (persist op2, ms)"
    by (intro send_to_total) simp
  show ?thesis
  proof (cases "phase (op_state op)")
    case PREPARE
    then show ?thesis
      using op2 ms send by (auto simp: PromiseHandler_def Let_def storePromise_def [symmetric] simp del: map_map)
  next
    case ACCEPT
    show ?thesis
    proof (cases "op_maxProm op")
      case None
      with ok ACCEPT show ?thesis
        by (auto simp: PromiseHandler_def Let_def server_ok_def)
    next
      case (Some mx)
      then have "0 \<le> (if a = p_accRnd mx then p_logIdx mx else d)"
        using ok req by (simp add: server_ok_def)
      then show ?thesis
        using Some ACCEPT req
        by (simp add: PromiseHandler_def Let_def op_suffix_nonneg send_to_def)
    qed
  next
    case RECOVER
    then show ?thesis by (simp add: PromiseHandler_def Let_def)
  qed
qed

lemma AcceptedHandler_total:
  assumes "server_ok op" and "rpc_ok (op_peers op) (AcceptedRequest f n i)"
    and "i \<le> int (length (oplog op)) \<or> i \<le> decidedIdx op \<or> promised op \<noteq> n \<or> \<not> in_state op LEADER ACCEPT"
  shows "\<exists>res. AcceptedHandler op f n i = Inr res"
proof -
  let ?op1 = "op\<lparr>op_accepted := (op_accepted op)[nat f := i]\<rparr>"
  have f: "go_set (op_accepted op) f i = Inr ((op_accepted op)[nat f := i])" and d: "0 \<le> decidedIdx op"
    using assms(1,2) by (simp_all add: go_set_def server_ok_def)
  show ?thesis
  proof (cases "promised op = n \<and> in_state op LEADER ACCEPT \<and> decidedIdx op < i
      \<and> hasMajorityAccepted ?op1 i")
    case False
    then show ?thesis using f by (auto simp: AcceptedHandler_def Let_def)
  next
    case True
    with assms(3) have "i \<le> int (length (oplog op))" by auto
    then obtain op2 where op2: "addToApplyChan ?op1 (oplog ?op1) (decidedIdx ?op1) i = Inr op2"
      using addToApplyChan_total [of "decidedIdx ?op1" i "oplog ?op1" ?op1] d by auto
    note fr = addToApplyChan_frame [OF op2]
    let ?op3 = "persist (op2\<lparr>op_os := (op_os op2)\<lparr>os_DecidedIdx := i\<rparr>\<rparr>)"
    have "server_ok ?op3" using assms(1) fr True d by (simp add: server_ok_def)
    then have "send_to ?op3 (map (\<lambda>p. (p_f p, DecideRequest (op_me ?op3) b i)) (map snd (op_promises ?op3)))
        = Inr (?op3, map (\<lambda>p. (p_f p, DecideRequest (op_me ?op3) b i)) (map snd (op_promises ?op3)))" for b
      using True d by (intro send_to_total decide_calls_ok) auto
    with True f op2 show ?thesis by (simp add: AcceptedHandler_def Let_def del: map_map)
  qed
qed

lemma handle_total:
  assumes "server_ok op" and "range_order rng" and "rpc_ok (op_peers op) m"
    and "handle rng op m = Inl e"
  shows "\<exists>f i. m = AcceptedRequest f (promised op) i \<and> in_state op LEADER ACCEPT
    \<and> decidedIdx op < i \<and> int (length (oplog op)) < i"
proof (cases m)
  case (PromiseRequest f n a i d s)
  with assms PromiseHandler_total [of op rng f n a i d s] show ?thesis by auto
next
  case (AcceptedRequest f n i)
  with assms AcceptedHandler_total [of op f n i] show ?thesis
    by (metis Inl_Inr_False handle.simps(5) linorder_not_le)
next
  case (DecideRequest l n d)
  have "0 \<le> decidedIdx op" using assms(1) by (simp add: server_ok_def)
  with DecideRequest assms(4) addToApplyChan_total [of "decidedIdx op" d "oplog op" op] show ?thesis
    by (auto simp: DecideHandler_def split: if_splits)
qed (use assms in \<open>auto simp: handler_defs Let_def server_ok_def send_to_def op_suffix_nonneg
        op_prefix_nonneg split: if_splits\<close>)

text \<open>
  C28: no RPC handler raises a run-time panic (slice bounds, index, nil pointer) on a well-formed
  request, with one exception: a leader in the accept phase that learns of an accepted index
  beyond its own log and counts a majority for it.
\<close>

theorem handle_panics_only_beyond_log:
  assumes "server_ok op" and "range_order rng" and "rpc_ok (op_peers op) m"
    and "handle rng op m = Inl e"
  shows "\<exists>f i. m = AcceptedRequest f (promised op) i \<and> in_state op LEADER ACCEPT
    \<and> decidedIdx op < i \<and> int (length (oplog op)) < i"
  by (rule handle_total [OF assms])

theorem handle_panics_only_beyond_log_witness:
  "\<exists>(op :: nat OmniPaxos) f i. server_ok op \<and> handle id op (AcceptedRequest 1 zero_ballot 1) = Inl IndexOutOfRange
     \<and> AcceptedRequest 1 zero_ballot 1 = (AcceptedRequest f (promised op) i :: nat rpc)
     \<and> int (length (oplog op)) < i"
proof -
  let ?op = "(freshServer 1 0 MakePersister zero_os :: nat OmniPaxos)
     \<lparr>op_peers := 2, op_accepted := [0, 0], op_maxProm := Some zero_promise,
      op_state := \<lparr>role = LEADER, phase = ACCEPT\<rparr>\<rparr>"
  have ok: "server_ok ?op"
    by (simp add: server_ok_def freshServer_def zero_os_def zero_promise_def)
  have h: "handle id ?op (AcceptedRequest 1 zero_ballot 1) = Inl IndexOutOfRange"
    by (simp add: AcceptedHandler_def go_set_def Let_def freshServer_def zero_os_def hasMajorityAccepted_def
        majority_def addToApplyChan_def go_index_def upto.simps)
  have "rpc_ok (op_peers ?op) (AcceptedRequest 1 zero_ballot 1 :: nat rpc)" by simp
  from handle_panics_only_beyond_log [OF ok range_order_id this h] ok h show ?thesis by blast
qed

subsection \<open>The greatest promise\<close>

definition promise_le :: "'c Promise \<Rightarrow> 'c Promise \<Rightarrow> bool" where
  "promise_le p q \<longleftrightarrow> p_accRnd p < p_accRnd q \<or> p_accRnd p = p_accRnd q \<and> p_logIdx p \<le> p_logIdx q"

abbreviation promise_pick :: "'c Promise \<Rightarrow> 'c Promise \<Rightarrow> 'c Promise" where
  "promise_pick p mx \<equiv> (if compare (p_accRnd p) (p_accRnd mx) > 0
     \<or> p_accRnd p = p_accRnd mx \<and> p_logIdx p > p_logIdx mx then p else mx)"

lemma promise_le_trans: "promise_le p q \<Longrightarrow> promise_le q r \<Longrightarrow> promise_le p r"
  and promise_le_antisym: "promise_le p q \<Longrightarrow> promise_le q p
    \<Longrightarrow> p_accRnd p = p_accRnd q \<and> p_logIdx p = p_logIdx q"
  and promise_le_pick: "promise_le mx (promise_pick p mx)" "promise_le p (promise_pick p mx)"
  by (auto simp: promise_le_def)

lemma maxPromise_fold:
  "promise_le a (fold promise_pick ps a) \<and> (\<forall>p \<in> set ps. promise_le p (fold promise_pick ps a))
   \<and> (fold promise_pick ps a = a \<or> fold promise_pick ps a \<in> set ps)"
proof (induction ps arbitrary: a)
  case Nil
  then show ?case by (simp add: promise_le_def)
next
  case (Cons p ps)
  let ?b = "promise_pick p a" and ?r = "fold promise_pick ps (promise_pick p a)"
  have IH: "promise_le ?b ?r" "\<forall>q \<in> set ps. promise_le q ?r" "?r = ?b \<or> ?r \<in> set ps"
    using Cons.IH [of ?b] by blast+
  have "promise_le p ?r" by (rule promise_le_trans [OF promise_le_pick(2) IH(1)])
  moreover have "promise_le a ?r" by (rule promise_le_trans [OF promise_le_pick(1) IH(1)])
  moreover have "?r = a \<or> ?r \<in> set (p # ps)"
    using IH(3) by (cases "?b = a") (auto split: if_splits)
  ultimately show ?case using IH(2) by simp
qed

lemma maxPromise_upper: "p \<in> set ps \<Longrightarrow> promise_le p (maxPromise ps)"
  unfolding maxPromise_def using maxPromise_fold by blast

lemma maxPromise_mem:
  assumes "p \<in> set ps" and "Ballot (-1) (-1) < p_accRnd p"
  shows "maxPromise ps \<in> set ps"
proof -
  have "maxPromise ps \<noteq> zero_promise\<lparr>p_accRnd := Ballot (-1) (-1)\<rparr>"
    using maxPromise_upper [OF assms(1)] assms(2) by (auto simp: promise_le_def)
  then show ?thesis
    unfolding maxPromise_def using maxPromise_fold by blast
qed

text \<open>
  \<open>maxPromise\<close> returns one of the promises, and one with the greatest accepted round and,
  among those, the longest log; in whatever order \<open>range\<close> visits the map the accepted round and
  the log length of the result are the same.
\<close>

theorem maxPromise_correct:
  assumes "p \<in> set ps" and "\<forall>q \<in> set ps. Ballot (-1) (-1) < p_accRnd q" and "range_order rng"
  shows "maxPromise (rng ps) \<in> set ps
    \<and> (\<forall>q \<in> set ps. p_accRnd q < p_accRnd (maxPromise (rng ps))
         \<or> p_accRnd q = p_accRnd (maxPromise (rng ps)) \<and> p_logIdx q \<le> p_logIdx (maxPromise (rng ps)))
    \<and> p_accRnd (maxPromise (rng ps)) = p_accRnd (maxPromise ps)
    \<and> p_logIdx (maxPromise (rng ps)) = p_logIdx (maxPromise ps)"
proof -
  have set: "set (rng ps) = set ps" using assms(3) by simp
  have mem: "maxPromise (rng ps) \<in> set ps" "maxPromise ps \<in> set ps"
    using maxPromise_mem [of p] assms set by blast+
  then have "promise_le (maxPromise ps) (maxPromise (rng ps))"
    "promise_le (maxPromise (rng ps)) (maxPromise ps)"
    using maxPromise_upper set by blast+
  then have "p_accRnd (maxPromise (rng ps)) = p_accRnd (maxPromise ps)
      \<and> p_logIdx (maxPromise (rng ps)) = p_logIdx (maxPromise ps)"
    using promise_le_antisym by blast
  moreover have "\<forall>q \<in> set ps. promise_le q (maxPromise (rng ps))"
    using maxPromise_upper set by blast
  ultimately show ?thesis using mem by (auto simp: promise_le_def)
qed

theorem maxPromise_correct_witness:
  "p_logIdx (maxPromise (rev [zero_promise, zero_promise\<lparr>p_f := 1, p_logIdx := 5\<rparr> :: nat Promise]))
     = p_logIdx (maxPromise [zero_promise, zero_promise\<lparr>p_f := 1, p_logIdx := 5\<rparr> :: nat Promise])"
proof -
  let ?ps = "[zero_promise, zero_promise\<lparr>p_f := 1, p_logIdx := 5\<rparr> :: nat Promise]"
  have "zero_promise \<in> set ?ps" "\<forall>q \<in> set ?ps. Ballot (-1) (-1) < p_accRnd q"
    by (simp_all add: zero_promise_def zero_ballot_def)
  from maxPromise_correct [OF this range_order_rev] show ?thesis by blast
qed

subsection \<open>Synchronising a follower\<close>

text \<open>
  Synchronisation is exact: when a follower in the prepare phase handles the \<open>AcceptSync\<close> its
  leader built for its promise, and the two logs agree on the first \<open>syncIdx\<close> entries, then
  afterwards the follower holds exactly the leader's log at the time of sending, accepted in the
  leader's round, is in the accept phase, and reports that log's length to the leader.
\<close>

theorem sync_copies_leader_log:
  assumes ok: "server_ok fo" and fo: "promised fo = n" "in_state fo FOLLOWER PREPARE"
    and sync: "syncTo ld n mx p = Inr (f, AcceptSyncRequest l n sfx k)"
    and ld: "0 \<le> op_me ld" "op_me ld < int (op_peers fo)"
    and k: "0 \<le> k" "k \<le> int (length (oplog ld))"
    and agree: "take (nat k) (oplog fo) = take (nat k) (oplog ld)"
  shows "\<exists>fo'. AcceptSyncHandler fo l n sfx k
      = Inr (fo', [(op_me ld, AcceptedRequest (op_me fo) n (int (length (oplog ld))))])
    \<and> oplog fo' = oplog ld \<and> acceptedRnd fo' = n \<and> in_state fo' FOLLOWER ACCEPT \<and> durable fo'"
proof -
  have s: "sfx = drop (nat k) (oplog ld)" "l = op_me ld"
    using sync k by (auto simp: syncTo_def Let_def op_suffix_Inr split: if_splits)
  then have "take (nat k) (oplog fo) @ sfx = oplog ld" using agree by simp
  with fo k ld s show ?thesis
    by (simp add: AcceptSyncHandler_def Let_def op_prefix_nonneg send_to_def)
qed

theorem sync_copies_leader_log_witness:
  "\<exists>fo'. AcceptSyncHandler (freshServer 3 1 MakePersister zero_os) 0 zero_ballot [7, 8 :: nat] 0
     = Inr (fo', [(0, AcceptedRequest 1 zero_ballot 2)]) \<and> oplog fo' = [7, 8]"
proof -
  let ?fo = "freshServer 3 1 MakePersister zero_os :: nat OmniPaxos"
  let ?ld = "freshServer 3 0 MakePersister (zero_os\<lparr>os_Log := [7, 8]\<rparr>) :: nat OmniPaxos"
  have "server_ok ?fo" by (rule server_inv_ok [OF Make_fresh_inv]) simp_all
  moreover have "syncTo ?ld zero_ballot zero_promise zero_promise
      = Inr (0, AcceptSyncRequest 0 zero_ballot [7, 8] 0)"
    by (simp add: syncTo_def zero_promise_def op_suffix_def go_from_def freshServer_def)
  ultimately show ?thesis
    using sync_copies_leader_log [of ?fo zero_ballot ?ld zero_promise zero_promise 0 0 "[7, 8]" 0]
    by (auto simp: freshServer_def zero_os_def)
qed

text \<open>
  A promise that reaches a leader already in the accept phase, from a follower whose accepted
  round equals that of the adopted promise but whose log is a shorter prefix of the leader's
  (\<open>j < k\<close>), is answered with \<open>syncIdx = maxProm.logIdx = k\<close>.  The follower then appends the
  leader's entries from \<open>k\<close> on to its own \<open>j\<close> entries: entries \<open>j..k-1\<close> are skipped, and its log
  is shorter than the leader's although it counts as accepted in the leader's round.
\<close>

theorem late_promise_leaves_gap:
  assumes "server_ok ld" "in_state ld LEADER ACCEPT" "op_currentRnd ld = n" "op_maxProm ld = Some mx"
    and "server_ok fo" "promised fo = n" "in_state fo FOLLOWER PREPARE" "op_peers fo = op_peers ld"
    and "p_accRnd mx = acceptedRnd fo" "p_logIdx mx = k" "k \<le> int (length (oplog ld))"
    and "int (length (oplog fo)) < k"
  shows "\<exists>ld' ms fo' ms'.
    PromiseHandler rng ld (op_me fo) n (acceptedRnd fo) (int (length (oplog fo))) (decidedIdx fo) [] = Inr (ld', ms)
    \<and> (op_me fo, AcceptSyncRequest (op_me ld) n (drop (nat k) (oplog ld)) k) \<in> set ms
    \<and> AcceptSyncHandler fo (op_me ld) n (drop (nat k) (oplog ld)) k = Inr (fo', ms')
    \<and> oplog fo' = oplog fo @ drop (nat k) (oplog ld)
    \<and> acceptedRnd fo' = n \<and> length (oplog fo') < length (oplog ld)"
proof -
  have k: "0 \<le> k" using assms(12) by simp
  then have "op_suffix op k = Inr (drop (nat k) (oplog op))" "op_prefix op k = Inr (take (nat k) (oplog op))"
    for op :: "'a OmniPaxos" by (simp_all add: op_suffix_nonneg op_prefix_nonneg)
  moreover have "take (nat k) (oplog fo) = oplog fo" using assms(12) by simp
  ultimately show ?thesis
    using assms k by (simp add: PromiseHandler_def AcceptSyncHandler_def Let_def send_to_def server_ok_def)
qed

theorem late_promise_leaves_gap_witness:
  "\<exists>ld' ms fo' ms'.
    PromiseHandler id (freshServer 3 0 MakePersister (zero_os\<lparr>os_Log := [7, 8, 9 :: nat]\<rparr>)
        \<lparr>op_state := \<lparr>role = LEADER, phase = ACCEPT\<rparr>, op_maxProm := Some (zero_promise\<lparr>p_logIdx := 2\<rparr>)\<rparr>)
      1 zero_ballot zero_ballot 1 0 [] = Inr (ld', ms)
    \<and> (1, AcceptSyncRequest 0 zero_ballot [9] 2) \<in> set ms
    \<and> AcceptSyncHandler (freshServer 3 1 MakePersister (zero_os\<lparr>os_Log := [7 :: nat]\<rparr>)) 0 zero_ballot [9] 2 = Inr (fo', ms')
    \<and> oplog fo' = [7, 9]"
proof -
  let ?ld = "freshServer 3 0 MakePersister (zero_os\<lparr>os_Log := [7, 8, 9 :: nat]\<rparr>)
        \<lparr>op_state := \<lparr>role = LEADER, phase = ACCEPT\<rparr>, op_maxProm := Some (zero_promise\<lparr>p_logIdx := 2\<rparr>)\<rparr>"
  let ?fo = "freshServer 3 1 MakePersister (zero_os\<lparr>os_Log := [7 :: nat]\<rparr>)"
  have "server_ok ?ld" "server_ok ?fo"
    by (simp_all add: server_ok_def zero_os_def zero_promise_def)
  then show ?thesis
    using late_promise_leaves_gap [of ?ld zero_ballot "zero_promise\<lparr>p_logIdx := 2\<rparr>" ?fo 2 id]
    by (simp add: zero_os_def zero_promise_def) blast
qed

text \<open>
  A leader whose own promise is the greatest appends its undecided suffix to the log that
  still contains it: after the prepare phase every undecided entry is in the log twice, followed
  by the buffered proposals.
\<close>

theorem own_promise_duplicates_suffix:
  assumes "server_ok op" and "maxPromise (rng (map snd (op_promises op))) = ownPromise op"
    and "adoptPromise op (maxPromise (rng (map snd (op_promises op)))) = Inr op'"
    and "decidedIdx op \<le> int (length (oplog op))"
  shows "oplog op' = take (nat (decidedIdx op)) (oplog op)
    @ drop (nat (decidedIdx op)) (oplog op) @ drop (nat (decidedIdx op)) (oplog op) @ op_buffer op"
  using assms(3)
  unfolding assms(2) adoptPromise_Inr adoptedLog_def
  by (simp add: ownPromise_def append_assoc [symmetric] del: append_assoc)

theorem own_promise_duplicates_suffix_witness:
  "\<exists>op'. adoptPromise (newLeader (freshServer 3 2 MakePersister (zero_os\<lparr>os_Log := [7 :: nat]\<rparr>)) (Ballot 1 2))
       (ownPromise (freshServer 3 2 MakePersister (zero_os\<lparr>os_Log := [7]\<rparr>))) = Inr op'
     \<and> oplog op' = [7, 7]"
proof -
  let ?fr = "freshServer 3 2 MakePersister (zero_os\<lparr>os_Log := [7 :: nat]\<rparr>)"
  let ?op = "newLeader ?fr (Ballot 1 2)"
  have ok: "server_ok ?op" by (rule server_ok_newLeader) (simp add: server_ok_def freshServer_def zero_os_def)
  have own: "ownPromise ?op = ownPromise ?fr" by (simp add: ownPromise_def)
  have mx: "maxPromise (id (map snd (op_promises ?op))) = ownPromise ?op"
    by (simp add: own maxPromise_def ownPromise_def freshServer_def zero_os_def zero_promise_def zero_ballot_def)
  obtain op' where op': "adoptPromise ?op (ownPromise ?op) = Inr op'"
    using ok by (simp add: adoptPromise_Inr server_ok_def)
  have "decidedIdx ?op \<le> int (length (oplog ?op))" by (simp add: freshServer_def zero_os_def)
  from own_promise_duplicates_suffix [of ?op id, OF ok mx op' [folded mx] this] have "oplog op' = [7, 7]"
    by (simp add: zero_os_def)
  moreover have "adoptPromise ?op (ownPromise ?fr) = Inr op'"
    by (rule trans [OF arg_cong [OF own [symmetric], of "adoptPromise ?op"] op'])
  ultimately show ?thesis by blast
qed

subsection \<open>Proposals\<close>

text \<open>
  A proposal accepted by a leader in the accept phase is durable in the leader's log at the
  returned index, is counted as accepted by the leader itself, and is sent to every other
  promised server together with the leader's round and the position it must take.
\<close>

theorem proposal_accept_correct:
  assumes "server_inv op" and "in_state op LEADER ACCEPT"
  shows "\<exists>op' ms i bal l. Proposal op c = Inr ((op', ms), (i, bal, l))
    \<and> i = int (length (oplog op)) \<and> bal = ballot_N (os_L (op_os op))
    \<and> oplog op' = oplog op @ [c] \<and> oplog op' ! nat i = c
    \<and> os_Log (stored op') = oplog op' \<and> op_accepted op' ! nat (op_me op) = i + 1
    \<and> (l \<longleftrightarrow> ballot_Pid (os_L (op_os op)) = op_me op)
    \<and> set ms = {(f, AcceptRequest (op_me op) (promised op) (i + 1) c) | f.
                  f \<in> fst ` set (op_promises op) \<and> f \<noteq> op_me op}"
proof -
  have ok: "server_ok op" "op_currentRnd op = promised op"
    using assms by (auto simp: server_inv_def rounds_ok_def)
  have keys: "\<forall>kp \<in> set (op_promises op). p_f (snd kp) = fst kp \<and> 0 \<le> fst kp \<and> fst kp < int (op_peers op)"
    using ok(1) by (auto simp: server_ok_def promises_ok_def promise_ok_def)
  let ?ms = "map (\<lambda>p. (p_f p, AcceptRequest (op_me op) (op_currentRnd op) (int (length (oplog op)) + 1) c))
    (filter (\<lambda>p. p_f p \<noteq> op_me op) (map snd (op_promises op)))"
  have ms: "set ?ms = {(f, AcceptRequest (op_me op) (promised op) (int (length (oplog op)) + 1) c) | f.
      f \<in> fst ` set (op_promises op) \<and> f \<noteq> op_me op}"
    using keys ok(2) by force
  have "\<forall>(d, m) \<in> set ?ms. 0 \<le> d \<and> d < int (op_peers op)" using keys by auto
  then have "\<exists>op'. Proposal op c = Inr ((op', ?ms), (int (length (oplog op)), ballot_N (os_L (op_os op)),
        ballot_Pid (os_L (op_os op)) = op_me op))
      \<and> oplog op' = oplog op @ [c] \<and> os_Log (stored op') = oplog op'
      \<and> op_accepted op' ! nat (op_me op) = int (length (oplog op)) + 1"
    using assms(2) ok(1)
    by (simp add: Proposal_def stopped_def Let_def go_set_def server_ok_def send_to_def list_all_iff
        del: set_map set_filter) (auto simp: add.commute)
  then show ?thesis using ms by (elim exE conjE) (intro exI conjI, assumption, simp_all)
qed

theorem proposal_accept_correct_witness:
  "\<exists>op' ms. Proposal (newLeader (freshServer 1 0 MakePersister zero_os) (Ballot 1 0)
       \<lparr>op_state := \<lparr>role = LEADER, phase = ACCEPT\<rparr>,
        op_os := (zero_os\<lparr>os_L := Ballot 1 0, os_PromisedRnd := Ballot 1 0, os_AcceptedRnd := Ballot 1 0\<rparr>),
        op_persister := SaveOmnipaxosState MakePersister
          (toBytes (zero_os\<lparr>os_L := Ballot 1 0, os_PromisedRnd := Ballot 1 0, os_AcceptedRnd := Ballot 1 0\<rparr>))\<rparr>)
       (9 :: nat) = Inr ((op', ms), (0, 1, True)) \<and> oplog op' = [9]"
proof -
  let ?os = "zero_os\<lparr>os_L := Ballot 1 0, os_PromisedRnd := Ballot 1 0, os_AcceptedRnd := Ballot 1 0\<rparr>
    :: nat OmniPaxosState"
  let ?op = "newLeader (freshServer 1 0 MakePersister zero_os) (Ballot 1 0)
       \<lparr>op_state := \<lparr>role = LEADER, phase = ACCEPT\<rparr>, op_os := ?os,
        op_persister := SaveOmnipaxosState MakePersister (toBytes ?os)\<rparr>"
  have inv: "server_inv ?op"
    by (simp add: server_inv_def server_ok_def rounds_ok_def durable_def stored_def applied_ok_def
        decode_encode_state freshServer_def zero_os_def zero_promise_def promises_ok_def promise_ok_def
        ownPromise_def)
  have st: "in_state ?op LEADER ACCEPT" by simp
  from proposal_accept_correct [OF inv st, of 9] obtain op' ms i bal l where "Proposal ?op 9 = Inr ((op', ms), (i, bal, l))"
    "i = int (length (oplog ?op))" "bal = ballot_N (os_L (op_os ?op))" "oplog op' = oplog ?op @ [9]"
    "l \<longleftrightarrow> ballot_Pid (os_L (op_os ?op)) = op_me ?op"
    by (elim exE conjE) (rule that)
  moreover have "oplog ?op = []" "os_L (op_os ?op) = Ballot 1 0" "op_me ?op = 0" by (simp_all add: zero_os_def)
  ultimately show ?thesis by (intro exI [of _ op'] exI [of _ ms]) simp
qed

text \<open>
  A proposal to a leader still in the prepare phase is buffered, and the index returned is
  that of the last entry already in the log (\<open>-1\<close> when the log is empty), not the index the
  command will have: once the leader adopts a promise of its own accepted round, the command sits
  at a strictly greater index.
\<close>

theorem proposal_prepare_index_is_stale:
  assumes "in_state op LEADER PREPARE"
  shows "\<exists>op' bal l. Proposal op c = Inr ((op', []), (int (length (oplog op)) - 1, bal, l))
    \<and> oplog op' = oplog op \<and> op_buffer op' = op_buffer op @ [c]
    \<and> (\<forall>mx. p_accRnd mx = acceptedRnd op \<longrightarrow>
         adoptedLog op' mx ! (length (adoptedLog op' mx) - 1) = c
         \<and> int (length (oplog op)) - 1 < int (length (adoptedLog op' mx) - 1))"
  using assms by (simp add: Proposal_def stopped_def Let_def adoptedLog_def nth_append)

theorem proposal_prepare_index_is_stale_witness:
  "\<exists>op' bal l. Proposal (newLeader (freshServer 3 2 MakePersister zero_os) (Ballot 1 2)) (9 :: nat)
     = Inr ((op', []), (-1, bal, l)) \<and> op_buffer op' = [9]"
  using proposal_prepare_index_is_stale [of "newLeader (freshServer 3 2 MakePersister zero_os) (Ballot 1 2)" "9 :: nat"]
  by (simp add: zero_os_def) blast

subsection \<open>Election\<close>

lemma checkLeader_result:
  assumes "server_inv op" and "checkLeader op = Inr (op', ms)"
  defines "mx \<equiv> max_ballot (filter snd (op_ballots op))" and "l \<equiv> os_L (op_os op)"
  shows "os_L (op_os op') = max mx l"
    and "mx < l \<Longrightarrow> op_b op' = Ballot (ballot_N l + 1) (op_me op) \<and> op_qc op' \<and> op_state op' = op_state op"
    and "mx = l \<Longrightarrow> op' = op"
    and "l < mx \<Longrightarrow> leads op' \<longleftrightarrow> ballot_Pid mx = op_me op \<and> promised op < mx"
    and "l < mx \<Longrightarrow> leads op' \<Longrightarrow> op_currentRnd op' = mx \<and> promised op' = mx \<and> phase (op_state op') = PREPARE"
proof -
  have d: "0 \<le> decidedIdx op" and b: "ballot_Pid (op_b op) = op_me op"
    using assms(1) by (simp_all add: server_inv_def server_ok_def)
  consider "mx < l" | "mx = l" | "l < mx" by fastforce
  note cases = this
  have less: "op' = op\<lparr>op_b := increment (op_b op) (ballot_N l), op_qc := True\<rparr>" if "mx < l"
    using assms(2) that by (simp add: checkLeader_def Let_def mx_def l_def)
  have eq: "op' = op" if "mx = l"
    using assms(2) that by (simp add: checkLeader_def Let_def mx_def l_def)
  have greater: "op' = (if ballot_Pid mx = op_me op \<and> promised op < mx
      then newLeader (persist (op\<lparr>op_os := (op_os op)\<lparr>os_L := mx\<rparr>\<rparr>)) mx
      else (persist (op\<lparr>op_os := (op_os op)\<lparr>os_L := mx\<rparr>\<rparr>))
             \<lparr>op_state := (op_state op)\<lparr>role := FOLLOWER\<rparr>\<rparr>)" if "l < mx"
  proof -
    have "\<not> mx < l" using that by simp
    then show ?thesis
      using assms(2) that d by (auto simp: checkLeader_def Let_def mx_def l_def triggerLeader_eq split: if_splits)
  qed
  show "os_L (op_os op') = max mx l"
    by (rule cases) (auto simp: less eq greater max_def l_def)
  show "mx < l \<Longrightarrow> op_b op' = Ballot (ballot_N l + 1) (op_me op) \<and> op_qc op' \<and> op_state op' = op_state op"
    using b by (simp add: less increment_def)
  show "mx = l \<Longrightarrow> op' = op" by (rule eq)
  show "l < mx \<Longrightarrow> leads op' \<longleftrightarrow> ballot_Pid mx = op_me op \<and> promised op < mx"
    by (simp add: greater)
  show "l < mx \<Longrightarrow> leads op' \<Longrightarrow> op_currentRnd op' = mx \<and> promised op' = mx \<and> phase (op_state op') = PREPARE"
    by (auto simp: greater split: if_splits)
qed

text \<open>
  What one timer tick of ballot leader election does.  With fewer than a majority of ballots
  the server gives up its quorum flag and changes neither leader nor role.  Otherwise let \<open>mx\<close> be
  the greatest quorum-connected ballot heard of: if it is below the current leader's ballot the
  server raises its own ballot above it; if it is above, it becomes the leader's ballot, and the
  server leads exactly when the ballot is its own and above everything it has promised, starting
  the prepare phase of that round.  In every case the ballots are cleared and the round advances.
\<close>

theorem tick_elects:
  assumes inv: "server_inv op" and res: "startTimer op = Inr (op', ms)"
  defines "bs \<equiv> mput (op_b op) (op_qc op) (op_ballots op)" and "l \<equiv> os_L (op_os op)"
  defines "mx \<equiv> max_ballot (filter snd bs)"
  shows "op_ballots op' = [] \<and> op_r op' = op_r op + 1
    \<and> (length bs < majority (op_peers op) \<longrightarrow>
         \<not> op_qc op' \<and> os_L (op_os op') = l \<and> op_state op' = op_state op)
    \<and> (majority (op_peers op) \<le> length bs \<longrightarrow>
         os_L (op_os op') = max mx l
         \<and> (mx < l \<longrightarrow> op_b op' = Ballot (ballot_N l + 1) (op_me op) \<and> op_qc op' \<and> l < op_b op')
         \<and> (l < mx \<longrightarrow> (leads op' \<longleftrightarrow> ballot_Pid mx = op_me op \<and> promised op < mx)
              \<and> (leads op' \<longrightarrow> op_currentRnd op' = mx \<and> promised op' = mx \<and> phase (op_state op') = PREPARE)))"
  using res
proof (rule startTimer_Inr)
  fix op1 op2 ms2 op3 ms3
  assume 1: "op1 = op\<lparr>op_ballots := mput (op_b op) (op_qc op) (op_ballots op)\<rparr>"
    and 2: "(if majority (op_peers op1) \<le> length (op_ballots op1) then checkLeader op1
             else Inr (op1\<lparr>op_qc := False\<rparr>, [])) = Inr (op2, ms2)"
    and 3: "updateMissedHbsAndReconnect op2 = Inr (op3, ms3)"
    and 4: "op' = op3\<lparr>op_ballots := [], op_r := op_r op3 + 1\<rparr>"
  from 3 obtain m d lp where 5: "op3 = op2\<lparr>op_missedHbCounts := m, op_linkDrop := d, op_restart_loop := lp\<rparr>"
    by (rule updateMissed_Inr)
  have inv1: "server_inv op1"
    using inv 1 by (simp add: server_inv_def server_ok_def rounds_ok_def applied_ok_def)
  have r: "op_r op2 = op_r op"
    using 2 1 by (auto simp: checkLeader_def triggerLeader_def Let_def split: if_splits)
  show ?thesis
  proof (cases "majority (op_peers op) \<le> length bs")
    case False
    with 1 2 bs_def have "op2 = op1\<lparr>op_qc := False\<rparr>" by simp
    with False 1 4 5 show ?thesis by (simp add: l_def)
  next
    case True
    with 1 2 bs_def have c: "checkLeader op1 = Inr (op2, ms2)" by simp
    note R = checkLeader_result [OF inv1 c]
    have "l < Ballot (ballot_N l + 1) (op_me op)" by (simp add: less_Ballot_def)
    with True 1 4 5 r R show ?thesis by (simp add: l_def mx_def bs_def)
  qed
qed

theorem tick_elects_witness:
  "\<exists>op' ms. startTimer ((freshServer 3 2 MakePersister zero_os :: nat OmniPaxos)
       \<lparr>op_ballots := [(Ballot 0 1, True)]\<rparr>) = Inr (op', ms)
     \<and> leads op' \<and> op_currentRnd op' = Ballot 0 2 \<and> os_L (op_os op') = Ballot 0 2"
proof -
  let ?op = "(freshServer 3 2 MakePersister zero_os :: nat OmniPaxos)\<lparr>op_ballots := [(Ballot 0 1, True)]\<rparr>"
  have inv: "server_inv ?op"
    by (simp add: server_inv_def server_ok_def rounds_ok_def durable_def stored_def applied_ok_def
        freshServer_def zero_os_def ballots_ok_def)
  have "\<not> isl (startTimer ?op)" by code_simp
  then obtain op' ms where res: "startTimer ?op = Inr (op', ms)"
    by (metis isl_def surj_pair sum.exhaust)
  have "max_ballot (filter snd (mput (op_b ?op) (op_qc ?op) (op_ballots ?op))) = Ballot 0 2"
    "os_L (op_os ?op) = Ballot 0 0" "promised ?op = Ballot 0 0" "op_me ?op = 2"
    "majority (op_peers ?op) \<le> length (mput (op_b ?op) (op_qc ?op) (op_ballots ?op))"
    by (simp_all add: freshServer_def zero_os_def max_ballot_def compare_def zero_ballot_def majority_def)
  with tick_elects [OF inv res] res show ?thesis by (auto simp: max_def)
qed

subsection \<open>Weak guards\<close>

text \<open>
  A leader that is asked to prepare by itself (every server sends \<open>PrepareReq\<close> to all peers,
  itself included, on its second timer tick) sends \<open>Prepare\<close> for its own round to itself and,
  handling it, becomes a follower: \<open>PrepareHandler\<close> only rejects rounds strictly below the
  promised one.  Its ballot still names it the leader, so \<open>GetState\<close> and \<open>Proposal\<close> then refuse.
\<close>

theorem own_prepare_demotes_leader:
  assumes "server_inv op" and "leads op"
  shows "\<exists>m op' ms. PrepareReqHandler op (op_me op) = Inr (op, [(op_me op, m)])
    \<and> handle rng op m = Inr (op', ms) \<and> in_state op' FOLLOWER PREPARE
    \<and> promised op' = op_currentRnd op' \<and> oplog op' = oplog op
    \<and> snd (GetState op') = False \<and> Proposal op' c = Inr ((op', []), (-1, -1, False))"
proof -
  have ok: "0 \<le> op_me op" "op_me op < int (op_peers op)" "op_currentRnd op = promised op"
    using assms by (auto simp: server_inv_def server_ok_def rounds_ok_def)
  let ?m = "PrepareRequest (op_me op) (op_currentRnd op) (acceptedRnd op) (int (length (oplog op))) (decidedIdx op)"
  have "PrepareReqHandler op (op_me op) = Inr (op, [(op_me op, ?m)])"
    using ok assms(2) by (simp add: PrepareReqHandler_def send_to_def)
  moreover obtain op' ms where "handle rng op ?m = Inr (op', ms)" "in_state op' FOLLOWER PREPARE"
    "promised op' = op_currentRnd op'" "oplog op' = oplog op"
    using ok by (simp add: PrepareHandler_def Let_def op_suffix_nonneg send_to_def)
  moreover from this(2) have "snd (GetState op') = False" "Proposal op' c = Inr ((op', []), (-1, -1, False))"
    by (simp_all add: GetState_def Proposal_def stopped_def)
  ultimately show ?thesis by blast
qed

theorem own_prepare_demotes_leader_witness:
  "\<exists>m op' ms. PrepareReqHandler (newLeader (freshServer 3 2 MakePersister zero_os) (Ballot 1 2)) 2
       = Inr (newLeader (freshServer 3 2 MakePersister zero_os) (Ballot 1 2), [(2, m :: nat rpc)])
     \<and> handle id (newLeader (freshServer 3 2 MakePersister zero_os) (Ballot 1 2)) m = Inr (op', ms)
     \<and> in_state op' FOLLOWER PREPARE"
proof -
  let ?op = "newLeader (freshServer 3 2 MakePersister zero_os) (Ballot 1 2) :: nat OmniPaxos"
  have "server_inv (freshServer 3 2 MakePersister zero_os :: nat OmniPaxos)" by (rule Make_fresh_inv) simp_all
  then have "server_ok ?op" "keeps (freshServer 3 2 MakePersister zero_os) ?op"
    by (auto intro!: server_ok_newLeader keeps_newLeader simp: server_inv_def zero_os_def zero_ballot_def)
  then have "server_inv ?op" by (simp add: server_inv_def keeps_def)
  moreover have "leads ?op" "op_me ?op = 2" by simp_all
  ultimately show ?thesis using own_prepare_demotes_leader [of ?op id 0] by fastforce
qed

text \<open>
  The reply to a heartbeat repeats the round of the request, so the comparison the caller
  makes is between a number and itself: a reply that arrives in a later round is still counted
  among the ballots of that later round.
\<close>

theorem stale_heartbeat_is_counted:
  "map_of (op_ballots (heartBeatReturn op r p (HeartBeatHandler peer r))) (Ballot (ballot_N (op_b peer)) p)
     = Some (op_qc peer)"
  by (simp add: heartBeatReturn_def HeartBeatHandler_def)

text \<open>
  With an even number of servers \<open>(len(peers)+1)/2\<close> is half of them, and two disjoint sets of
  servers are both large enough to elect a leader and to decide.
\<close>

theorem even_quorums_do_not_meet:
  assumes "even n" and "0 < n"
  shows "\<exists>Q R. is_quorum n Q \<and> is_quorum n R \<and> Q \<inter> R = {}"
proof (intro exI conjI)
  let ?h = "int (majority n)"
  have h: "n = 2 * majority n" using assms by (auto simp: majority_def elim: evenE)
  then show "is_quorum n {0..<?h}" "is_quorum n {?h..<int n}"
    by (auto simp: is_quorum_def)
  show "{0..<?h} \<inter> {?h..<int n} = {}" by auto
qed

theorem even_quorums_do_not_meet_witness:
  "\<exists>Q R. is_quorum 4 Q \<and> is_quorum 4 R \<and> Q \<inter> R = {}"
  by (rule even_quorums_do_not_meet) simp_all

end
