(* ===== verification/Cluster.thy ===== *)
theory Cluster
  imports Replication
begin

text \<open>
  A cluster of OmniPaxos servers and the network between them.  The network keeps every request
  ever issued and may deliver any of them at any time, any number of times or never, so loss,
  delay, reordering and duplication are all covered; a server may crash between two operations
  and restart from a copy of its storage, as \<open>crash1\<close> and \<open>start1\<close> of \<open>a2-omnipaxos/config.go\<close>
  do.  The invariants of this theory hold in every reachable cluster:

  \<^item> \<open>cluster_ok\<close>: every server satisfies \<open>server_inv\<close> and every request is well-formed;
  \<^item> \<open>origins_ok\<close>: a request of round \<open>b\<close> that only a leader may issue was issued by the server
    named in \<open>b\<close>, and nobody acknowledges a round it has not promised;
  \<^item> \<open>evidence_ok\<close>: the promises and acknowledgements a leader counts were really sent, and an
    index is decided only after a majority acknowledged it in one round.

  \<open>exec\<close> runs a schedule, which gives concrete reachable clusters.
\<close>

record 'c cluster =
  cl_servers :: "'c OmniPaxos list"
  cl_net :: "'c calls"

definition cluster_init :: "nat \<Rightarrow> 'c cluster \<Rightarrow> bool" where
  "cluster_init n s \<longleftrightarrow> cl_net s = []
     \<and> length (cl_servers s) = n \<and> (\<forall>i < n. Make n (int i) MakePersister = Inr (cl_servers s ! i))"

definition put_server :: "'c cluster \<Rightarrow> nat \<Rightarrow> 'c OmniPaxos \<Rightarrow> 'c calls \<Rightarrow> 'c cluster" where
  "put_server s i op ms = s\<lparr>cl_servers := (cl_servers s)[i := op], cl_net := cl_net s @ ms\<rparr>"

inductive cluster_step :: "'c cluster \<Rightarrow> 'c cluster \<Rightarrow> bool" where
  cs_deliver: "i < length (cl_servers s) \<Longrightarrow> (int i, m) \<in> set (cl_net s) \<Longrightarrow> range_order rng
    \<Longrightarrow> handle rng (cl_servers s ! i) m = Inr (op', ms) \<Longrightarrow> cluster_step s (put_server s i op' ms)"
| cs_timer: "i < length (cl_servers s) \<Longrightarrow> startTimer (cl_servers s ! i) = Inr (op', ms)
    \<Longrightarrow> cluster_step s (put_server s i op' ms)"
| cs_propose: "i < length (cl_servers s) \<Longrightarrow> Proposal (cl_servers s ! i) c = Inr ((op', ms), r)
    \<Longrightarrow> cluster_step s (put_server s i op' ms)"
| cs_restart: "i < length (cl_servers s) \<Longrightarrow> op = cl_servers s ! i
    \<Longrightarrow> Make (op_peers op) (op_me op) (Copy (op_persister op)) = Inr op'
    \<Longrightarrow> cluster_step s (put_server s i op' [])"

abbreviation cluster_reach :: "nat \<Rightarrow> 'c cluster \<Rightarrow> bool" where
  "cluster_reach n \<equiv> reach (cluster_init n) cluster_step"

subsection \<open>Schedules\<close>

datatype 'c action = Deliver nat | Tick nat | Propose nat 'c | Restart nat

definition initial :: "nat \<Rightarrow> 'c cluster" where
  "initial n = \<lparr>cl_servers = map (\<lambda>i. freshServer n (int i) MakePersister zero_os) [0..<n], cl_net = []\<rparr>"

definition settle :: "'c cluster \<Rightarrow> nat \<Rightarrow> 'c outcome \<Rightarrow> 'c cluster option" where
  "settle s i out = (case out of Inl _ \<Rightarrow> None | Inr (op', ms) \<Rightarrow> Some (put_server s i op' ms))"

fun exec :: "'c cluster \<Rightarrow> 'c action \<Rightarrow> 'c cluster option" where
  "exec s (Deliver k) =
     (if k < length (cl_net s) \<and> 0 \<le> fst (cl_net s ! k) \<and> nat (fst (cl_net s ! k)) < length (cl_servers s)
      then settle s (nat (fst (cl_net s ! k)))
             (handle id (cl_servers s ! nat (fst (cl_net s ! k))) (snd (cl_net s ! k)))
      else None)"
| "exec s (Tick i) = (if i < length (cl_servers s) then settle s i (startTimer (cl_servers s ! i)) else None)"
| "exec s (Propose i c) =
     (if i < length (cl_servers s)
      then settle s i (res_bind (Proposal (cl_servers s ! i) c) (\<lambda>(out, _). Inr out)) else None)"
| "exec s (Restart i) =
     (if i < length (cl_servers s)
      then settle s i (res_bind (Make (op_peers (cl_servers s ! i)) (op_me (cl_servers s ! i))
                                   (Copy (op_persister (cl_servers s ! i)))) (\<lambda>op'. Inr (op', [])))
      else None)"

fun run :: "'c cluster \<Rightarrow> 'c action list \<Rightarrow> 'c cluster option" where
  "run s [] = Some s"
| "run s (a # as) = (case exec s a of None \<Rightarrow> None | Some t \<Rightarrow> run t as)"

lemma settle_Some: "settle s i out = Some t \<longleftrightarrow> (\<exists>op' ms. out = Inr (op', ms) \<and> t = put_server s i op' ms)"
  by (auto simp: settle_def split: sum.splits)

lemma exec_sound: "exec s a = Some t \<Longrightarrow> cluster_step s t"
proof (cases a)
  case (Deliver k)
  assume e: "exec s a = Some t"
  let ?d = "fst (cl_net s ! k)"
  from e Deliver have k: "k < length (cl_net s)" "0 \<le> ?d" "nat ?d < length (cl_servers s)"
    by (auto split: if_splits)
  with e Deliver obtain op' ms where
    h: "handle id (cl_servers s ! nat ?d) (snd (cl_net s ! k)) = Inr (op', ms)"
    "t = put_server s (nat ?d) op' ms" by (auto simp: settle_Some)
  from k have "(int (nat ?d), snd (cl_net s ! k)) \<in> set (cl_net s)" by simp
  from cs_deliver [OF k(3) this range_order_id h(1)] h(2) show ?thesis by simp
qed (auto simp: settle_Some intro: cluster_step.intros split: if_splits)

lemma initial_init: "cluster_init n (initial n)"
  by (simp add: cluster_init_def initial_def Make_fresh)

lemma run_reach: "run s as = Some t \<Longrightarrow> cluster_reach n s \<Longrightarrow> cluster_reach n t"
  by (induction s as rule: run.induct) (auto split: option.splits intro: reach_step exec_sound)

lemma run_initial: "run (initial n) as = Some t \<Longrightarrow> cluster_reach n t"
  by (erule run_reach) (rule reach_init, rule initial_init)

subsection \<open>Where requests come from\<close>

fun sender :: "'c rpc \<Rightarrow> int" where
  "sender (PrepareRequest l b a i d) = l"
| "sender (PromiseRequest f b a i d s) = f"
| "sender (AcceptSyncRequest l b s i) = l"
| "sender (DecideRequest l b d) = l"
| "sender (AcceptedRequest f b i) = f"
| "sender (AcceptRequest l b i c) = l"
| "sender (PrepareReqRequest f) = f"
| "sender (ReconnectedRequest f) = f"
| "sender (HBRequest f r) = f"
| "sender (HBResponse f r h) = f"

text \<open>What the state of its sender says of a request, at the time it is sent and ever after.\<close>

fun origin_ok :: "'c OmniPaxos \<Rightarrow> 'c rpc \<Rightarrow> bool" where
  "origin_ok op (PrepareRequest l b a i d) \<longleftrightarrow> ballot_Pid b = l \<and> b \<le> promised op"
| "origin_ok op (PromiseRequest f b a i d s) \<longleftrightarrow> b \<le> promised op \<and> a \<le> b \<and> d \<le> decidedIdx op"
| "origin_ok op (AcceptSyncRequest l b s i) \<longleftrightarrow> ballot_Pid b = l \<and> b \<le> acceptedRnd op"
| "origin_ok op (DecideRequest l b d) \<longleftrightarrow> ballot_Pid b = l \<and> b \<le> acceptedRnd op \<and> d \<le> decidedIdx op"
| "origin_ok op (AcceptedRequest f b i) \<longleftrightarrow> b \<le> acceptedRnd op"
| "origin_ok op (AcceptRequest l b i c) \<longleftrightarrow> ballot_Pid b = l \<and> b \<le> acceptedRnd op"
| "origin_ok op (PrepareReqRequest f) \<longleftrightarrow> True"
| "origin_ok op (ReconnectedRequest f) \<longleftrightarrow> True"
| "origin_ok op (HBRequest f r) \<longleftrightarrow> True"
| "origin_ok op (HBResponse f r h) \<longleftrightarrow> True"

lemma origin_ok_advances: "origin_ok op m \<Longrightarrow> advances op op' \<Longrightarrow> origin_ok op' m"
  by (cases m) (auto simp: advances_def)

definition issued :: "'c OmniPaxos \<Rightarrow> 'c calls \<Rightarrow> bool" where
  "issued op ms \<longleftrightarrow> (\<forall>(d, m) \<in> set ms. sender m = op_me op \<and> origin_ok op m)"

lemma issued_simps [simp]:
  "issued op []"
  "issued op ((d, m) # ms) \<longleftrightarrow> sender m = op_me op \<and> origin_ok op m \<and> issued op ms"
  "issued op (ms @ ms') \<longleftrightarrow> issued op ms \<and> issued op ms'"
  by (auto simp: issued_def)

lemma issued_map: "(\<And>x. x \<in> set xs \<Longrightarrow> sender (h x) = op_me op \<and> origin_ok op (h x))
    \<Longrightarrow> issued op (map (\<lambda>x. (g x, h x)) xs)"
  by (auto simp: issued_def)

lemma issued_later: "issued op ms \<Longrightarrow> advances op op' \<Longrightarrow> op_me op' = op_me op \<Longrightarrow> issued op' ms"
  by (auto simp: issued_def intro: origin_ok_advances)

lemma updateMissed_issued:
  assumes "updateMissedHbsAndReconnect op = Inr (op', ms)"
  shows "issued op ms"
  using assms by (rule updateMissed_Inr) (auto simp: issued_def dest!: missedLoop_mem)

lemma checkLeader_issued:
  assumes inv: "server_inv op" and res: "checkLeader op = Inr (op', ms)"
  shows "issued op' ms"
proof -
  have d: "0 \<le> decidedIdx op" using inv by (simp add: server_inv_def server_ok_def)
  have "issued (newLeader op1 n) (prepareCalls op1 n)" if "ballot_Pid n = op_me op1" for op1 :: "'a OmniPaxos" and n
    unfolding prepareCalls_def by (rule issued_map) (use that in simp)
  with d res show ?thesis
    by (auto simp: checkLeader_def Let_def triggerLeader_eq split: if_splits)
qed

lemma startTimer_issued:
  assumes inv: "server_inv op" and res: "startTimer op = Inr (op', ms)"
  shows "issued op' ms"
  using res
proof (rule startTimer_Inr)
  fix op1 op2 ms2 op3 ms3
  assume 1: "op1 = op\<lparr>op_ballots := mput (op_b op) (op_qc op) (op_ballots op)\<rparr>"
    and 2: "(if majority (op_peers op1) \<le> length (op_ballots op1) then checkLeader op1
             else Inr (op1\<lparr>op_qc := False\<rparr>, [])) = Inr (op2, ms2)"
    and 3: "updateMissedHbsAndReconnect op2 = Inr (op3, ms3)"
    and 4: "op' = op3\<lparr>op_ballots := [], op_r := op_r op3 + 1\<rparr>"
      "ms = ms2 @ ms3 @ map (\<lambda>p. (p, HBRequest (op_me op') (op_r op'))) (other_peers op')"
  have inv1: "server_inv op1"
    using inv 1 by (simp add: server_inv_def server_ok_def rounds_ok_def applied_ok_def)
  have i2: "issued op2 ms2"
    using 2 checkLeader_issued [OF inv1] by (auto split: if_splits)
  have i3: "issued op2 ms3" by (rule updateMissed_issued [OF 3])
  from 3 4(1) have "advances op2 op'" "op_me op' = op_me op2"
    by (auto elim!: updateMissed_Inr simp: advances_def)
  with i2 i3 4(2) show ?thesis by (auto intro: issued_later issued_map)
qed

lemma Proposal_issued:
  assumes "server_inv op" and "Proposal op c = Inr ((op', ms), r)"
  shows "issued op' ms"
  using assms
  by (auto simp: Proposal_def Let_def stopped_def server_inv_def rounds_ok_def intro!: issued_map split: if_splits)

lemma sync_issued:
  assumes "go_mapM (syncTo op n mx) ps = Inr ms" and "ballot_Pid n = op_me op" and "n \<le> acceptedRnd op"
  shows "issued op ms"
  unfolding issued_def
proof clarify
  fix d m
  assume "(d, m) \<in> set ms"
  with assms(1) obtain p where "syncTo op n mx p = Inr (d, m)" by (auto elim!: go_mapM_Inr_mem)
  with assms(2,3) show "sender m = op_me op \<and> origin_ok op m" by (auto simp: syncTo_def Let_def)
qed

lemma issued_persist [simp]: "issued (persist op) ms = issued op ms"
proof -
  have "origin_ok (persist op) m = origin_ok op m" for m by (cases m) simp_all
  then show ?thesis by (simp add: issued_def)
qed

lemma PromiseHandler_issued:
  assumes inv: "server_inv op" and res: "PromiseHandler rng op f n a i d s = Inr (op', ms)"
  shows "issued op' ms"
  using res
proof (cases rule: PromiseHandler_Inr)
  case (sync op1 mx op2)
  with inv have "ballot_Pid n = op_me op2" "n \<le> acceptedRnd op2"
    by (auto simp: adoptPromise_Inr server_inv_def rounds_ok_def)
  with sync(7,8) show ?thesis by (simp add: sync_issued)
next
  case (late op1 mx syncIdx sfx)
  with inv show ?thesis by (auto simp: server_inv_def rounds_ok_def)
qed auto

lemma handle_issued:
  assumes inv: "server_inv op" and res: "handle rng op m = Inr (op', ms)"
  shows "issued op' ms"
proof (cases m)
  case (PromiseRequest f n a i d s)
  with res inv show ?thesis by (auto intro: PromiseHandler_issued)
next
  case (AcceptedRequest f n i)
  with res inv show ?thesis
    by (auto elim!: AcceptedHandler_Inr simp: server_inv_def rounds_ok_def intro!: issued_map simp del: map_map)
next
  case (DecideRequest l n d)
  with res show ?thesis by (auto elim!: DecideHandler_Inr)
qed (use res inv in \<open>auto simp: handler_defs Let_def server_inv_def rounds_ok_def split: if_splits\<close>)

subsection \<open>What a leader counts was really sent\<close>

definition acked :: "'c calls \<Rightarrow> Ballot \<Rightarrow> int \<Rightarrow> int \<Rightarrow> bool" where
  "acked net b d f \<longleftrightarrow> f = ballot_Pid b \<or> (\<exists>i \<ge> d. (ballot_Pid b, AcceptedRequest f b i) \<in> set net)"

text \<open>Index \<open>d\<close> is backed by a majority that acknowledged it in one round.\<close>

definition chosen :: "nat \<Rightarrow> 'c calls \<Rightarrow> int \<Rightarrow> bool" where
  "chosen n net d \<longleftrightarrow> (\<exists>b Q. is_quorum n Q \<and> (\<forall>f \<in> Q. acked net b d f))"

definition promises_sent :: "'c calls \<Rightarrow> 'c OmniPaxos \<Rightarrow> bool" where
  "promises_sent net op \<longleftrightarrow> (\<forall>(f, p) \<in> set (op_promises op). f = op_me op
     \<or> (op_me op, PromiseRequest f (op_currentRnd op) (p_accRnd p) (p_logIdx p) (p_decIdx p) (p_log p)) \<in> set net)"

definition accepted_sent :: "'c calls \<Rightarrow> 'c OmniPaxos \<Rightarrow> bool" where
  "accepted_sent net op \<longleftrightarrow> (\<forall>f < op_peers op. op_accepted op ! f = 0 \<or> int f = op_me op
     \<or> (op_me op, AcceptedRequest (int f) (promised op) (op_accepted op ! f)) \<in> set net)"

definition evidence :: "nat \<Rightarrow> 'c calls \<Rightarrow> 'c OmniPaxos \<Rightarrow> bool" where
  "evidence n net op \<longleftrightarrow> promises_sent net op
     \<and> (leads op \<longrightarrow> accepted_sent net op)
     \<and> (in_state op LEADER ACCEPT \<longrightarrow> majority n \<le> length (op_promises op))
     \<and> (decidedIdx op = 0 \<or> chosen n net (decidedIdx op))"

fun chosen_msg :: "nat \<Rightarrow> 'c calls \<Rightarrow> 'c rpc \<Rightarrow> bool" where
  "chosen_msg n net (DecideRequest l b d) \<longleftrightarrow> d = 0 \<or> chosen n net d"
| "chosen_msg n net _ \<longleftrightarrow> True"

lemma chosen_mono: "chosen n net d \<Longrightarrow> set net \<subseteq> set net' \<Longrightarrow> chosen n net' d"
  unfolding chosen_def acked_def by blast

lemma chosen_msg_mono: "chosen_msg n net m \<Longrightarrow> set net \<subseteq> set net' \<Longrightarrow> chosen_msg n net' m"
  by (cases m) (auto intro: chosen_mono)

lemma evidence_mono: "evidence n net op \<Longrightarrow> set net \<subseteq> set net' \<Longrightarrow> evidence n net' op"
  unfolding evidence_def promises_sent_def accepted_sent_def by (fast intro: chosen_mono)

lemma evidence_frame:
  assumes "evidence n net op" and "op_promises op' = op_promises op" "op_currentRnd op' = op_currentRnd op"
    and "op_me op' = op_me op" "op_peers op' = op_peers op"
    and "leads op' \<Longrightarrow> leads op \<and> op_accepted op' = op_accepted op \<and> promised op' = promised op"
    and "in_state op' LEADER ACCEPT \<Longrightarrow> in_state op LEADER ACCEPT"
    and "decidedIdx op' = decidedIdx op \<or> chosen n net (decidedIdx op')"
  shows "evidence n net op'"
  using assms by (auto simp: evidence_def promises_sent_def accepted_sent_def)

lemma evidence_newLeader:
  assumes "evidence n net op" and "server_ok op" and "op_peers op = n" and "op_peers op1 = op_peers op"
    and "op_me op1 = op_me op" "op_accepted op1 = op_accepted op" "decidedIdx op1 = decidedIdx op"
  shows "evidence n net (newLeader op1 b)"
  using assms by (auto simp: evidence_def promises_sent_def accepted_sent_def server_ok_def)

lemma evidence_storePromise:
  assumes "evidence n net op" and "(op_me op, PromiseRequest f (op_currentRnd op) a i d s) \<in> set net"
  shows "evidence n net (storePromise op f a i d s)"
proof -
  have "majority n \<le> length (op_promises op) \<Longrightarrow> majority n \<le> length (mput f v (op_promises op))" for v
    by (rule le_trans [OF _ length_mput_le])
  with assms show ?thesis
    by (auto simp: evidence_def promises_sent_def accepted_sent_def storePromise_def
        dest!: set_mput_subset)
qed

lemma accepted_sent_set:
  assumes "accepted_sent net op" and "length (op_accepted op) = op_peers op" and "0 \<le> f"
    and "f = op_me op \<or> (op_me op, AcceptedRequest f (promised op) v) \<in> set net"
    and "op_accepted op' = (op_accepted op)[nat f := v]"
    and "op_peers op' = op_peers op" "op_me op' = op_me op" "promised op' = promised op"
  shows "accepted_sent net op'"
  unfolding accepted_sent_def
proof (intro allI impI)
  fix k
  assume k: "k < op_peers op'"
  show "op_accepted op' ! k = 0 \<or> int k = op_me op'
    \<or> (op_me op', AcceptedRequest (int k) (promised op') (op_accepted op' ! k)) \<in> set net"
  proof (cases "int k = f")
    case True
    then show ?thesis using assms k by auto
  next
    case False
    then have "op_accepted op' ! k = op_accepted op ! k" using assms(3,5) by auto
    with k assms show ?thesis by (auto simp: accepted_sent_def)
  qed
qed

lemma evidence_checkLeader:
  assumes ev: "evidence n net op" and ok: "server_ok op" and n: "op_peers op = n"
    and res: "checkLeader op = Inr (op', ms)"
  shows "evidence n net op'"
proof -
  have d: "0 \<le> decidedIdx op" using ok by (simp add: server_ok_def)
  let ?mx = "max_ballot (filter snd (op_ballots op))"
  let ?op1 = "persist (op\<lparr>op_os := (op_os op)\<lparr>os_L := ?mx\<rparr>\<rparr>)"
  consider "op' = op\<lparr>op_b := increment (op_b op) (ballot_N (os_L (op_os op))), op_qc := True\<rparr>" | "op' = op"
    | "op' = newLeader ?op1 ?mx" | "op' = ?op1\<lparr>op_state := (op_state op)\<lparr>role := FOLLOWER\<rparr>\<rparr>"
    using res d by (auto simp: checkLeader_def Let_def triggerLeader_eq split: if_splits)
  then show ?thesis
  proof cases
    case 3
    then show ?thesis by (simp add: evidence_newLeader [OF ev ok n])
  qed (auto intro: evidence_frame [OF ev] simp: ev)
qed

lemma evidence_startTimer:
  assumes ev: "evidence n net op" and ok: "server_ok op" and n: "op_peers op = n"
    and res: "startTimer op = Inr (op', ms)"
  shows "evidence n net op'"
  using res
proof (rule startTimer_Inr)
  fix op1 op2 ms2 op3 ms3
  assume 1: "op1 = op\<lparr>op_ballots := mput (op_b op) (op_qc op) (op_ballots op)\<rparr>"
    and 2: "(if majority (op_peers op1) \<le> length (op_ballots op1) then checkLeader op1
             else Inr (op1\<lparr>op_qc := False\<rparr>, [])) = Inr (op2, ms2)"
    and 3: "updateMissedHbsAndReconnect op2 = Inr (op3, ms3)"
    and 4: "op' = op3\<lparr>op_ballots := [], op_r := op_r op3 + 1\<rparr>"
  have 5: "evidence n net op1" by (rule evidence_frame [OF ev]) (auto simp: 1)
  have "server_ok op1" using ok by (simp add: 1 server_ok_def)
  from evidence_checkLeader [OF 5 this] have "checkLeader op1 = Inr (op2, ms2) \<Longrightarrow> evidence n net op2"
    using n 1 by simp
  moreover have "evidence n net (op1\<lparr>op_qc := False\<rparr>)" by (rule evidence_frame [OF 5]) auto
  ultimately have 6: "evidence n net op2" using 2 by (auto split: if_splits)
  from 3 show ?thesis
    by (rule updateMissed_Inr) (rule evidence_frame [OF 6], simp_all add: 4)
qed

lemma evidence_Proposal:
  assumes ev: "evidence n net op" and ok: "server_ok op" and res: "Proposal op c = Inr ((op', ms), r)"
  shows "evidence n net op'"
proof (cases "in_state op LEADER ACCEPT")
  case True
  then have 1: "op_promises op' = op_promises op" "op_currentRnd op' = op_currentRnd op"
    "op_me op' = op_me op" "op_peers op' = op_peers op" "op_state op' = op_state op"
    "promised op' = promised op" "decidedIdx op' = decidedIdx op"
    "op_accepted op' = (op_accepted op)[nat (op_me op) := int (length (oplog op)) + 1]"
    using res by (auto simp: Proposal_def Let_def stopped_def go_set_Inr add.commute)
  have "accepted_sent net op" using ev True by (simp add: evidence_def)
  then have "accepted_sent net op'"
    by (rule accepted_sent_set [OF _ _ _ _ 1(8)]) (use ok 1 in \<open>auto simp: server_ok_def\<close>)
  with ev 1 show ?thesis by (simp add: evidence_def promises_sent_def)
next
  case False
  with res have "op_promises op' = op_promises op" "op_currentRnd op' = op_currentRnd op"
    "op_me op' = op_me op" "op_peers op' = op_peers op" "op_state op' = op_state op"
    "op_os op' = op_os op" "op_accepted op' = op_accepted op"
    by (auto simp: Proposal_def Let_def stopped_def split: if_splits)
  then show ?thesis by (intro evidence_frame [OF ev]) simp_all
qed

lemma evidence_persist [simp]: "evidence n net (persist op) = evidence n net op"
  by (simp add: evidence_def promises_sent_def accepted_sent_def)

lemma evidence_adoptPromise:
  assumes ev: "evidence n net op" and ok: "server_ok op" and lead: "leads op"
    and maj: "majority n \<le> length (op_promises op)" and res: "adoptPromise op mx = Inr op'"
  shows "evidence n net op'"
proof -
  have 1: "op_promises op' = op_promises op" "op_currentRnd op' = op_currentRnd op"
    "op_me op' = op_me op" "op_peers op' = op_peers op"
    "promised op' = promised op" "decidedIdx op' = decidedIdx op"
    "op_accepted op' = (op_accepted op)[nat (op_me op) := int (length (adoptedLog op mx))]"
    using res by (auto simp: adoptPromise_Inr)
  have "accepted_sent net op" using ev lead by (simp add: evidence_def)
  then have "accepted_sent net op'"
    by (rule accepted_sent_set [OF _ _ _ _ 1(7)]) (use ok 1 in \<open>auto simp: server_ok_def\<close>)
  with ev maj 1 show ?thesis by (simp add: evidence_def promises_sent_def)
qed

lemma evidence_PromiseHandler:
  assumes ev: "evidence n net op" and ok: "server_ok op" and rng: "range_order rng" and n: "op_peers op = n"
    and req: "rpc_ok n (PromiseRequest f b a i d s)" "(op_me op, PromiseRequest f b a i d s) \<in> set net"
    and res: "PromiseHandler rng op f b a i d s = Inr (op', ms)"
  shows "evidence n net op' \<and> (\<forall>(dst, m) \<in> set ms. chosen_msg n net m)"
  using res
proof (cases rule: PromiseHandler_Inr)
  case (sync op1 mx op2)
  have ev1: "evidence n net op1" using evidence_storePromise [OF ev] req(2) sync by simp
  have ok1: "server_ok op1" using server_ok_storePromise [OF ok] req(1) n sync by simp
  have "evidence n net op2"
    by (rule evidence_adoptPromise [OF ev1 ok1 _ _ sync(6)]) (use sync n in auto)
  moreover have "chosen_msg n net m" if "(dst, m) \<in> set ms" for dst m
    using sync(7) that by (auto elim!: go_mapM_Inr_mem simp: syncTo_def Let_def)
  ultimately show ?thesis using sync(8) by auto
next
  case (late op1 mx syncIdx sfx)
  with ev req(2) have "evidence n net op'" by (simp add: evidence_storePromise)
  with late ev show ?thesis by (auto simp: evidence_def)
qed (use ev req(2) in \<open>auto simp: evidence_storePromise\<close>)

lemma majority_acked:
  assumes "accepted_sent net op" and "length (op_accepted op) = op_peers op" and "0 < d"
    and "hasMajorityAccepted op d" and "ballot_Pid (promised op) = op_me op"
  shows "chosen (op_peers op) net d"
proof -
  let ?K = "{k. k < length (op_accepted op) \<and> d \<le> op_accepted op ! k}" and ?n = "op_peers op"
  have "majority ?n \<le> card ?K"
    using assms(4) by (simp add: hasMajorityAccepted_def length_filter_conv_card)
  also have "\<dots> = card (int ` ?K)" by (simp add: card_image)
  finally have "is_quorum ?n (int ` ?K)" using assms(2) by (auto simp: is_quorum_def)
  moreover have "acked net (promised op) d f" if "f \<in> int ` ?K" for f
    using that assms by (fastforce simp: acked_def accepted_sent_def)
  ultimately show ?thesis unfolding chosen_def by blast
qed

lemma evidence_AcceptedHandler:
  assumes ev: "evidence n net op" and inv: "server_inv op" and n: "op_peers op = n"
    and req: "(op_me op, AcceptedRequest f b i) \<in> set net"
    and res: "AcceptedHandler op f b i = Inr (op', ms)"
  shows "evidence n net op' \<and> (\<forall>(dst, m) \<in> set ms. chosen_msg n net m)"
proof -
  have ok: "length (op_accepted op) = op_peers op" "0 \<le> decidedIdx op"
    using inv by (simp_all add: server_inv_def server_ok_def)
  have sent: "accepted_sent net (op\<lparr>op_accepted := (op_accepted op)[nat f := i]\<rparr>)"
    if "in_state op LEADER ACCEPT" "promised op = b" "0 \<le> f"
    by (rule accepted_sent_set [of net op f i]) (use ev ok that req in \<open>auto simp: evidence_def\<close>)
  from res show ?thesis
  proof (cases rule: AcceptedHandler_Inr)
    case ignored
    then show ?thesis using ev by simp
  next
    case (count acc)
    with sent ev show ?thesis by (simp add: evidence_def promises_sent_def)
  next
    case (decide acc)
    have pid: "ballot_Pid (promised op) = op_me op"
      using inv decide(2) by (simp add: server_inv_def rounds_ok_def)
    have a: "accepted_sent net (op\<lparr>op_accepted := acc\<rparr>)" using sent decide by simp
    have "chosen (op_peers (op\<lparr>op_accepted := acc\<rparr>)) net i"
      by (rule majority_acked [OF a]) (use decide pid ok in auto)
    then have c: "chosen n net i" using n by simp
    with a decide ev show ?thesis by (auto simp: evidence_def promises_sent_def accepted_sent_def)
  qed
qed

lemma evidence_DecideHandler:
  assumes ev: "evidence n net op" and "chosen_msg n net (DecideRequest l b d)"
    and res: "DecideHandler op l b d = Inr (op', ms)"
  shows "evidence n net op' \<and> (\<forall>(dst, m) \<in> set ms. chosen_msg n net m)"
  using res
proof (cases rule: DecideHandler_Inr)
  case decide
  then have "evidence n net op'"
    by (intro evidence_frame [OF ev]) (use assms(2) in auto)
  with decide show ?thesis by simp
qed (use ev in simp)

text \<open>The remaining handlers decide nothing and leave what a leader has counted alone.\<close>

lemma handle_quiet:
  assumes inv: "server_inv op" and res: "handle rng op m = Inr (op', ms)"
    and "\<And>f b a i d s. m \<noteq> PromiseRequest f b a i d s" "\<And>f b i. m \<noteq> AcceptedRequest f b i"
    "\<And>l b d. m \<noteq> DecideRequest l b d"
  shows "op_promises op' = op_promises op" "op_currentRnd op' = op_currentRnd op" "op_me op' = op_me op"
    "op_peers op' = op_peers op" "op_accepted op' = op_accepted op" "decidedIdx op' = decidedIdx op"
    "leads op' \<Longrightarrow> op_state op' = op_state op \<and> promised op' = promised op"
    "(dst, m') \<in> set ms \<Longrightarrow> chosen_msg n net m'"
  using assms
  by (cases m; auto simp: handler_defs Let_def split: if_splits; fail)+

lemma evidence_handle:
  assumes ev: "evidence n net op" and inv: "server_inv op" and rng: "range_order rng" and n: "op_peers op = n"
    and req: "rpc_ok n m" "(op_me op, m) \<in> set net" "chosen_msg n net m"
    and res: "handle rng op m = Inr (op', ms)"
  shows "evidence n net op' \<and> (\<forall>(dst, m) \<in> set ms. chosen_msg n net m)"
proof -
  consider f b a i d s where "m = PromiseRequest f b a i d s" | f b i where "m = AcceptedRequest f b i"
    | l b d where "m = DecideRequest l b d"
    | "\<And>f b a i d s. m \<noteq> PromiseRequest f b a i d s" "\<And>f b i. m \<noteq> AcceptedRequest f b i"
      "\<And>l b d. m \<noteq> DecideRequest l b d" by blast
  then show ?thesis
  proof cases
    case 1
    then show ?thesis
      using evidence_PromiseHandler [OF ev server_inv_ok [OF inv] rng n, of f b a i d s] req res by simp
  next
    case 2
    then show ?thesis using evidence_AcceptedHandler [OF ev inv n] req res by simp
  next
    case 3
    then show ?thesis using evidence_DecideHandler [OF ev] req res by simp
  next
    case 4
    note q = handle_quiet [OF inv res 4]
    have "evidence n net op'"
      by (rule evidence_frame [OF ev q(1-4)]) (use q in auto)
    with q(8) show ?thesis by blast
  qed
qed

text \<open>Only an acknowledgement or a late promise makes a leader announce a decision.\<close>

lemma startTimer_quiet:
  assumes ok: "server_ok op" and res: "startTimer op = Inr (op', ms)"
  shows "\<forall>(d, m) \<in> set ms. chosen_msg n net m"
  using res
proof (rule startTimer_Inr)
  fix op1 op2 ms2 op3 ms3
  assume 1: "op1 = op\<lparr>op_ballots := mput (op_b op) (op_qc op) (op_ballots op)\<rparr>"
    and 2: "(if majority (op_peers op1) \<le> length (op_ballots op1) then checkLeader op1
             else Inr (op1\<lparr>op_qc := False\<rparr>, [])) = Inr (op2, ms2)"
    and 3: "updateMissedHbsAndReconnect op2 = Inr (op3, ms3)"
    and 4: "ms = ms2 @ ms3 @ map (\<lambda>p. (p, HBRequest (op_me op') (op_r op'))) (other_peers op')"
  have "0 \<le> decidedIdx op1" using ok 1 by (simp add: server_ok_def)
  then have "\<forall>(d, m) \<in> set ms2. chosen_msg n net m"
    using 2 by (auto simp: checkLeader_def Let_def triggerLeader_eq dest!: prepareCalls_mem split: if_splits)
  moreover have "\<forall>(d, m) \<in> set ms3. chosen_msg n net m"
    using 3 by (rule updateMissed_Inr) (auto dest!: missedLoop_mem)
  ultimately show ?thesis using 4 by auto
qed

lemma Proposal_quiet: "Proposal op c = Inr ((op', ms), r) \<Longrightarrow> \<forall>(d, m) \<in> set ms. chosen_msg n net m"
  by (auto simp: Proposal_def Let_def stopped_def split: if_splits)

subsection \<open>Invariants of reachable clusters\<close>

definition cluster_ok :: "nat \<Rightarrow> 'c cluster \<Rightarrow> bool" where
  "cluster_ok n s \<longleftrightarrow> length (cl_servers s) = n \<and> calls_ok n (cl_net s)
     \<and> (\<forall>i < n. server_inv (cl_servers s ! i) \<and> op_me (cl_servers s ! i) = int i
                \<and> op_peers (cl_servers s ! i) = n)"

definition origins_ok :: "'c cluster \<Rightarrow> bool" where
  "origins_ok s \<longleftrightarrow> (\<forall>(d, m) \<in> set (cl_net s). origin_ok (cl_servers s ! nat (sender m)) m)"

definition evidence_ok :: "nat \<Rightarrow> 'c cluster \<Rightarrow> bool" where
  "evidence_ok n s \<longleftrightarrow> (\<forall>i < n. evidence n (cl_net s) (cl_servers s ! i))
     \<and> (\<forall>(d, m) \<in> set (cl_net s). chosen_msg n (cl_net s) m)"

lemma rpc_ok_sender: "rpc_ok n m \<Longrightarrow> 0 \<le> sender m \<and> nat (sender m) < n"
  by (cases m) auto

lemma calls_ok_mem: "calls_ok n ms \<Longrightarrow> (d, m) \<in> set ms \<Longrightarrow> rpc_ok n m"
  by (auto simp: calls_ok_def list_all_iff)

text \<open>Everything the three invariants need to know of one step.\<close>

lemma cluster_step_elim:
  assumes "cluster_step s t" and "cluster_ok n s"
  obtains i op op' ms where "i < n" "op = cl_servers s ! i" "t = put_server s i op' ms"
    "server_inv op'" "advances op op'" "op_me op' = int i" "op_peers op' = n" "calls_ok n ms" "issued op' ms"
    "evidence_ok n s \<Longrightarrow> evidence n (cl_net s) op' \<and> (\<forall>(d, m) \<in> set ms. chosen_msg n (cl_net s) m)"
  using assms(1)
proof cases
  case (cs_deliver i m rng op' ms)
  let ?op = "cl_servers s ! i"
  have op: "server_inv ?op" "op_me ?op = int i" "op_peers ?op = n" "i < n" "rpc_ok n m"
    using assms(2) cs_deliver by (auto simp: cluster_ok_def calls_ok_mem)
  then have st: "op_step ?op op' ms" using cs_deliver by (auto intro: step_handle)
  show ?thesis
  proof (rule that [OF op(4) refl cs_deliver(1)])
    show "evidence n (cl_net s) op' \<and> (\<forall>(d, m) \<in> set ms. chosen_msg n (cl_net s) m)" if "evidence_ok n s"
      by (rule evidence_handle [OF _ op(1) cs_deliver(4) op(3) op(5) _ _ cs_deliver(5)])
         (use that op cs_deliver in \<open>auto simp: evidence_ok_def\<close>)
  qed (use op st op_step_inv [OF st] op_step_keeps [OF st] op_step_ok [OF st] handle_issued [OF _ cs_deliver(5)]
       in \<open>auto simp: keeps_def sound_result_def server_inv_ok\<close>)
next
  case (cs_timer i op' ms)
  let ?op = "cl_servers s ! i"
  have op: "server_inv ?op" "op_me ?op = int i" "op_peers ?op = n" "i < n"
    using assms(2) cs_timer by (auto simp: cluster_ok_def)
  have st: "op_step ?op op' ms" using cs_timer by (auto intro: step_timer)
  show ?thesis
  proof (rule that [OF op(4) refl cs_timer(1)])
    show "evidence n (cl_net s) op' \<and> (\<forall>(d, m) \<in> set ms. chosen_msg n (cl_net s) m)" if "evidence_ok n s"
      using evidence_startTimer [OF _ _ op(3) cs_timer(3)] startTimer_quiet [OF _ cs_timer(3)] that op
      by (auto simp: evidence_ok_def server_inv_ok)
  qed (use op st op_step_inv [OF st] op_step_keeps [OF st] op_step_ok [OF st] startTimer_issued [OF _ cs_timer(3)]
       in \<open>auto simp: keeps_def sound_result_def server_inv_ok\<close>)
next
  case (cs_propose i c op' ms r)
  let ?op = "cl_servers s ! i"
  have op: "server_inv ?op" "op_me ?op = int i" "op_peers ?op = n" "i < n"
    using assms(2) cs_propose by (auto simp: cluster_ok_def)
  have st: "op_step ?op op' ms" using cs_propose by (auto intro: step_propose)
  show ?thesis
  proof (rule that [OF op(4) refl cs_propose(1)])
    show "evidence n (cl_net s) op' \<and> (\<forall>(d, m) \<in> set ms. chosen_msg n (cl_net s) m)" if "evidence_ok n s"
      using evidence_Proposal [OF _ _ cs_propose(3)] Proposal_quiet [OF cs_propose(3)] that op
      by (auto simp: evidence_ok_def server_inv_ok)
  qed (use op st op_step_inv [OF st] op_step_keeps [OF st] op_step_ok [OF st] Proposal_issued [OF _ cs_propose(3)]
       in \<open>auto simp: keeps_def sound_result_def server_inv_ok\<close>)
next
  case (cs_restart i op op')
  have op: "server_inv op" "op_me op = int i" "op_peers op = n" "i < n"
    using assms(2) cs_restart by (auto simp: cluster_ok_def)
  note r = Make_restart [OF op(1) cs_restart(4)]
  show ?thesis
  proof (rule that [OF op(4) cs_restart(3,1)])
    show "evidence n (cl_net s) op' \<and> (\<forall>(d, m) \<in> set []. chosen_msg n (cl_net s) m)" if "evidence_ok n s"
      using that op(4) r(3) cs_restart(3) by (auto simp: r(1) evidence_ok_def evidence_def promises_sent_def)
  qed (use op r in \<open>auto simp: advances_def\<close>)
qed

lemma put_server_simps [simp]:
  "cl_net (put_server s i op ms) = cl_net s @ ms"
  "cl_servers (put_server s i op ms) = (cl_servers s)[i := op]"
  by (simp_all add: put_server_def)

lemma cluster_init_server:
  "cluster_init n s \<Longrightarrow> i < n \<Longrightarrow> cl_servers s ! i = freshServer n (int i) MakePersister zero_os"
  by (simp add: cluster_init_def Make_fresh)

lemma cluster_ok_init: "cluster_init n s \<Longrightarrow> cluster_ok n s"
  using cluster_init_server [of n s] by (auto simp: cluster_ok_def Make_fresh_inv) (simp_all add: cluster_init_def)

lemma cluster_ok_step: "cluster_ok n s \<Longrightarrow> cluster_step s t \<Longrightarrow> cluster_ok n t"
  by (erule cluster_step_elim, assumption) (auto simp: cluster_ok_def nth_list_update)

interpretation ranges: inductive_invariant "cluster_init n" cluster_step "cluster_ok n" for n
  by unfold_locales (auto intro: cluster_ok_init cluster_ok_step)

lemma origins_ok_step:
  assumes ok: "cluster_ok n s" and orig: "origins_ok s" and st: "cluster_step s t"
  shows "origins_ok t"
  using st ok
proof (rule cluster_step_elim)
  fix i op op' ms
  assume i: "i < n" "op = cl_servers s ! i" "t = put_server s i op' ms" "advances op op'"
    "op_me op' = int i" "issued op' ms"
  have len: "length (cl_servers s) = n" using ok by (simp add: cluster_ok_def)
  have "origin_ok (cl_servers t ! nat (sender m)) m" if m: "(d, m) \<in> set (cl_net t)" for d m
  proof (cases "(d, m) \<in> set ms")
    case True
    with i len show ?thesis by (auto simp: issued_def)
  next
    case False
    with m i(3) have "(d, m) \<in> set (cl_net s)" by simp
    with orig have "origin_ok (cl_servers s ! nat (sender m)) m" by (auto simp: origins_ok_def)
    then show ?thesis using i len by (auto simp: nth_list_update intro: origin_ok_advances)
  qed
  then show ?thesis by (auto simp: origins_ok_def)
qed

lemma origins_ok_init: "cluster_init n s \<Longrightarrow> origins_ok s"
  by (simp add: cluster_init_def origins_ok_def)

interpretation origins: inductive_invariant "cluster_init n" cluster_step origins_ok for n
  by unfold_locales (auto intro: origins_ok_init origins_ok_step ranges.reach_inv)

lemma evidence_ok_step:
  assumes ok: "cluster_ok n s" and ev: "evidence_ok n s" and st: "cluster_step s t"
  shows "evidence_ok n t"
  using st ok
proof (rule cluster_step_elim)
  fix i op op' ms
  assume i: "i < n" "t = put_server s i op' ms"
    "evidence_ok n s \<Longrightarrow> evidence n (cl_net s) op' \<and> (\<forall>(d, m) \<in> set ms. chosen_msg n (cl_net s) m)"
  have len: "length (cl_servers s) = n" using ok by (simp add: cluster_ok_def)
  have sub: "set (cl_net s) \<subseteq> set (cl_net t)" using i by simp
  have "evidence n (cl_net t) (cl_servers t ! k)" if "k < n" for k
    by (rule evidence_mono [OF _ sub]) (use i ev len that in \<open>auto simp: nth_list_update evidence_ok_def\<close>)
  moreover have "chosen_msg n (cl_net t) m" if "(d, m) \<in> set (cl_net t)" for d m
    by (rule chosen_msg_mono [OF _ sub]) (use i ev that in \<open>auto simp: evidence_ok_def\<close>)
  ultimately show ?thesis by (auto simp: evidence_ok_def)
qed

lemma evidence_ok_init: "cluster_init n s \<Longrightarrow> evidence_ok n s"
  using cluster_init_server [of n s]
  by (auto simp: evidence_ok_def evidence_def promises_sent_def zero_os_def) (simp add: cluster_init_def)

interpretation counted: inductive_invariant "cluster_init n" cluster_step "evidence_ok n" for n
  by unfold_locales (auto intro: evidence_ok_init evidence_ok_step ranges.reach_inv)

lemmas reach_facts = ranges.reach_inv origins.reach_inv counted.reach_inv

subsection \<open>Rounds and decisions\<close>

definition leads_round :: "'c cluster \<Rightarrow> nat \<Rightarrow> Ballot \<Rightarrow> bool" where
  "leads_round s i b \<longleftrightarrow> leads (cl_servers s ! i) \<and> op_currentRnd (cl_servers s ! i) = b"

fun leader_round :: "'c rpc \<Rightarrow> Ballot option" where
  "leader_round (PrepareRequest l b a i d) = Some b"
| "leader_round (AcceptSyncRequest l b s i) = Some b"
| "leader_round (DecideRequest l b d) = Some b"
| "leader_round (AcceptRequest l b i c) = Some b"
| "leader_round _ = None"

lemma leader_round_origin: "origin_ok op m \<Longrightarrow> leader_round m = Some b \<Longrightarrow> ballot_Pid b = sender m"
  by (cases m) auto

text \<open>
  C1: rounds belong to servers.  In every reachable cluster, whatever the network loses, delays,
  reorders or duplicates and whichever servers crash and restart, two servers that lead the same
  round are the same server, and every request that only the leader of a round may send was sent
  by the server the round names.
\<close>

theorem one_leader_per_round:
  assumes "cluster_reach n s"
  shows "(\<forall>i j b. i < n \<and> j < n \<and> leads_round s i b \<and> leads_round s j b \<longrightarrow> i = j)
    \<and> (\<forall>d m b. (d, m) \<in> set (cl_net s) \<and> leader_round m = Some b \<longrightarrow> sender m = ballot_Pid b)"
proof -
  have ok: "cluster_ok n s" "origins_ok s" using assms by (auto intro: reach_facts)
  have "int i = ballot_Pid b" if "i < n" "leads_round s i b" for i b
    using ok(1) that by (auto simp: cluster_ok_def leads_round_def server_inv_def rounds_ok_def)
  then have "i = j" if "i < n" "j < n" "leads_round s i b" "leads_round s j b" for i j b
    using that by (metis of_nat_eq_iff)
  moreover have "sender m = ballot_Pid b" if "(d, m) \<in> set (cl_net s)" "leader_round m = Some b" for d m b
    using ok(2) that leader_round_origin by (fastforce simp: origins_ok_def)
  ultimately show ?thesis by blast
qed

lemma promised_quorum:
  assumes reach: "cluster_reach n s" and j: "j < n" and acc: "in_state (cl_servers s ! j) LEADER ACCEPT"
  shows "is_quorum n (fst ` set (op_promises (cl_servers s ! j)))"
    and "f \<in> fst ` set (op_promises (cl_servers s ! j)) \<Longrightarrow>
      op_currentRnd (cl_servers s ! j) \<le> promised (cl_servers s ! nat f)"
proof -
  let ?op = "cl_servers s ! j"
  have ok: "cluster_ok n s" "origins_ok s" "evidence_ok n s" using reach by (auto intro: reach_facts)
  have op: "server_inv ?op" "op_me ?op = int j" "op_peers ?op = n" "evidence n (cl_net s) ?op"
    using ok j by (auto simp: cluster_ok_def evidence_ok_def)
  have po: "promises_ok n (op_promises ?op)" using op by (auto simp: server_inv_def server_ok_def)
  then have "card (fst ` set (op_promises ?op)) = length (op_promises ?op)"
    by (metis distinct_card length_map promises_ok_def set_map)
  with op(4) acc po show "is_quorum n (fst ` set (op_promises ?op))"
    by (auto simp: is_quorum_def evidence_def promises_ok_def promise_ok_def)
  show "op_currentRnd ?op \<le> promised (cl_servers s ! nat f)" if f: "f \<in> fst ` set (op_promises ?op)"
  proof (cases "f = op_me ?op")
    case True
    with op acc show ?thesis by (auto simp: server_inv_def rounds_ok_def)
  next
    case False
    with f op(4) obtain a i d p where "(op_me ?op, PromiseRequest f (op_currentRnd ?op) a i d p) \<in> set (cl_net s)"
      by (fastforce simp: evidence_def promises_sent_def)
    with ok(2) show ?thesis by (fastforce simp: origins_ok_def)
  qed
qed

text \<open>
  C21: a leader that reached the accept phase of round \<open>b\<close> has cut off every older leader: in a
  cluster of odd size, every majority contains a server that has promised at least \<open>b\<close>, so no
  majority can still acknowledge an older round.
\<close>

theorem accept_phase_blocks_older_rounds:
  assumes "odd n" and "cluster_reach n s" and "j < n" and "in_state (cl_servers s ! j) LEADER ACCEPT"
    and "is_quorum n Q"
  shows "\<exists>f \<in> Q. op_currentRnd (cl_servers s ! j) \<le> promised (cl_servers s ! nat f)"
proof -
  note P = promised_quorum [OF assms(2-4)]
  from maj.quorum_common [OF assms(1) assms(5) P(1)] obtain f
    where "f \<in> Q" "f \<in> fst ` set (op_promises (cl_servers s ! j))" by blast
  with P(2) show ?thesis by blast
qed

text \<open>
  C22: nothing is decided without a majority.  Every index a server has decided, and every index
  announced in a \<open>Decide\<close> request, was acknowledged in one and the same round by a majority of
  the servers, counting the leader of that round itself.
\<close>

theorem decided_needs_majority:
  assumes "cluster_reach n s"
  shows "(\<forall>i < n. 0 < decidedIdx (cl_servers s ! i) \<longrightarrow> chosen n (cl_net s) (decidedIdx (cl_servers s ! i)))
    \<and> (\<forall>dst l b d. (dst, DecideRequest l b d) \<in> set (cl_net s) \<and> 0 < d \<longrightarrow> chosen n (cl_net s) d)"
  using counted.reach_inv [OF assms] by (fastforce simp: evidence_ok_def evidence_def)

text \<open>The messages on \<open>applyCh\<close> are numbered by their position, up to the decided index.\<close>

lemma applyCh_position:
  assumes "cluster_reach n s" and "i < n"
  shows "length (op_applyCh (cl_servers s ! i)) = nat (decidedIdx (cl_servers s ! i))"
    and "k < length (op_applyCh (cl_servers s ! i)) \<Longrightarrow> CommandIndex (op_applyCh (cl_servers s ! i) ! k) = int k"
proof -
  let ?op = "cl_servers s ! i"
  have "server_inv ?op" using reach_facts(1) [OF assms(1)] assms(2) by (simp add: cluster_ok_def)
  then have idx: "map CommandIndex (op_applyCh ?op) = [0..decidedIdx ?op - 1]"
    by (simp add: server_inv_def applied_ok_def)
  then show len: "length (op_applyCh ?op) = nat (decidedIdx ?op)" by (metis length_map length_upto add_0 diff_add_cancel diff_zero)
  show "CommandIndex (op_applyCh ?op ! k) = int k" if "k < length (op_applyCh ?op)"
  proof -
    have "CommandIndex (op_applyCh ?op ! k) = [0..decidedIdx ?op - 1] ! k" using that idx by (metis nth_map)
    also have "\<dots> = int k" using that len by (simp add: nth_upto)
    finally show ?thesis .
  qed
qed

subsection \<open>Concrete runs\<close>

text \<open>Server 2 of three learns the other ballots, raises its own and becomes the leader.\<close>

definition elect_2 :: "'c action list" where
  "elect_2 = [Tick 2, Deliver 1, Deliver 2, Tick 2, Deliver 6, Deliver 8, Tick 2, Deliver 9, Deliver 11,
     Tick 2, Deliver 12, Deliver 16, Deliver 18]"

text \<open>
  The first of two \<open>Accept\<close> requests is lost; every other request is delivered at most once.
\<close>

definition lost_accept :: "nat action list" where
  "lost_accept = elect_2 @ [Propose 2 7, Propose 2 8, Deliver 21, Deliver 22, Deliver 24]"

fun deliveries :: "'c action list \<Rightarrow> nat list" where
  "deliveries [] = []"
| "deliveries (Deliver k # as) = k # deliveries as"
| "deliveries (_ # as) = deliveries as"

definition lost_accept_end :: "nat cluster" where
  "lost_accept_end = the (run (initial 3) lost_accept)"

lemma lost_accept_run: "run (initial 3) lost_accept = Some lost_accept_end"
proof -
  have "run (initial 3) lost_accept \<noteq> None" by code_simp
  then show ?thesis by (simp add: lost_accept_end_def)
qed

lemmas lost_accept_reach = run_initial [OF lost_accept_run]

theorem one_leader_per_round_witness:
  "{i. i < 3 \<and> leads_round lost_accept_end i (Ballot 1 2)} = {2}"
proof -
  have 1: "leads_round lost_accept_end 2 (Ballot 1 2)" by code_simp
  have "i = 2" if "i < 3" "leads_round lost_accept_end i (Ballot 1 2)" for i
  proof -
    have "2 < (3 :: nat)" by simp
    with one_leader_per_round [OF lost_accept_reach] that 1 show ?thesis by blast
  qed
  with 1 show ?thesis by auto
qed

theorem accept_phase_blocks_older_rounds_witness:
  "\<exists>f \<in> {0, 1}. Ballot 1 2 \<le> promised (cl_servers lost_accept_end ! nat f)"
proof -
  have "in_state (cl_servers lost_accept_end ! 2) LEADER ACCEPT"
    "op_currentRnd (cl_servers lost_accept_end ! 2) = Ballot 1 2" by code_simp+
  moreover have "is_quorum 3 {0, 1}" by (simp add: is_quorum_def majority_def)
  ultimately show ?thesis
    using accept_phase_blocks_older_rounds [OF _ lost_accept_reach, of 2 "{0, 1}"] by simp
qed

theorem decided_needs_majority_witness: "chosen 3 (cl_net lost_accept_end) 1"
proof -
  have "decidedIdx (cl_servers lost_accept_end ! 2) = 1" by code_simp
  with decided_needs_majority [OF lost_accept_reach] show ?thesis by (metis less_numeral_extra(1) lessI numeral_2_eq_2 numeral_3_eq_3)
qed

text \<open>
  A single lost \<open>Accept\<close> breaks agreement.  \<open>AcceptHandler\<close> appends the command without
  comparing \<open>Idx\<close> with its log length, so a follower that missed the first of two commands stores
  the second one in its place, acknowledges length 1, and the leader decides index 0: the leader
  applies the first command there and the follower the second.
\<close>

lemma lost_accept_breaks_agreement:
  "run (initial 3) lost_accept = Some lost_accept_end
   \<and> cluster_reach 3 lost_accept_end \<and> distinct (deliveries lost_accept)
   \<and> op_applyCh (cl_servers lost_accept_end ! 2) = [\<lparr>CommandValid = True, Command = 7, CommandIndex = 0\<rparr>]
   \<and> op_applyCh (cl_servers lost_accept_end ! 0) = [\<lparr>CommandValid = True, Command = 8, CommandIndex = 0\<rparr>]"
proof (intro conjI)
  show "distinct (deliveries lost_accept)" by code_simp
  show "op_applyCh (cl_servers lost_accept_end ! 2) = [\<lparr>CommandValid = True, Command = 7, CommandIndex = 0\<rparr>]"
    by code_simp
  show "op_applyCh (cl_servers lost_accept_end ! 0) = [\<lparr>CommandValid = True, Command = 8, CommandIndex = 0\<rparr>]"
    by code_simp
qed (rule lost_accept_run lost_accept_reach)+

end
