(* ===== verification/Labrpc.thy ===== *)
theory Labrpc
  imports GoStrings "HOL-Library.Word"
begin

text \<open>
  The simulated network \<open>labrpc/labrpc.go\<close> that all servers talk through: end points, the table of
  servers, the fate of one request (\<open>processReq\<close>) and the dispatch to a method of a service.

  Arguments and replies are values; the lengths of their encodings, which the statistics add up, are
  arguments (\<open>nbytes\<close>, \<open>sz\<close>).  A method is a function of the argument and of the state \<open>'w\<close> of
  everything the handlers may touch; it may panic, which ends the process.  Server objects live in a heap, because \<open>isServerDead\<close> compares
  pointers.  \<open>processReq\<close> runs while the network changes: its arguments are the network when it starts,
  at each expiry of the 100 ms timer while the handler runs (\<open>polls\<close>), and after the wait (\<open>final\<close>), as
  the others leave it, the random numbers drawn, and whether the handler has returned.  The counter
  \<open>NumCalls\<close>, which only triggers a print, is left out.
\<close>

subsection \<open>Data\<close>

record ('e, 'a) reqMsg =
  q_endname :: 'e
  q_svcMeth :: string
  q_args :: 'a
  q_size :: int

record 'r replyMsg =
  rp_ok :: bool
  rp_reply :: "'r option"

text \<open>
  The end of the process: a run-time panic, a panic of \<open>reflect\<close> when a method is called with an argument
  of another type, or \<open>log.Fatalf\<close>.
\<close>

datatype rpc_stop = RPanic go_panic | RReflect | RFatal

record ('a, 'w, 'r) method_desc =
  md_name :: string
  md_PkgPath :: string
  md_NumIn :: nat
  md_In2Ptr :: bool
  md_NumOut :: nat
  md_Func :: "'a \<Rightarrow> 'w \<Rightarrow> rpc_stop + ('w \<times> 'r)"

record ('a, 'w, 'r) Service =
  svc_name :: string
  svc_methods :: "(string, 'a \<Rightarrow> 'w \<Rightarrow> rpc_stop + ('w \<times> 'r)) gomap"

record ('a, 'w, 'r) RpcServer =
  rs_services :: "(string, ('a, 'w, 'r) Service) gomap"
  rs_count :: int

record ('e, 'v, 'a, 'w, 'r) Network =
  rn_reliable :: bool
  rn_longDelays :: bool
  rn_longReordering :: bool
  rn_ends :: "('e, unit) gomap"
  rn_enabled :: "('e, bool) gomap"
  rn_servers :: "('v, nat option) gomap"
  rn_connections :: "('e, 'v option) gomap"
  rn_done :: bool
  rn_count :: "32 word"
  rn_bytes :: "64 word"
  rn_heap :: "(nat, ('a, 'w, 'r) RpcServer) gomap"

definition failed_reply :: "'r replyMsg" where
  "failed_reply = \<lparr>rp_ok = False, rp_reply = None\<rparr>"

subsection \<open>The network\<close>

definition MakeNetwork :: "('e, 'v, 'a, 'w, 'r) Network" where
  "MakeNetwork = \<lparr>rn_reliable = True, rn_longDelays = False, rn_longReordering = False, rn_ends = [], rn_enabled = [],
     rn_servers = [], rn_connections = [], rn_done = False, rn_count = 0, rn_bytes = 0, rn_heap = []\<rparr>"

text \<open>The goroutine of \<open>MakeNetwork\<close> takes a request from the channel.\<close>

definition acceptReq :: "('e, 'v, 'a, 'w, 'r) Network \<Rightarrow> ('e, 'a) reqMsg \<Rightarrow> ('e, 'v, 'a, 'w, 'r) Network" where
  "acceptReq rn req = rn\<lparr>rn_count := rn_count rn + 1, rn_bytes := rn_bytes rn + word_of_int (q_size req)\<rparr>"

definition Cleanup :: "('e, 'v, 'a, 'w, 'r) Network \<Rightarrow> ('e, 'v, 'a, 'w, 'r) Network" where
  "Cleanup rn = rn\<lparr>rn_done := True\<rparr>"

definition Reliable :: "('e, 'v, 'a, 'w, 'r) Network \<Rightarrow> bool \<Rightarrow> ('e, 'v, 'a, 'w, 'r) Network" where
  "Reliable rn yes = rn\<lparr>rn_reliable := yes\<rparr>"

definition LongReordering :: "('e, 'v, 'a, 'w, 'r) Network \<Rightarrow> bool \<Rightarrow> ('e, 'v, 'a, 'w, 'r) Network" where
  "LongReordering rn yes = rn\<lparr>rn_longReordering := yes\<rparr>"

definition LongDelays :: "('e, 'v, 'a, 'w, 'r) Network \<Rightarrow> bool \<Rightarrow> ('e, 'v, 'a, 'w, 'r) Network" where
  "LongDelays rn yes = rn\<lparr>rn_longDelays := yes\<rparr>"

definition MakeEnd :: "('e, 'v, 'a, 'w, 'r) Network \<Rightarrow> 'e \<Rightarrow> rpc_stop + ('e, 'v, 'a, 'w, 'r) Network" where
  "MakeEnd rn e =
     (if map_of (rn_ends rn) e \<noteq> None then Inl RFatal
      else Inr (rn\<lparr>rn_ends := mput e () (rn_ends rn), rn_enabled := mput e False (rn_enabled rn),
                   rn_connections := mput e None (rn_connections rn)\<rparr>))"

definition AddServer :: "('e, 'v, 'a, 'w, 'r) Network \<Rightarrow> 'v \<Rightarrow> nat \<Rightarrow> ('e, 'v, 'a, 'w, 'r) Network" where
  "AddServer rn name rs = rn\<lparr>rn_servers := mput name (Some rs) (rn_servers rn)\<rparr>"

definition DeleteServer :: "('e, 'v, 'a, 'w, 'r) Network \<Rightarrow> 'v \<Rightarrow> ('e, 'v, 'a, 'w, 'r) Network" where
  "DeleteServer rn name = rn\<lparr>rn_servers := mput name None (rn_servers rn)\<rparr>"

definition Connect :: "('e, 'v, 'a, 'w, 'r) Network \<Rightarrow> 'e \<Rightarrow> 'v \<Rightarrow> ('e, 'v, 'a, 'w, 'r) Network" where
  "Connect rn e name = rn\<lparr>rn_connections := mput e (Some name) (rn_connections rn)\<rparr>"

definition Enable :: "('e, 'v, 'a, 'w, 'r) Network \<Rightarrow> 'e \<Rightarrow> bool \<Rightarrow> ('e, 'v, 'a, 'w, 'r) Network" where
  "Enable rn e yes = rn\<lparr>rn_enabled := mput e yes (rn_enabled rn)\<rparr>"

definition GetTotalCount :: "('e, 'v, 'a, 'w, 'r) Network \<Rightarrow> int" where
  "GetTotalCount rn = sint (rn_count rn)"

definition GetTotalBytes :: "('e, 'v, 'a, 'w, 'r) Network \<Rightarrow> int" where
  "GetTotalBytes rn = sint (rn_bytes rn)"

definition readEndnameInfo :: "('e, 'v, 'a, 'w, 'r) Network \<Rightarrow> 'e \<Rightarrow> bool \<times> 'v option \<times> nat option \<times> bool \<times> bool" where
  "readEndnameInfo rn e =
     (let servername = mget0 None (rn_connections rn) e
      in (mget0 False (rn_enabled rn) e, servername,
          (case servername of Some name \<Rightarrow> mget0 None (rn_servers rn) name | None \<Rightarrow> None),
          rn_reliable rn, rn_longReordering rn))"

definition isServerDead :: "('e, 'v, 'a, 'w, 'r) Network \<Rightarrow> 'e \<Rightarrow> 'v \<Rightarrow> nat \<Rightarrow> bool" where
  "isServerDead rn e name server =
     (mget0 False (rn_enabled rn) e = False \<or> mget0 None (rn_servers rn) name \<noteq> Some server)"

subsection \<open>Servers and services\<close>

definition MakeServer :: "('a, 'w, 'r) RpcServer" where
  "MakeServer = \<lparr>rs_services = [], rs_count = 0\<rparr>"

definition AddService :: "('a, 'w, 'r) RpcServer \<Rightarrow> ('a, 'w, 'r) Service \<Rightarrow> ('a, 'w, 'r) RpcServer" where
  "AddService rs svc = rs\<lparr>rs_services := mput (svc_name svc) svc (rs_services rs)\<rparr>"

definition GetCount :: "('a, 'w, 'r) RpcServer \<Rightarrow> int" where
  "GetCount rs = rs_count rs"

definition NetGetCount :: "('e, 'v, 'a, 'w, 'r) Network \<Rightarrow> 'v \<Rightarrow> int go" where
  "NetGetCount rn name =
     (case Option.bind (mget0 None (rn_servers rn) name) (map_of (rn_heap rn)) of
        None \<Rightarrow> Inl NilDeref | Some rs \<Rightarrow> Inr (GetCount rs))"

text \<open>\<open>MakeService\<close> keeps the methods that look like handlers; \<open>typ\<close> lists the methods of the type.\<close>

definition MakeService :: "string \<Rightarrow> ('a, 'w, 'r) method_desc list \<Rightarrow> ('a, 'w, 'r) Service" where
  "MakeService name typ =
     \<lparr>svc_name = name,
      svc_methods = fold (\<lambda>m ms. if md_PkgPath m \<noteq> [] \<or> md_NumIn m \<noteq> 3 \<or> \<not> md_In2Ptr m \<or> md_NumOut m \<noteq> 0 then ms
                                 else mput (md_name m) (md_Func m) ms) typ []\<rparr>"

definition dispatchMethod :: "('a, 'w, 'r) Service \<Rightarrow> string \<Rightarrow> ('e, 'a) reqMsg \<Rightarrow> 'w \<Rightarrow> rpc_stop + ('w \<times> 'r replyMsg)" where
  "dispatchMethod svc methname req w =
     (case map_of (svc_methods svc) methname of
        Some f \<Rightarrow> res_bind (f (q_args req) w) (\<lambda>(w1, r). Inr (w1, \<lparr>rp_ok = True, rp_reply = Some r\<rparr>))
      | None \<Rightarrow> Inl RFatal)"

text \<open>\<open>strings.LastIndex(s, ".")\<close>\<close>

fun lastDot :: "string \<Rightarrow> int" where
  "lastDot [] = -1"
| "lastDot (c # cs) = (if lastDot cs \<ge> 0 then lastDot cs + 1 else if c = CHR ''.'' then 0 else -1)"

definition stop_panic :: "'a go \<Rightarrow> rpc_stop + 'a" where
  "stop_panic r = (case r of Inl p \<Rightarrow> Inl (RPanic p) | Inr a \<Rightarrow> Inr a)"

definition dispatch :: "('a, 'w, 'r) RpcServer \<Rightarrow> ('e, 'a) reqMsg \<Rightarrow> 'w
    \<Rightarrow> rpc_stop + (('a, 'w, 'r) RpcServer \<times> 'w \<times> 'r replyMsg)" where
  "dispatch rs req w =
     (let dot = lastDot (q_svcMeth req);
          rs1 = rs\<lparr>rs_count := rs_count rs + 1\<rparr>
      in res_bind (stop_panic (go_upto (q_svcMeth req) dot)) (\<lambda>serviceName.
         res_bind (stop_panic (go_from (q_svcMeth req) (dot + 1))) (\<lambda>methodName.
           case map_of (rs_services rs1) serviceName of
             Some svc \<Rightarrow> res_bind (dispatchMethod svc methodName req w) (\<lambda>(w1, rep). Inr (rs1, w1, rep))
           | None \<Rightarrow> Inl RFatal)))"

subsection \<open>One request\<close>

text \<open>
  The wait for the handler: \<open>Some True\<close> when its reply arrives, \<open>Some False\<close> when the server is
  found dead first, \<open>None\<close> while neither has happened.
\<close>

fun awaitHandler :: "('n \<Rightarrow> bool) \<Rightarrow> 'n list \<Rightarrow> bool \<Rightarrow> bool option" where
  "awaitHandler dead [] returned = (if returned then Some True else None)"
| "awaitHandler dead (rn # rns) returned = (if dead rn then Some False else awaitHandler dead rns returned)"

text \<open>
  The choices of one call: whether the send wins when the network is being destroyed, and the random
  numbers that decide whether the request and the reply are lost.
\<close>

record draws =
  dr_sent :: bool
  dr_request :: nat
  dr_reply :: nat

text \<open>What a request leaves in the network: its server has counted it, and the reply has been sent.\<close>

definition countReq :: "('e, 'v, 'a, 'w, 'r) Network \<Rightarrow> nat \<Rightarrow> ('e, 'v, 'a, 'w, 'r) Network" where
  "countReq rn p =
     rn\<lparr>rn_heap := (case map_of (rn_heap rn) p of
                     None \<Rightarrow> rn_heap rn
                   | Some rs \<Rightarrow> mput p (rs\<lparr>rs_count := rs_count rs + 1\<rparr>) (rn_heap rn))\<rparr>"

definition sendReply :: "('r \<Rightarrow> int) \<Rightarrow> 'r replyMsg \<Rightarrow> ('e, 'v, 'a, 'w, 'r) Network \<Rightarrow> ('e, 'v, 'a, 'w, 'r) Network" where
  "sendReply sz rep rn =
     rn\<lparr>rn_bytes := rn_bytes rn + word_of_int (case rp_reply rep of None \<Rightarrow> 0 | Some r \<Rightarrow> sz r)\<rparr>"

text \<open>
  The result is the network afterwards, the state the handlers leave, and the message put into the
  reply channel, \<open>None\<close> while there is none.  Delays only postpone that.
\<close>

definition processReq :: "('r \<Rightarrow> int) \<Rightarrow> ('e, 'v, 'a, 'w, 'r) Network \<Rightarrow> ('e, 'a) reqMsg \<Rightarrow> 'w \<Rightarrow> draws
    \<Rightarrow> ('e, 'v, 'a, 'w, 'r) Network list \<Rightarrow> bool \<Rightarrow> ('e, 'v, 'a, 'w, 'r) Network
    \<Rightarrow> rpc_stop + (('e, 'v, 'a, 'w, 'r) Network \<times> 'w \<times> 'r replyMsg option)" where
  "processReq sz rn req w dr polls returned final =
     (case readEndnameInfo rn (q_endname req) of
        (True, Some servername, Some server, reliable, _) \<Rightarrow>
          if reliable = False \<and> dr_request dr mod 1000 < 100 then Inr (final, w, Some failed_reply)
          else
            (case map_of (rn_heap rn) server of
               None \<Rightarrow> Inl (RPanic NilDeref)
             | Some rs \<Rightarrow>
                 res_bind (dispatch rs req w) (\<lambda>(_, w1, rep).
                   let after = countReq final server
                   in case awaitHandler (\<lambda>net. isServerDead net (q_endname req) servername server) polls returned of
                        None \<Rightarrow> Inr (after, w1, None)
                      | Some replyOK \<Rightarrow>
                          if replyOK = False \<or> isServerDead final (q_endname req) servername server
                          then Inr (after, w1, Some failed_reply)
                          else if reliable = False \<and> dr_reply dr mod 1000 < 100
                          then Inr (after, w1, Some failed_reply)
                          else Inr (sendReply sz rep after, w1, Some rep)))
      | _ \<Rightarrow> Inr (final, w, Some failed_reply))"

text \<open>
  \<open>ClientEnd.Call\<close>: \<open>Some (ok, reply)\<close> when it returns, with the decoded reply if there is one.
\<close>

definition Call :: "('r \<Rightarrow> int) \<Rightarrow> ('e, 'v, 'a, 'w, 'r) Network \<Rightarrow> 'e \<Rightarrow> string \<Rightarrow> 'a \<Rightarrow> int \<Rightarrow> 'w \<Rightarrow> draws
    \<Rightarrow> ('e, 'v, 'a, 'w, 'r) Network list \<Rightarrow> bool \<Rightarrow> ('e, 'v, 'a, 'w, 'r) Network
    \<Rightarrow> rpc_stop + (('e, 'v, 'a, 'w, 'r) Network \<times> 'w \<times> (bool \<times> 'r option) option)" where
  "Call sz rn e svcMeth args nbytes w dr polls returned final =
     (if rn_done rn \<and> \<not> dr_sent dr then Inr (final, w, Some (False, None))
      else
        let req = \<lparr>q_endname = e, q_svcMeth = svcMeth, q_args = args, q_size = nbytes\<rparr>
        in res_bind (processReq sz rn req w dr polls returned final) (\<lambda>(rn1, w1, rep).
             Inr (acceptReq rn1 req, w1, map_option (\<lambda>m. if rp_ok m then (True, rp_reply m) else (False, None)) rep)))"

subsection \<open>What a call does\<close>

text \<open>The method an end point reaches: nothing if it is disabled or its server is not there.\<close>

definition reaches :: "('e, 'v, 'a, 'w, 'r) Network \<Rightarrow> 'e \<Rightarrow> ('v \<times> nat \<times> ('a, 'w, 'r) RpcServer) option" where
  "reaches rn e =
     (if mget0 False (rn_enabled rn) e
      then Option.bind (mget0 None (rn_connections rn) e) (\<lambda>name.
             Option.bind (mget0 None (rn_servers rn) name) (\<lambda>p.
               map_option (\<lambda>rs. (name, p, rs)) (map_of (rn_heap rn) p)))
      else None)"

definition method_of :: "('a, 'w, 'r) RpcServer \<Rightarrow> string \<Rightarrow> ('a \<Rightarrow> 'w \<Rightarrow> rpc_stop + ('w \<times> 'r)) option" where
  "method_of rs svcMeth =
     (let dot = lastDot svcMeth
      in if dot < 0 then None
         else Option.bind (map_of (rs_services rs) (take (nat dot) svcMeth)) (\<lambda>svc.
                map_of (svc_methods svc) (drop (nat dot + 1) svcMeth)))"

text \<open>Every server in the table is in the heap.\<close>

definition net_ok :: "('e, 'v, 'a, 'w, 'r) Network \<Rightarrow> bool" where
  "net_ok rn \<longleftrightarrow> (\<forall>name p. map_of (rn_servers rn) name = Some (Some p) \<longrightarrow> map_of (rn_heap rn) p \<noteq> None)"

lemma lastDot_bounds: "- 1 \<le> lastDot s \<and> lastDot s < int (length s)"
  by (induction s) auto

lemma lastDot_none: "CHR ''.'' \<notin> set s \<Longrightarrow> lastDot s = -1"
  by (induction s) auto

lemma lastDot_append: "CHR ''.'' \<notin> set t \<Longrightarrow> lastDot (s @ CHR ''.'' # t) = int (length s)"
  by (induction s) (auto simp: lastDot_none)

lemma method_of_dot:
  "CHR ''.'' \<notin> set t \<Longrightarrow> method_of rs (s @ CHR ''.'' # t) =
     Option.bind (map_of (rs_services rs) s) (\<lambda>svc. map_of (svc_methods svc) t)"
  by (simp add: method_of_def lastDot_append)

text \<open>The methods \<open>MakeService\<close> keeps, when each method is given by its name.\<close>

lemma MakeService_methods:
  assumes "\<forall>m \<in> set descs. md_Func m = F (md_name m)"
  shows "map_of (svc_methods (MakeService name descs)) h =
     (if \<exists>m \<in> set descs. md_name m = h \<and> md_PkgPath m = [] \<and> md_NumIn m = 3 \<and> md_In2Ptr m \<and> md_NumOut m = 0
      then Some (F h) else None)"
proof -
  let ?add = "\<lambda>m ms. if md_PkgPath m \<noteq> [] \<or> md_NumIn m \<noteq> 3 \<or> \<not> md_In2Ptr m \<or> md_NumOut m \<noteq> 0 then ms
     else mput (md_name m) (md_Func m) ms"
  have "map_of (fold ?add descs ms) h =
     (if \<exists>m \<in> set descs. md_name m = h \<and> md_PkgPath m = [] \<and> md_NumIn m = 3 \<and> md_In2Ptr m \<and> md_NumOut m = 0
      then Some (F h) else map_of ms h)" for ms
    using assms by (induction descs arbitrary: ms) (auto simp: update_conv')
  from this [of "[]"] show ?thesis by (simp only: MakeService_def Service.select_convs map_of.simps)
qed

lemma dispatch_method:
  "dispatch rs req w =
     (if lastDot (q_svcMeth req) < 0 then Inl (RPanic SliceBounds)
      else case method_of rs (q_svcMeth req) of
             None \<Rightarrow> Inl RFatal
           | Some f \<Rightarrow> res_bind (f (q_args req) w) (\<lambda>(w1, r).
               Inr (rs\<lparr>rs_count := rs_count rs + 1\<rparr>, w1, \<lparr>rp_ok = True, rp_reply = Some r\<rparr>)))"
  using lastDot_bounds [of "q_svcMeth req"]
  by (auto simp: dispatch_def method_of_def dispatchMethod_def Let_def go_upto_def go_from_def stop_panic_def nat_add_distrib
      res_bind_def split: option.splits prod.splits sum.splits)

lemma awaitHandler_True:
  "awaitHandler dead polls returned = Some True \<longleftrightarrow> returned \<and> (\<forall>rn \<in> set polls. \<not> dead rn)"
  by (induction polls) auto

lemma awaitHandler_None: "awaitHandler dead polls returned = None \<Longrightarrow> \<not> returned"
  by (induction polls) (auto split: if_splits)

lemma processReq_unreached:
  assumes "net_ok rn" and "reaches rn (q_endname req) = None"
  shows "processReq sz rn req w dr polls returned final = Inr (final, w, Some failed_reply)"
proof -
  have heap: False if "map_of (rn_servers rn) name = Some (Some p)" "map_of (rn_heap rn) p = None" for name p
    using assms(1) that unfolding net_ok_def by blast
  show ?thesis using assms(2)
    by (auto simp: processReq_def readEndnameInfo_def reaches_def mget0_def Let_def split: option.splits bool.splits
        dest: heap)
qed

lemma processReq_reached:
  assumes "reaches rn (q_endname req) = Some (name, p, rs)"
  shows "processReq sz rn req w dr polls returned final =
     (if rn_reliable rn = False \<and> dr_request dr mod 1000 < 100 then Inr (final, w, Some failed_reply)
      else res_bind (dispatch rs req w) (\<lambda>(_, w1, rep).
        case awaitHandler (\<lambda>net. isServerDead net (q_endname req) name p) polls returned of
          None \<Rightarrow> Inr (countReq final p, w1, None)
        | Some replyOK \<Rightarrow>
            if replyOK = False \<or> isServerDead final (q_endname req) name p
            then Inr (countReq final p, w1, Some failed_reply)
            else if rn_reliable rn = False \<and> dr_reply dr mod 1000 < 100
            then Inr (countReq final p, w1, Some failed_reply)
            else Inr (sendReply sz rep (countReq final p), w1, Some rep)))"
proof -
  from assms have "mget0 False (rn_enabled rn) (q_endname req)" "mget0 None (rn_connections rn) (q_endname req) = Some name"
    "mget0 None (rn_servers rn) name = Some p" "map_of (rn_heap rn) p = Some rs"
    by (auto simp: reaches_def bind_eq_Some_conv split: if_splits)
  then show ?thesis by (simp only: processReq_def readEndnameInfo_def Let_def prod.case option.case bool.case)
qed

text \<open>The requests each server object has counted.\<close>

definition counts :: "('e, 'v, 'a, 'w, 'r) Network \<Rightarrow> nat \<Rightarrow> int option" where
  "counts rn p = map_option GetCount (map_of (rn_heap rn) p)"

lemma counts_simps [simp]:
  "counts (acceptReq rn req) = counts rn" "counts (sendReply sz rep rn) = counts rn"
  "counts (countReq rn p) = (counts rn)(p := map_option (\<lambda>k. k + 1) (counts rn p))"
  by (auto simp: counts_def acceptReq_def sendReply_def countReq_def GetCount_def split: option.splits)

lemma call_outcome:
  assumes "net_ok rn" and "Call sz rn e svcMeth args nbytes w dr polls returned final = Inr (rn', w', res)"
  shows "(case reaches rn e of
      None \<Rightarrow> w' = w \<and> res = Some (False, None) \<and> counts rn' = counts final
    | Some (name, p, rs) \<Rightarrow>
        w' = w \<and> res = Some (False, None) \<and> counts rn' = counts final
          \<and> (rn_done rn \<and> \<not> dr_sent dr \<or> \<not> rn_reliable rn \<and> dr_request dr mod 1000 < 100)
        \<or> (\<exists>f r. method_of rs svcMeth = Some f \<and> f args w = Inr (w', r)
              \<and> counts rn' = (counts final)(p := map_option (\<lambda>k. k + 1) (counts final p))
              \<and> (res = Some (True, Some r) \<or> res = Some (False, None) \<or> res = None)
              \<and> (res = None \<longrightarrow> \<not> returned)
              \<and> (returned \<and> (\<forall>net \<in> set (final # polls). \<not> isServerDead net e name p)
                    \<and> (rn_reliable rn \<or> \<not> dr_reply dr mod 1000 < 100)
                  \<longrightarrow> res = Some (True, Some r))))"
proof (cases "rn_done rn \<and> \<not> dr_sent dr")
  case True
  with assms(2) have "w' = w \<and> res = Some (False, None) \<and> rn' = final" by (simp add: Call_def)
  with True show ?thesis by (auto split: option.splits prod.splits)
next
  case False
  let ?req = "\<lparr>q_endname = e, q_svcMeth = svcMeth, q_args = args, q_size = nbytes\<rparr>"
  from assms(2) False obtain net1 rep where
    pr: "processReq sz rn ?req w dr polls returned final = Inr (net1, w', rep)"
      and rn': "rn' = acceptReq net1 ?req"
      and res: "res = map_option (\<lambda>m. if rp_ok m then (True, rp_reply m) else (False, None)) rep"
    by (auto simp: Call_def Let_def)
  show ?thesis
  proof (cases "reaches rn e")
    case None
    with pr processReq_unreached [OF assms(1), of ?req sz w dr polls returned final]
    have "w' = w" "rep = Some failed_reply" "net1 = final" by auto
    with res rn' None show ?thesis by (simp add: failed_reply_def)
  next
    case (Some t)
    obtain name p rs where t: "t = (name, p, rs)" by (cases t)
    let ?out = "awaitHandler (\<lambda>net. isServerDead net e name p) polls returned"
    note run = processReq_reached [of rn ?req name p rs sz w dr polls returned final]
    show ?thesis
    proof (cases "rn_reliable rn = False \<and> dr_request dr mod 1000 < 100")
      case True
      with pr run Some t have "w' = w" "rep = Some failed_reply" "net1 = final" by auto
      with res rn' Some t True show ?thesis by (auto simp: failed_reply_def)
    next
      case reached: False
      with pr run Some t obtain f r where f: "method_of rs svcMeth = Some f" "f args w = Inr (w', r)"
        by (auto simp: dispatch_method split: if_splits option.splits bool.splits)
      have rep: "rep = (case ?out of None \<Rightarrow> None
          | Some replyOK \<Rightarrow> if replyOK = False \<or> isServerDead final e name p then Some failed_reply
              else if rn_reliable rn = False \<and> dr_reply dr mod 1000 < 100 then Some failed_reply
              else Some \<lparr>rp_ok = True, rp_reply = Some r\<rparr>)"
        using pr run Some t reached f
        by (auto simp: dispatch_method split: if_splits option.splits)
      have cnt: "counts rn' = (counts final)(p := map_option (\<lambda>k. k + 1) (counts final p))"
        using pr run Some t reached
        by (auto simp: rn' dispatch_method split: if_splits option.splits)
      have "res = Some (True, Some r) \<or> res = Some (False, None) \<or> res = None"
        using res rep by (auto simp: failed_reply_def split: option.splits if_splits)
      moreover have "\<not> returned" if "res = None"
        using that res rep awaitHandler_None [of "\<lambda>net. isServerDead net e name p" polls returned]
        by (auto split: option.splits if_splits)
      moreover have "res = Some (True, Some r)"
        if "returned \<and> (\<forall>net \<in> set (final # polls). \<not> isServerDead net e name p) \<and> (rn_reliable rn \<or> \<not> dr_reply dr mod 1000 < 100)"
      proof -
        from that have "?out = Some True" by (simp add: awaitHandler_True)
        with that res rep show ?thesis by auto
      qed
      ultimately show ?thesis using Some t f cnt by (simp only: option.case prod.case) blast
    qed
  qed
qed

text \<open>
  C19: the network gives each call at-most-once semantics.  A call that returns success ran the method
  the end point is connected to, exactly once, and returns its reply; a call that returns failure ran
  it once or not at all.  The method is not run only when the end point is disabled, unconnected or
  its server is gone, when the network was destroyed before the send, or when an unreliable network
  lost the request; the server's counter moves exactly when the method ran.  When the method ran and
  returned, the server stays alive, and the network is reliable or does not lose the reply, the call
  succeeds; so on a reliable network that is not destroyed, a call that reaches a server which stays
  alive until the method has returned succeeds.
\<close>
theorem call_at_most_once:
  assumes "net_ok rn" and "Call sz rn e svcMeth args nbytes w dr polls returned final = Inr (rn', w', res)"
  shows "(case reaches rn e of
      None \<Rightarrow> w' = w \<and> res = Some (False, None) \<and> counts rn' = counts final
    | Some (name, p, rs) \<Rightarrow>
        w' = w \<and> res = Some (False, None) \<and> counts rn' = counts final
          \<and> (rn_done rn \<and> \<not> dr_sent dr \<or> \<not> rn_reliable rn \<and> dr_request dr mod 1000 < 100)
        \<or> (\<exists>f r. method_of rs svcMeth = Some f \<and> f args w = Inr (w', r)
              \<and> counts rn' = (counts final)(p := map_option (\<lambda>k. k + 1) (counts final p))
              \<and> (res = Some (True, Some r) \<or> res = Some (False, None) \<or> res = None)
              \<and> (res = None \<longrightarrow> \<not> returned)
              \<and> (returned \<and> (\<forall>net \<in> set (final # polls). \<not> isServerDead net e name p)
                    \<and> (rn_reliable rn \<or> \<not> dr_reply dr mod 1000 < 100)
                  \<longrightarrow> res = Some (True, Some r))))"
  using assms by (rule call_outcome)

text \<open>A network with one end point and one server, whose service counts.\<close>

definition counter_service :: "(nat, nat, nat) Service" where
  "counter_service = MakeService ''Counter''
     [\<lparr>md_name = ''Add'', md_PkgPath = [], md_NumIn = 3, md_In2Ptr = True, md_NumOut = 0, md_Func = (\<lambda>a w. Inr (w + a, w))\<rparr>,
      \<lparr>md_name = ''Kill'', md_PkgPath = [], md_NumIn = 1, md_In2Ptr = False, md_NumOut = 0, md_Func = (\<lambda>a w. Inr (0, 0))\<rparr>]"

definition small_net :: "(string, string, nat, nat, nat) Network" where
  "small_net =
     (case MakeEnd MakeNetwork ''e'' of
        Inl _ \<Rightarrow> MakeNetwork
      | Inr rn \<Rightarrow> AddServer (Enable (Connect (rn\<lparr>rn_heap := [(0, AddService MakeServer counter_service)]\<rparr>) ''e'' ''s'') ''e'' True) ''s'' 0)"

lemma small_net_eq:
  "small_net = \<lparr>rn_reliable = True, rn_longDelays = False, rn_longReordering = False, rn_ends = [(''e'', ())],
     rn_enabled = [(''e'', True)], rn_servers = [(''s'', Some 0)], rn_connections = [(''e'', Some ''s'')], rn_done = False,
     rn_count = 0, rn_bytes = 0, rn_heap = [(0, AddService MakeServer counter_service)]\<rparr>"
  by (simp add: small_net_def MakeEnd_def MakeNetwork_def Connect_def Enable_def AddServer_def)

lemma small_net_call:
  "\<exists>rn'. Call (\<lambda>_. 4) small_net ''e'' ''Counter.Add'' 3 1 2 \<lparr>dr_sent = True, dr_request = 0, dr_reply = 0\<rparr> [] True small_net
     = Inr (rn', 5, Some (True, Some 2)) \<and> GetTotalBytes rn' = 5"
  by (simp add: small_net_eq Call_def processReq_def readEndnameInfo_def isServerDead_def mget0_def dispatch_def
      dispatchMethod_def stop_panic_def go_upto_def go_from_def AddService_def MakeServer_def counter_service_def MakeService_def
      countReq_def sendReply_def acceptReq_def GetTotalBytes_def)

theorem call_at_most_once_witness:
  "\<exists>rn' f. Call (\<lambda>_. 4) small_net ''e'' ''Counter.Add'' 3 1 2 \<lparr>dr_sent = True, dr_request = 0, dr_reply = 0\<rparr> [] True small_net
       = Inr (rn', 5, Some (True, Some 2))
     \<and> method_of (AddService MakeServer counter_service) ''Counter.Add'' = Some f \<and> f 3 2 = Inr (5, 2)
     \<and> counts rn' 0 = Some 1"
proof -
  have ok: "net_ok small_net" by (simp add: net_ok_def small_net_eq)
  have reaches: "reaches small_net ''e'' = Some (''s'', 0, AddService MakeServer counter_service)"
    by (simp add: reaches_def small_net_eq mget0_def)
  have cnt: "counts small_net 0 = Some 0"
    by (simp add: counts_def small_net_eq AddService_def MakeServer_def GetCount_def)
  from small_net_call obtain rn' where c: "Call (\<lambda>_. 4) small_net ''e'' ''Counter.Add'' 3 1 2
      \<lparr>dr_sent = True, dr_request = 0, dr_reply = 0\<rparr> [] True small_net = Inr (rn', 5, Some (True, Some 2))" by blast
  from call_at_most_once [OF ok c] c show ?thesis by (auto simp: reaches cnt)
qed

end
