(* ===== verification/Sessions.thy ===== *)
theory Sessions
  imports Prelude
begin

text \<open>
  The contract the three replicated services share.  Each keeps, per client, the number of the
  last request it executed, and skips a command from the log whose number is not greater; so a
  request that a client retransmits, and that ends up in the log more than once, is executed at
  most once.  \<open>session_machine\<close> states the contract of one command of the log; its lemmas say
  what a whole log does.  \<open>kvpaxos\<close>, \<open>shardctrler\<close> and \<open>shardkv\<close> are its interpretations.
\<close>

fun go_foldM :: "('s \<Rightarrow> 'c \<Rightarrow> 'e + 's) \<Rightarrow> 's \<Rightarrow> 'c list \<Rightarrow> 'e + 's" where
  "go_foldM f s [] = Inr s"
| "go_foldM f s (c # cs) = res_bind (f s c) (\<lambda>t. go_foldM f t cs)"

text \<open>The commands of a log that are executed, given the last number of each client.\<close>

fun fresh_cmds :: "('c \<Rightarrow> int) \<Rightarrow> ('c \<Rightarrow> int) \<Rightarrow> (int \<Rightarrow> int) \<Rightarrow> 'c list \<Rightarrow> 'c list" where
  "fresh_cmds cl no lst [] = []"
| "fresh_cmds cl no lst (c # cs) =
     (if lst (cl c) < no c then c # fresh_cmds cl no (lst(cl c := no c)) cs
      else fresh_cmds cl no lst cs)"

text \<open>
  A log in which no client starts a request before its earlier ones are in the log: a number that
  appears for the first time is above every number the client used before.
\<close>

definition sequential :: "('c \<Rightarrow> int) \<Rightarrow> ('c \<Rightarrow> int) \<Rightarrow> (int \<Rightarrow> int) \<Rightarrow> 'c list \<Rightarrow> bool" where
  "sequential cl no lst cs \<longleftrightarrow>
     (\<forall>i < length cs. (\<exists>j < i. cl (cs ! j) = cl (cs ! i) \<and> no (cs ! j) = no (cs ! i))
        \<or> (lst (cl (cs ! i)) < no (cs ! i)
           \<and> (\<forall>j < i. cl (cs ! j) = cl (cs ! i) \<longrightarrow> no (cs ! j) < no (cs ! i))))"

lemma go_foldM_append:
  "go_foldM f s (cs @ ds) = res_bind (go_foldM f s cs) (\<lambda>t. go_foldM f t ds)"
proof (induction cs arbitrary: s)
  case Nil
  then show ?case by simp
next
  case (Cons c cs)
  then show ?case by (cases "f s c") simp_all
qed

lemma go_foldM_total:
  assumes "\<And>s c. c \<in> set cs \<Longrightarrow> I s \<Longrightarrow> \<exists>t. f s c = Inr t \<and> I t" and "I s"
  shows "\<exists>t. go_foldM f s cs = Inr t \<and> I t"
  using assms
proof (induction cs arbitrary: s)
  case (Cons c cs)
  from Cons.prems obtain t where "f s c = Inr t" "I t" by (meson list.set_intros(1))
  with Cons.IH [of t] Cons.prems(1) show ?case by simp
qed simp

lemma go_foldM_inv:
  assumes "go_foldM f s cs = Inr t" and "\<And>s c t. f s c = Inr t \<Longrightarrow> I s \<Longrightarrow> I t" and "I s"
  shows "I t"
  using assms by (induction cs arbitrary: s) auto

definition last_after :: "('c \<Rightarrow> int) \<Rightarrow> ('c \<Rightarrow> int) \<Rightarrow> (int \<Rightarrow> int) \<Rightarrow> 'c list \<Rightarrow> int \<Rightarrow> int" where
  "last_after cl no lst cs = fold (\<lambda>c l. if l (cl c) < no c then l(cl c := no c) else l) cs lst"

lemma last_after_simps [simp]:
  "last_after cl no lst [] = lst"
  "last_after cl no lst (c # cs) =
     last_after cl no (if lst (cl c) < no c then lst(cl c := no c) else lst) cs"
  by (simp_all add: last_after_def)

lemma last_after_mono: "lst k \<le> last_after cl no lst cs k"
proof (induction cs arbitrary: lst)
  case Nil
  then show ?case by simp
next
  case (Cons c cs)
  show ?case
    using Cons.IH [of "if lst (cl c) < no c then lst(cl c := no c) else lst"]
    by (auto split: if_splits intro: order_trans)
qed

lemma last_after_covers: "c \<in> set cs \<Longrightarrow> no c \<le> last_after cl no lst cs (cl c)"
proof (induction cs arbitrary: lst)
  case (Cons d cs)
  let ?l = "if lst (cl d) < no d then lst(cl d := no d) else lst"
  have "no d \<le> last_after cl no ?l cs (cl d)"
    using last_after_mono [of ?l "cl d" cl no cs] by (auto split: if_splits intro: order_trans)
  with Cons show ?case by auto
qed simp

lemma fresh_cmds_above: "c \<in> set (fresh_cmds cl no lst cs) \<Longrightarrow> lst (cl c) < no c"
proof (induction cs arbitrary: lst)
  case (Cons d cs)
  show ?case
  proof (cases "lst (cl d) < no d")
    case True
    with Cons.prems consider "c = d" | "c \<in> set (fresh_cmds cl no (lst(cl d := no d)) cs)" by auto
    then show ?thesis
    proof cases
      case 2
      from Cons.IH [OF this] True show ?thesis by (cases "cl c = cl d") auto
    qed (use True in simp)
  qed (use Cons in auto)
qed simp

text \<open>At most once: no client's number is executed twice.\<close>

lemma fresh_cmds_distinct: "distinct (map (\<lambda>c. (cl c, no c)) (fresh_cmds cl no lst cs))"
proof (induction cs arbitrary: lst)
  case (Cons c cs)
  then show ?case using fresh_cmds_above [of _ cl no "lst(cl c := no c)" cs] by fastforce
qed simp

lemma fresh_cmds_subset: "set (fresh_cmds cl no lst cs) \<subseteq> set cs"
  by (induction cs arbitrary: lst) auto

lemma fresh_cmds_none: "(\<And>c. c \<in> set cs \<Longrightarrow> no c \<le> lst (cl c)) \<Longrightarrow> fresh_cmds cl no lst cs = []"
  by (induction cs) (auto simp: not_less)

lemma fresh_cmds_append:
  "fresh_cmds cl no lst (cs @ ds) = fresh_cmds cl no lst cs @ fresh_cmds cl no (last_after cl no lst cs) ds"
  by (induction cs arbitrary: lst) auto

lemma last_after_bound:
  "last_after cl no lst cs k = lst k \<or> (\<exists>c \<in> set cs. cl c = k \<and> last_after cl no lst cs k = no c)"
proof (induction cs arbitrary: lst)
  case (Cons c cs)
  let ?l = "if lst (cl c) < no c then lst(cl c := no c) else lst"
  have "?l k = lst k \<or> cl c = k \<and> ?l k = no c" by auto
  with Cons.IH [of ?l] show ?case by (simp only: last_after_simps list.set bex_simps) metis
qed simp

text \<open>Exactly once: a sequential log has every request executed.\<close>

lemma fresh_cmds_complete:
  assumes "sequential cl no lst cs"
  shows "(\<lambda>c. (cl c, no c)) ` set (fresh_cmds cl no lst cs) = (\<lambda>c. (cl c, no c)) ` set cs"
  using assms
proof (induction cs rule: rev_induct)
  case (snoc c cs)
  let ?id = "\<lambda>c. (cl c, no c)" and ?l = "last_after cl no lst cs"
  have "sequential cl no lst cs"
    unfolding sequential_def
  proof (intro allI impI)
    fix i
    assume i: "i < length cs"
    then have "(cs @ [c]) ! i = cs ! i" "\<And>j. j < i \<Longrightarrow> (cs @ [c]) ! j = cs ! j"
      by (auto simp: nth_append)
    with snoc.prems [unfolded sequential_def, rule_format, of i] i
    show "(\<exists>j < i. cl (cs ! j) = cl (cs ! i) \<and> no (cs ! j) = no (cs ! i))
        \<or> (lst (cl (cs ! i)) < no (cs ! i) \<and> (\<forall>j < i. cl (cs ! j) = cl (cs ! i) \<longrightarrow> no (cs ! j) < no (cs ! i)))"
      by auto
  qed
  note IH = snoc.IH [OF this]
  have seen: "?id c \<in> ?id ` set cs \<or> lst (cl c) < no c \<and> (\<forall>d \<in> set cs. cl d = cl c \<longrightarrow> no d < no c)"
  proof -
    have "(\<exists>j < length cs. cl (cs ! j) = cl c \<and> no (cs ! j) = no c)
        \<or> lst (cl c) < no c \<and> (\<forall>j < length cs. cl (cs ! j) = cl c \<longrightarrow> no (cs ! j) < no c)"
      using snoc.prems [unfolded sequential_def, rule_format, of "length cs"] by (auto simp: nth_append)
    then show ?thesis by (auto simp: in_set_conv_nth image_iff) (metis nth_mem)+
  qed
  show ?case
  proof (cases "?l (cl c) < no c")
    case True
    then show ?thesis using IH by (simp add: fresh_cmds_append)
  next
    case False
    with seen last_after_bound [of cl no lst cs "cl c"] have "?id c \<in> ?id ` set cs" by fastforce
    with False IH show ?thesis by (auto simp: fresh_cmds_append)
  qed
qed simp

text \<open>
  The executed commands by their positions in the log: a command is executed exactly when its number
  is above every number its client had at an earlier position.
\<close>

definition newest_at :: "('c \<Rightarrow> int) \<Rightarrow> ('c \<Rightarrow> int) \<Rightarrow> (int \<Rightarrow> int) \<Rightarrow> 'c list \<Rightarrow> nat set" where
  "newest_at cl no lst cs =
     {i. i < length cs \<and> lst (cl (cs ! i)) < no (cs ! i) \<and> (\<forall>j < i. cl (cs ! j) = cl (cs ! i) \<longrightarrow> no (cs ! j) < no (cs ! i))}"

lemma nths_agree: "(\<And>i. i < length xs \<Longrightarrow> i \<in> A \<longleftrightarrow> i \<in> B) \<Longrightarrow> nths xs A = nths xs B"
  unfolding nths_def by (rule arg_cong [where f = "map fst"], rule filter_cong) (auto simp: in_set_zip)

lemma last_after_less:
  "last_after cl no lst cs (cl c) < no c \<longleftrightarrow> lst (cl c) < no c \<and> (\<forall>d \<in> set cs. cl d = cl c \<longrightarrow> no d < no c)"
proof (intro iffI conjI ballI impI)
  assume above: "last_after cl no lst cs (cl c) < no c"
  with last_after_mono [of lst "cl c" cl no cs] show "lst (cl c) < no c" by simp
  fix d assume "d \<in> set cs" "cl d = cl c"
  with above last_after_covers [of d cs no cl lst] show "no d < no c" by simp
next
  assume "lst (cl c) < no c \<and> (\<forall>d \<in> set cs. cl d = cl c \<longrightarrow> no d < no c)"
  with last_after_bound [of cl no lst cs "cl c"] show "last_after cl no lst cs (cl c) < no c" by metis
qed

lemma fresh_cmds_newest: "fresh_cmds cl no lst cs = nths cs (newest_at cl no lst cs)"
proof (induction cs rule: rev_induct)
  case (snoc c cs)
  let ?N = "newest_at cl no lst (cs @ [c])"
  have "nths cs ?N = nths cs (newest_at cl no lst cs)"
    by (rule nths_agree) (auto simp: newest_at_def nth_append)
  moreover have "length cs \<in> ?N \<longleftrightarrow> last_after cl no lst cs (cl c) < no c"
    by (auto simp: newest_at_def nth_append last_after_less all_set_conv_all_nth)
  ultimately show ?case using snoc by (simp add: fresh_cmds_append nths_append nths_singleton)
qed simp

locale session_machine =
  fixes step :: "'s \<Rightarrow> 'c \<Rightarrow> 'e + 's" and client :: "'c \<Rightarrow> int" and number :: "'c \<Rightarrow> int"
    and lst :: "'s \<Rightarrow> int \<Rightarrow> int" and data :: "'s \<Rightarrow> 'd" and effect :: "'d \<Rightarrow> 'c \<Rightarrow> 'd"
  assumes executed: "step s c = Inr t \<Longrightarrow> lst s (client c) < number c \<Longrightarrow>
      data t = effect (data s) c \<and> lst t = (lst s)(client c := number c)"
    and skipped: "step s c = Inr t \<Longrightarrow> number c \<le> lst s (client c) \<Longrightarrow> data t = data s \<and> lst t = lst s"
begin

lemma log_effect:
  "go_foldM step s cs = Inr t \<Longrightarrow>
     data t = foldl effect (data s) (fresh_cmds client number (lst s) cs)
     \<and> lst t = last_after client number (lst s) cs"
proof (induction cs arbitrary: s)
  case (Cons c cs)
  then obtain u where u: "step s c = Inr u" "go_foldM step u cs = Inr t" by auto
  show ?case
  proof (cases "lst s (client c) < number c")
    case True
    with executed [OF u(1)] have "data u = effect (data s) c" "lst u = (lst s)(client c := number c)" by auto
    with Cons.IH [OF u(2)] True show ?thesis by (simp del: fun_upd_apply)
  next
    case False
    with skipped [OF u(1)] Cons.IH [OF u(2)] show ?thesis by simp
  qed
qed simp

lemma retransmission_harmless:
  assumes "go_foldM step s cs = Inr t" and "go_foldM step t ds = Inr u" and "set ds \<subseteq> set cs"
  shows "data u = data t"
proof -
  have "fresh_cmds client number (lst t) ds = []"
    by (rule fresh_cmds_none) (use assms log_effect [OF assms(1)] last_after_covers in fastforce)
  with log_effect [OF assms(2)] show ?thesis by simp
qed

lemma replicas_agree:
  assumes "go_foldM step s cs = Inr t" and "go_foldM step s' cs = Inr t'"
    and "data s = data s'" and "lst s = lst s'"
  shows "data t = data t' \<and> lst t = lst t'"
  using log_effect [OF assms(1)] log_effect [OF assms(2)] assms(3,4) by simp

end

text \<open>
  A weaker contract, for a service whose table of numbers is also raised from outside the log and
  that may refuse a fresh request: numbers never decrease, only a fresh request is executed, and
  an executed one is recorded.  It still executes every request at most once.
\<close>

fun executed_cmds :: "('s \<Rightarrow> 'c \<Rightarrow> 'e + 's) \<Rightarrow> ('s \<Rightarrow> 'c \<Rightarrow> bool) \<Rightarrow> 's \<Rightarrow> 'c list \<Rightarrow> 'c list" where
  "executed_cmds step ex s [] = []"
| "executed_cmds step ex s (c # cs) =
     (case step s c of
        Inl _ \<Rightarrow> []
      | Inr t \<Rightarrow> if ex s c then c # executed_cmds step ex t cs else executed_cmds step ex t cs)"

locale at_most_once =
  fixes step :: "'s \<Rightarrow> 'c \<Rightarrow> 'e + 's" and client :: "'c \<Rightarrow> int" and number :: "'c \<Rightarrow> 'n::linorder"
    and lst :: "'s \<Rightarrow> int \<Rightarrow> 'n" and executes :: "'s \<Rightarrow> 'c \<Rightarrow> bool"
  assumes grows: "step s c = Inr t \<Longrightarrow> lst s k \<le> lst t k"
    and fresh: "executes s c \<Longrightarrow> lst s (client c) < number c"
    and recorded: "step s c = Inr t \<Longrightarrow> executes s c \<Longrightarrow> number c \<le> lst t (client c)"
begin

lemma executed_above: "c \<in> set (executed_cmds step executes s cs) \<Longrightarrow> lst s (client c) < number c"
proof (induction cs arbitrary: s)
  case (Cons d cs)
  then obtain t where t: "step s d = Inr t" by (cases "step s d") auto
  with Cons.prems consider "c = d" "executes s d" | "c \<in> set (executed_cmds step executes t cs)"
    by (auto split: if_splits)
  then show ?case
  proof cases
    case 2
    with Cons.IH grows [OF t, of "client c"] show ?thesis by (meson le_less_trans)
  qed (use fresh in simp)
qed simp

lemma executed_distinct: "distinct (map (\<lambda>c. (client c, number c)) (executed_cmds step executes s cs))"
proof (induction cs arbitrary: s)
  case (Cons c cs)
  show ?case
  proof (cases "step s c")
    case (Inr t)
    have "(client c, number c) \<notin> (\<lambda>c. (client c, number c)) ` set (executed_cmds step executes t cs)"
      if "executes s c"
      using executed_above [of _ t cs] recorded [OF Inr that] by force
    with Inr Cons.IH [of t] show ?thesis by simp
  qed simp
qed simp

lemma log_grows: "go_foldM step s cs = Inr t \<Longrightarrow> lst s k \<le> lst t k"
proof (induction cs arbitrary: s)
  case (Cons c cs)
  then obtain u where "step s c = Inr u" "go_foldM step u cs = Inr t" by auto
  with Cons.IH [of u] grows [of s c u k] show ?case by (meson order_trans)
qed simp

lemma executed_recorded:
  "go_foldM step s cs = Inr t \<Longrightarrow> c \<in> set (executed_cmds step executes s cs) \<Longrightarrow> number c \<le> lst t (client c)"
proof (induction cs arbitrary: s)
  case (Cons d cs)
  then obtain u where u: "step s d = Inr u" "go_foldM step u cs = Inr t" by auto
  with Cons.prems consider "c = d" "executes s d" | "c \<in> set (executed_cmds step executes u cs)"
    by (auto split: if_splits)
  then show ?case
  proof cases
    case 1
    with recorded [OF u(1)] log_grows [OF u(2), of "client c"] show ?thesis by (metis order_trans)
  qed (use Cons.IH [OF u(2)] in simp)
qed simp

end

sublocale session_machine \<subseteq> once: at_most_once step client number lst "\<lambda>s c. lst s (client c) < number c"
proof
  fix s c t k
  assume st: "step s c = Inr t"
  show "lst s k \<le> lst t k"
    by (cases "lst s (client c) < number c") (use executed [OF st] skipped [OF st] in auto)
  show "number c \<le> lst t (client c)" if "lst s (client c) < number c"
    using executed [OF st that] by simp
qed

end
