(* ===== verification/Tester.thy ===== *)
theory Tester
  imports Cluster Labrpc Sessions
begin

text \<open>
  The test harness \<open>a2-omnipaxos/config.go\<close>: it builds a cluster on the simulated network, connects,
  disconnects, crashes and restarts servers, reads their \<open>applyCh\<close> and checks what they commit.

  While a server runs, \<open>cfg.saved[i]\<close> is the persister it writes to, so it is read from the running
  server (\<open>savedOf\<close>); an instance that was killed is forgotten: its end points are disabled and its
  storage has been copied.  \<open>svc\<close> is the service \<open>labrpc.MakeService\<close> makes of a server, and random names
  and what happens to the cluster between two looks at it are arguments.  \<open>didRecv\<close> and the other slices
  have one element per server.
\<close>

subsection \<open>State\<close>

record 'c logEntry =
  le_valid :: bool
  le_command :: "'c option"

definition zero_logEntry :: "'c logEntry" where
  "zero_logEntry = \<lparr>le_valid = False, le_command = None\<rparr>"

record ('e, 'a, 'w, 'r, 'c) config =
  tc_net :: "('e, nat, 'a, 'w, 'r) Network"
  tc_n :: nat
  tc_paxos :: "'c OmniPaxos option list"
  tc_connected :: "bool list"
  tc_saved :: "'c gob_msg Persister option list"
  tc_endnames :: "'e list option list"
  tc_logs :: "(int, 'c logEntry) gomap list"
  tc_didRecv :: "bool list"
  tc_nextIndex :: "int list"
  tc_numCommands :: "int list"
  tc_rpcs0 :: int
  tc_bytes0 :: int
  tc_maxIndex :: int
  tc_maxIndex0 :: int

text \<open>A run-time panic, \<open>log.Fatal\<close>, or a failed test.\<close>

datatype tester_stop = TPanic go_panic | TFatal | TFail

definition idx :: "'a list \<Rightarrow> nat \<Rightarrow> tester_stop + 'a" where
  "idx xs i = (if i < length xs then Inr (xs ! i) else Inl (TPanic IndexOutOfRange))"

definition upd :: "'a list \<Rightarrow> nat \<Rightarrow> 'a \<Rightarrow> tester_stop + 'a list" where
  "upd xs i v = (if i < length xs then Inr (xs[i := v]) else Inl (TPanic IndexOutOfRange))"

definition from_go :: "'a go \<Rightarrow> tester_stop + 'a" where
  "from_go r = (case r of Inl p \<Rightarrow> Inl (TPanic p) | Inr a \<Rightarrow> Inr a)"

definition from_rpc :: "rpc_stop + 'a \<Rightarrow> tester_stop + 'a" where
  "from_rpc r = (case r of Inl (RPanic p) \<Rightarrow> Inl (TPanic p) | Inl _ \<Rightarrow> Inl TFatal | Inr a \<Rightarrow> Inr a)"

subsection \<open>Connections\<close>

definition endname :: "'e list option list \<Rightarrow> nat \<Rightarrow> nat \<Rightarrow> tester_stop + 'e" where
  "endname names i j = res_bind (idx names i) (\<lambda>row. idx (case row of None \<Rightarrow> [] | Some es \<Rightarrow> es) j)"

text \<open>The loops over end points: \<open>P j\<close> says whether the \<open>j\<close>-th one is switched, \<open>nm j\<close> is its name.\<close>

definition switchEnds :: "(nat \<Rightarrow> tester_stop + bool) \<Rightarrow> (nat \<Rightarrow> tester_stop + 'e) \<Rightarrow> bool
    \<Rightarrow> ('e, 'v, 'a, 'w, 'r) Network \<Rightarrow> nat list \<Rightarrow> tester_stop + ('e, 'v, 'a, 'w, 'r) Network" where
  "switchEnds P nm yes =
     go_foldM (\<lambda>net j. res_bind (P j) (\<lambda>b. if b then res_bind (nm j) (\<lambda>e. Inr (Enable net e yes)) else Inr net))"

definition connect :: "('e, 'a, 'w, 'r, 'c) config \<Rightarrow> nat \<Rightarrow> tester_stop + ('e, 'a, 'w, 'r, 'c) config" where
  "connect cfg i =
     res_bind (upd (tc_connected cfg) i True) (\<lambda>con.
       res_bind (switchEnds (idx con) (endname (tc_endnames cfg) i) True (tc_net cfg) [0..<tc_n cfg]) (\<lambda>net1.
         res_bind (switchEnds (idx con) (\<lambda>j. endname (tc_endnames cfg) j i) True net1 [0..<tc_n cfg]) (\<lambda>net2.
           Inr (cfg\<lparr>tc_connected := con, tc_net := net2\<rparr>))))"

definition present :: "'e list option list \<Rightarrow> nat \<Rightarrow> tester_stop + bool" where
  "present names i = res_bind (idx names i) (\<lambda>row. Inr (row \<noteq> None))"

definition disconnect :: "('e, 'a, 'w, 'r, 'c) config \<Rightarrow> nat \<Rightarrow> tester_stop + ('e, 'a, 'w, 'r, 'c) config" where
  "disconnect cfg i =
     (let names = tc_endnames cfg
      in res_bind (upd (tc_connected cfg) i False) (\<lambda>con.
           res_bind (switchEnds (\<lambda>_. present names i) (endname names i) False (tc_net cfg) [0..<tc_n cfg]) (\<lambda>net1.
             res_bind (switchEnds (present names) (\<lambda>j. endname names j i) False net1 [0..<tc_n cfg]) (\<lambda>net2.
               Inr (cfg\<lparr>tc_connected := con, tc_net := net2\<rparr>)))))"

definition partiallyDisconnect :: "('e, 'a, 'w, 'r, 'c) config \<Rightarrow> nat \<Rightarrow> nat list
    \<Rightarrow> tester_stop + ('e, 'a, 'w, 'r, 'c) config" where
  "partiallyDisconnect cfg i servers =
     (let names = tc_endnames cfg
      in res_bind (switchEnds (\<lambda>_. present names i) (endname names i) False (tc_net cfg) servers) (\<lambda>net1.
           res_bind (switchEnds (present names) (\<lambda>j. endname names j i) False net1 servers) (\<lambda>net2.
             Inr (cfg\<lparr>tc_net := net2\<rparr>))))"

definition partiallyConnect :: "('e, 'a, 'w, 'r, 'c) config \<Rightarrow> nat \<Rightarrow> nat list
    \<Rightarrow> tester_stop + ('e, 'a, 'w, 'r, 'c) config" where
  "partiallyConnect cfg i servers =
     (let names = tc_endnames cfg
      in res_bind (upd (tc_connected cfg) i True) (\<lambda>con.
           res_bind (go_foldM (\<lambda>(c, net) j. res_bind (upd c j True) (\<lambda>c1.
               res_bind (endname names i j) (\<lambda>e. Inr (c1, Enable net e True)))) (con, tc_net cfg) servers) (\<lambda>(con1, net1).
             res_bind (switchEnds (idx con1) (\<lambda>j. endname names j i) True net1 servers) (\<lambda>net2.
               Inr (cfg\<lparr>tc_connected := con1, tc_net := net2\<rparr>)))))"

subsection \<open>Crash and start\<close>

definition savedOf :: "('e, 'a, 'w, 'r, 'c) config \<Rightarrow> nat \<Rightarrow> 'c gob_msg Persister option" where
  "savedOf cfg i =
     (case tc_paxos cfg ! i of Some op \<Rightarrow> Some (op_persister op) | None \<Rightarrow> tc_saved cfg ! i)"

definition crash1 :: "('e, 'a, 'w, 'r, 'c) config \<Rightarrow> nat \<Rightarrow> tester_stop + ('e, 'a, 'w, 'r, 'c) config" where
  "crash1 cfg i =
     res_bind (disconnect cfg i) (\<lambda>cfg1.
       let cfg2 = cfg1\<lparr>tc_net := DeleteServer (tc_net cfg1) i\<rparr>;
           copied = map_option Copy (savedOf cfg2 i);
           saved = map_option (\<lambda>ps. SaveStateAndSnapshot MakePersister (ReadOmnipaxosState ps) (ReadSnapshot ps)) copied
       in res_bind (upd (tc_paxos cfg2) i None) (\<lambda>paxos.
            res_bind (upd (tc_saved cfg2) i saved) (\<lambda>svd. Inr (cfg2\<lparr>tc_paxos := paxos, tc_saved := svd\<rparr>))))"

text \<open>Fresh end points, each connected to its server.\<close>

definition makeEnds :: "('e, nat, 'a, 'w, 'r) Network \<Rightarrow> 'e list \<Rightarrow> tester_stop + ('e, nat, 'a, 'w, 'r) Network" where
  "makeEnds net names =
     go_foldM (\<lambda>net (j, e). res_bind (from_rpc (MakeEnd net e)) (\<lambda>net1. Inr (Connect net1 e j)))
       net (enumerate 0 names)"

definition registerServer :: "('e, nat, 'a, 'w, 'r) Network \<Rightarrow> nat \<Rightarrow> ('a, 'w, 'r) Service
    \<Rightarrow> ('e, nat, 'a, 'w, 'r) Network" where
  "registerServer net i svc =
     (let p = length (rn_heap net)
      in AddServer (net\<lparr>rn_heap := rn_heap net @ [(p, AddService MakeServer svc)]\<rparr>) i p)"

definition start1 :: "('e, 'a, 'w, 'r, 'c) config \<Rightarrow> nat \<Rightarrow> 'e list \<Rightarrow> ('a, 'w, 'r) Service
    \<Rightarrow> tester_stop + ('e, 'a, 'w, 'r, 'c) config" where
  "start1 cfg i names svc =
     res_bind (crash1 cfg i) (\<lambda>cfg1.
       res_bind (upd (tc_endnames cfg1) i (Some names)) (\<lambda>ends.
         res_bind (makeEnds (tc_net cfg1) names) (\<lambda>net1.
           res_bind (upd (tc_nextIndex cfg1) i 0) (\<lambda>nxt.
             let ps = (case tc_saved cfg1 ! i of Some ps \<Rightarrow> Copy ps | None \<Rightarrow> MakePersister)
             in res_bind (from_go (Make (tc_n cfg1) (int i) ps)) (\<lambda>rf.
                  res_bind (upd (tc_didRecv cfg1) i False) (\<lambda>did.
                    Inr (cfg1\<lparr>tc_endnames := ends, tc_nextIndex := nxt, tc_saved := (tc_saved cfg1)[i := Some ps],
                              tc_paxos := (tc_paxos cfg1)[i := Some rf], tc_didRecv := did,
                              tc_net := registerServer net1 i svc\<rparr>)))))))"

definition setunreliable :: "('e, 'a, 'w, 'r, 'c) config \<Rightarrow> bool \<Rightarrow> ('e, 'a, 'w, 'r, 'c) config" where
  "setunreliable cfg unrel = cfg\<lparr>tc_net := Reliable (tc_net cfg) (\<not> unrel)\<rparr>"

definition setlongreordering :: "('e, 'a, 'w, 'r, 'c) config \<Rightarrow> bool \<Rightarrow> ('e, 'a, 'w, 'r, 'c) config" where
  "setlongreordering cfg longrel = cfg\<lparr>tc_net := LongReordering (tc_net cfg) longrel\<rparr>"

definition emptyConfig :: "nat \<Rightarrow> ('e, 'a, 'w, 'r, 'c) config" where
  "emptyConfig n =
     \<lparr>tc_net = MakeNetwork, tc_n = n, tc_paxos = replicate n None, tc_connected = replicate n False,
      tc_saved = replicate n None, tc_endnames = replicate n None, tc_logs = replicate n [], tc_didRecv = replicate n False,
      tc_nextIndex = replicate n 0, tc_numCommands = replicate n 0, tc_rpcs0 = 0, tc_bytes0 = 0, tc_maxIndex = 0,
      tc_maxIndex0 = 0\<rparr>"

definition makeConfig :: "nat \<Rightarrow> bool \<Rightarrow> (nat \<Rightarrow> 'e list) \<Rightarrow> (nat \<Rightarrow> ('a, 'w, 'r) Service)
    \<Rightarrow> tester_stop + ('e, 'a, 'w, 'r, 'c) config" where
  "makeConfig n unreliable names svc =
     (let cfg = setunreliable (emptyConfig n) unreliable;
          cfg1 = cfg\<lparr>tc_net := LongDelays (tc_net cfg) False\<rparr>
      in res_bind (go_foldM (\<lambda>c i. start1 c i (names i) (svc i)) cfg1 [0..<n]) (\<lambda>cfg2.
           go_foldM connect cfg2 [0..<n]))"

definition cleanup :: "('e, 'a, 'w, 'r, 'c) config \<Rightarrow> ('e, 'a, 'w, 'r, 'c) config" where
  "cleanup cfg = cfg\<lparr>tc_paxos := map (map_option Kill) (tc_paxos cfg), tc_net := Cleanup (tc_net cfg)\<rparr>"

subsection \<open>What is committed\<close>

definition checkConsistency :: "('e, 'a, 'w, 'r, 'c) config \<Rightarrow> int \<Rightarrow> 'c logEntry \<Rightarrow> tester_stop + unit" where
  "checkConsistency cfg index entry =
     (if list_ex (\<lambda>lg. case map_of lg index of None \<Rightarrow> False | Some e \<Rightarrow> e \<noteq> entry) (tc_logs cfg)
      then Inl TFatal else Inr ())"

definition apply1 :: "('e, 'a, 'w, 'r, 'c) config \<Rightarrow> nat \<Rightarrow> 'c ApplyMsg \<Rightarrow> tester_stop + ('e, 'a, 'w, 'r, 'c) config" where
  "apply1 cfg server m =
     res_bind (idx (tc_didRecv cfg) server) (\<lambda>did. res_bind (idx (tc_nextIndex cfg) server) (\<lambda>nxt0.
       let nxt = (if did = False \<and> CommandIndex m = 1 \<and> nxt0 = 0 then 1 else nxt0);
           entry = \<lparr>le_valid = CommandValid m, le_command = Some (Command m)\<rparr>
       in if CommandIndex m \<noteq> nxt then Inl TFatal
          else res_bind (checkConsistency cfg (CommandIndex m) entry) (\<lambda>_.
            res_bind (idx (tc_logs cfg) server) (\<lambda>lg. res_bind (idx (tc_numCommands cfg) server) (\<lambda>k.
              Inr (cfg\<lparr>tc_didRecv := (tc_didRecv cfg)[server := True],
                       tc_nextIndex := (tc_nextIndex cfg)[server := nxt + 1],
                       tc_logs := (tc_logs cfg)[server := mput (CommandIndex m) entry lg],
                       tc_maxIndex := max (tc_maxIndex cfg) (CommandIndex m),
                       tc_numCommands := (tc_numCommands cfg)[server := (if CommandValid m then k + 1 else k)]\<rparr>))))))"

text \<open>The goroutine \<open>applier\<close>: after \<open>stopCh\<close> is closed it only empties the channel.\<close>

datatype 'c applier_event = Stopped | Received "'c ApplyMsg"

fun applier1 :: "('e, 'a, 'w, 'r, 'c) config \<Rightarrow> nat \<Rightarrow> bool \<Rightarrow> 'c applier_event list
    \<Rightarrow> tester_stop + ('e, 'a, 'w, 'r, 'c) config" where
  "applier1 cfg server halted [] = Inr cfg"
| "applier1 cfg server halted (Stopped # es) = applier1 cfg server True es"
| "applier1 cfg server halted (Received m # es) =
     (if halted then applier1 cfg server halted es
      else res_bind (apply1 cfg server m) (\<lambda>cfg1. applier1 cfg1 server halted es))"

fun checkCommittedLoop :: "(int, 'c logEntry) gomap list \<Rightarrow> int \<Rightarrow> 'c \<Rightarrow> tester_stop + unit" where
  "checkCommittedLoop [] index command = Inl TFatal"
| "checkCommittedLoop (lg # lgs) index command =
     (case map_of lg index of
        Some e \<Rightarrow> if \<not> le_valid e then Inl TFatal else if le_command e \<noteq> Some command then Inl TFatal else Inr ()
      | None \<Rightarrow> checkCommittedLoop lgs index command)"

definition checkCommitted :: "('e, 'a, 'w, 'r, 'c) config \<Rightarrow> int \<Rightarrow> 'c \<Rightarrow> tester_stop + unit" where
  "checkCommitted cfg index command = checkCommittedLoop (tc_logs cfg) index command"

text \<open>The entries the running servers have committed at an index, in the order of the servers.\<close>

definition committedAt :: "('e, 'a, 'w, 'r, 'c) config \<Rightarrow> int \<Rightarrow> 'c logEntry list" where
  "committedAt cfg index =
     concat (map (\<lambda>i. case map_of (tc_logs cfg ! i) index of
                        Some e \<Rightarrow> if tc_nextIndex cfg ! i > index then [e] else []
                      | None \<Rightarrow> []) [0..<length (tc_paxos cfg)])"

definition nCommitted :: "('e, 'a, 'w, 'r, 'c) config \<Rightarrow> int \<Rightarrow> nat \<times> 'c logEntry" where
  "nCommitted cfg index =
     fold (\<lambda>i (n, entry). case map_of (tc_logs cfg ! i) index of
                            Some e \<Rightarrow> if tc_nextIndex cfg ! i > index then (n + 1, e) else (n, entry)
                          | None \<Rightarrow> (n, entry)) [0..<length (tc_paxos cfg)] (0, zero_logEntry)"

subsection \<open>Leaders\<close>

definition stateOf :: "('e, 'a, 'w, 'r, 'c) config \<Rightarrow> nat \<Rightarrow> tester_stop + (int \<times> bool)" where
  "stateOf cfg i =
     res_bind (idx (tc_paxos cfg) i) (\<lambda>p. case p of None \<Rightarrow> Inl (TPanic NilDeref) | Some op \<Rightarrow> Inr (GetState op))"

definition leadersOf :: "('e, 'a, 'w, 'r, 'c) config \<Rightarrow> tester_stop + (int, nat list) gomap" where
  "leadersOf cfg =
     go_foldM (\<lambda>ls i. res_bind (idx (tc_connected cfg) i) (\<lambda>c.
         if c then res_bind (stateOf cfg i) (\<lambda>(ballot, leader).
                Inr (if leader then mput ballot (mget0 [] ls ballot @ [i]) ls else ls))
         else Inr ls)) [] [0..<tc_n cfg]"

definition lastBallot :: "(int \<times> nat list) list \<Rightarrow> tester_stop + int" where
  "lastBallot =
     go_foldM (\<lambda>b (ballot, ls). if length ls > 1 then Inl TFail else Inr (if ballot > b then ballot else b)) (- 1)"

text \<open>\<open>obs\<close> are the configurations seen after each sleep, at most ten.\<close>

fun checkOneLeaderLoop :: "((int \<times> nat list) list \<Rightarrow> (int \<times> nat list) list) \<Rightarrow> ('e, 'a, 'w, 'r, 'c) config list
    \<Rightarrow> tester_stop + nat" where
  "checkOneLeaderLoop rng [] = Inl TFail"
| "checkOneLeaderLoop rng (cfg # cfgs) =
     res_bind (leadersOf cfg) (\<lambda>ls. res_bind (lastBallot (rng ls)) (\<lambda>b.
       if ls \<noteq> [] then idx (mget0 [] ls b) 0 else checkOneLeaderLoop rng cfgs))"

definition checkOneLeader :: "((int \<times> nat list) list \<Rightarrow> (int \<times> nat list) list) \<Rightarrow> (nat \<Rightarrow> ('e, 'a, 'w, 'r, 'c) config)
    \<Rightarrow> tester_stop + nat" where
  "checkOneLeader rng obs = checkOneLeaderLoop rng (map obs [0..<10])"

definition checkballots :: "('e, 'a, 'w, 'r, 'c) config \<Rightarrow> tester_stop + int" where
  "checkballots cfg =
     go_foldM (\<lambda>ballot i. res_bind (idx (tc_connected cfg) i) (\<lambda>c.
         if c then res_bind (stateOf cfg i) (\<lambda>(xballot, _).
                if ballot = - 1 then Inr xballot else if ballot \<noteq> xballot then Inl TFail else Inr ballot)
         else Inr ballot)) (- 1) [0..<tc_n cfg]"

definition checkNoLeader :: "('e, 'a, 'w, 'r, 'c) config \<Rightarrow> tester_stop + unit" where
  "checkNoLeader cfg =
     go_foldM (\<lambda>_ i. res_bind (idx (tc_connected cfg) i) (\<lambda>c.
         if c then res_bind (stateOf cfg i) (\<lambda>(_, isLeader). if isLeader then Inl TFail else Inr ()) else Inr ()))
       () [0..<tc_n cfg]"

subsection \<open>Waiting for agreement\<close>

text \<open>
  \<open>wait\<close> looks at the configuration twice per round, before and after it sleeps: \<open>obs (2 k)\<close> and
  \<open>obs (2 k + 1)\<close>.  \<open>Inr (False, _)\<close> means that a server has moved on to a greater ballot.
\<close>

fun movedOn :: "'c OmniPaxos option list \<Rightarrow> int \<Rightarrow> tester_stop + bool" where
  "movedOn [] b = Inr False"
| "movedOn (None # ps) b = Inl (TPanic NilDeref)"
| "movedOn (Some op # ps) b = (if fst (GetState op) > b then Inr True else movedOn ps b)"

definition waitEnd :: "('e, 'a, 'w, 'r, 'c) config \<Rightarrow> int \<Rightarrow> nat \<Rightarrow> tester_stop + (bool \<times> 'c logEntry)" where
  "waitEnd cfg index n =
     (case nCommitted cfg index of (nd, e) \<Rightarrow> if nd < n then Inl TFail else Inr (True, e))"

fun waitLoop :: "(nat \<Rightarrow> ('e, 'a, 'w, 'r, 'c) config) \<Rightarrow> int \<Rightarrow> nat \<Rightarrow> int \<Rightarrow> nat \<Rightarrow> nat
    \<Rightarrow> tester_stop + (bool \<times> 'c logEntry)" where
  "waitLoop obs index n startballot 0 k = waitEnd (obs (2 * k)) index n"
| "waitLoop obs index n startballot (Suc iters) k =
     (if fst (nCommitted (obs (2 * k)) index) \<ge> n then waitEnd (obs (2 * k + 1)) index n
      else if startballot > - 1
      then res_bind (movedOn (tc_paxos (obs (2 * k + 1))) startballot) (\<lambda>moved.
             if moved then Inr (False, zero_logEntry) else waitLoop obs index n startballot iters (k + 1))
      else waitLoop obs index n startballot iters (k + 1))"

definition wait :: "(nat \<Rightarrow> ('e, 'a, 'w, 'r, 'c) config) \<Rightarrow> int \<Rightarrow> nat \<Rightarrow> int \<Rightarrow> tester_stop + (bool \<times> 'c logEntry)" where
  "wait obs index n startballot = waitLoop obs index n startballot 30 0"

text \<open>
  One round of \<open>one\<close>: the servers are asked in turn until one takes the command.  The result has
  the configuration, what the servers sent, the next server to start from, and the index or \<open>-1\<close>.
\<close>

fun tryPropose :: "('e, 'a, 'w, 'r, 'c) config \<Rightarrow> nat \<Rightarrow> 'c \<Rightarrow> nat
    \<Rightarrow> tester_stop + (('e, 'a, 'w, 'r, 'c) config \<times> 'c calls \<times> nat \<times> int)" where
  "tryPropose cfg starts cmd 0 = Inr (cfg, [], starts, - 1)"
| "tryPropose cfg starts cmd (Suc si) =
     (let starts1 = (starts + 1) mod tc_n cfg
      in res_bind (idx (tc_connected cfg) starts1) (\<lambda>c. res_bind (idx (tc_paxos cfg) starts1) (\<lambda>p.
           case (if c then p else None) of
             None \<Rightarrow> tryPropose cfg starts1 cmd si
           | Some op \<Rightarrow>
               res_bind (from_go (Proposal op cmd)) (\<lambda>((op1, ms), index1, _, ok).
                 let cfg1 = cfg\<lparr>tc_paxos := (tc_paxos cfg)[starts1 := Some op1]\<rparr>
                 in if ok then Inr (cfg1, ms, starts1, index1)
                    else res_bind (tryPropose cfg1 starts1 cmd si) (\<lambda>(cfg2, ms2, s2, i2). Inr (cfg2, ms @ ms2, s2, i2))))))"

definition agreed :: "('e, 'a, 'w, 'r, 'c) config \<Rightarrow> int \<Rightarrow> 'c \<Rightarrow> nat \<Rightarrow> bool" where
  "agreed cfg index cmd expectedServers =
     (case nCommitted cfg index of
        (nd, e) \<Rightarrow> nd > 0 \<and> nd \<ge> expectedServers \<and> e = \<lparr>le_valid = True, le_command = Some cmd\<rparr>)"

text \<open>
  \<open>env k cfg\<close> are the configurations \<open>one\<close> sees while it polls in round \<open>k\<close>, which the round left as
  \<open>cfg\<close>; the first argument counts the rounds that fit into the time limit.
\<close>

fun one :: "nat \<Rightarrow> (nat \<Rightarrow> ('e, 'a, 'w, 'r, 'c) config \<Rightarrow> ('e, 'a, 'w, 'r, 'c) config list) \<Rightarrow> ('e, 'a, 'w, 'r, 'c) config
    \<Rightarrow> nat \<Rightarrow> 'c \<Rightarrow> nat \<Rightarrow> bool \<Rightarrow> tester_stop + (('e, 'a, 'w, 'r, 'c) config \<times> int)" where
  "one 0 env cfg starts cmd expectedServers retry = Inl TFatal"
| "one (Suc rounds) env cfg starts cmd expectedServers retry =
     res_bind (tryPropose cfg starts cmd (tc_n cfg)) (\<lambda>(cfg1, _, starts1, index).
       let polls = env rounds cfg1
       in if index \<noteq> - 1
          then (case find (\<lambda>c. agreed c index cmd expectedServers) polls of
                  Some c \<Rightarrow> Inr (c, index)
                | None \<Rightarrow> if retry = False then Inl TFatal
                          else one rounds env (last (cfg1 # polls)) starts1 cmd expectedServers retry)
          else one rounds env (last (cfg1 # polls)) starts1 cmd expectedServers retry)"

subsection \<open>Statistics\<close>

definition rpcCount :: "('e, 'a, 'w, 'r, 'c) config \<Rightarrow> nat \<Rightarrow> tester_stop + int" where
  "rpcCount cfg server = from_go (NetGetCount (tc_net cfg) server)"

definition rpcTotal :: "('e, 'a, 'w, 'r, 'c) config \<Rightarrow> int" where
  "rpcTotal cfg = GetTotalCount (tc_net cfg)"

definition bytesTotal :: "('e, 'a, 'w, 'r, 'c) config \<Rightarrow> int" where
  "bytesTotal cfg = GetTotalBytes (tc_net cfg)"

definition beginTest :: "('e, 'a, 'w, 'r, 'c) config \<Rightarrow> ('e, 'a, 'w, 'r, 'c) config" where
  "beginTest cfg = cfg\<lparr>tc_rpcs0 := rpcTotal cfg, tc_bytes0 := bytesTotal cfg, tc_maxIndex0 := tc_maxIndex cfg\<rparr>"

definition LogSize :: "('e, 'a, 'w, 'r, 'c) config \<Rightarrow> tester_stop + nat" where
  "LogSize cfg =
     go_foldM (\<lambda>logsize i. case savedOf cfg i of
         None \<Rightarrow> Inl (TPanic NilDeref) | Some ps \<Rightarrow> Inr (if OmnipaxosStateSize ps > logsize then OmnipaxosStateSize ps else logsize))
       0 [0..<tc_n cfg]"

definition NumberOfGossipRPCs :: "int \<Rightarrow> int" where
  "NumberOfGossipRPCs n_servers = (if n_servers < 2 then 0 else (n_servers * (n_servers - 1)) div 2)"

end
