(* ===== verification/Testing.thy ===== *)
theory Testing
  imports Tester
begin

text \<open>
  What the harness of \<open>Tester\<close> does and what its checks mean: reading the channels of a reachable
  cluster it reports exactly the disagreements, \<open>one\<close> returns only what the servers have committed,
  its crashes and restarts are steps of the cluster, and its end points follow \<open>connected\<close>.
\<close>

subsection \<open>Reading the apply channels\<close>

definition feed :: "('e, 'a, 'w, 'r, 'c) config \<Rightarrow> (nat \<times> 'c ApplyMsg) list \<Rightarrow> tester_stop + ('e, 'a, 'w, 'r, 'c) config" where
  "feed = go_foldM (\<lambda>cfg (i, m). apply1 cfg i m)"

definition entry_of :: "'c ApplyMsg \<Rightarrow> 'c logEntry" where
  "entry_of m = \<lparr>le_valid = CommandValid m, le_command = Some (Command m)\<rparr>"

text \<open>The messages of server \<open>i\<close>.\<close>

definition stream :: "nat \<Rightarrow> (nat \<times> 'c ApplyMsg) list \<Rightarrow> 'c ApplyMsg list" where
  "stream i ms = map snd (filter (\<lambda>x. fst x = i) ms)"

definition consistent :: "(nat \<times> 'c ApplyMsg) list \<Rightarrow> bool" where
  "consistent ms \<longleftrightarrow> (\<forall>x \<in> set ms. \<forall>y \<in> set ms. CommandIndex (snd x) = CommandIndex (snd y) \<longrightarrow> entry_of (snd x) = entry_of (snd y))"

definition in_order :: "nat \<Rightarrow> (nat \<times> 'c ApplyMsg) list \<Rightarrow> bool" where
  "in_order n ms \<longleftrightarrow> (\<forall>x \<in> set ms. fst x < n)
     \<and> (\<forall>i k. k < length (stream i ms) \<longrightarrow> CommandIndex (stream i ms ! k) = int k)"

text \<open>The tester has read \<open>ms\<close>.\<close>

definition has_read :: "nat \<Rightarrow> ('e, 'a, 'w, 'r, 'c) config \<Rightarrow> (nat \<times> 'c ApplyMsg) list \<Rightarrow> bool" where
  "has_read n cfg ms \<longleftrightarrow> length (tc_logs cfg) = n \<and> length (tc_nextIndex cfg) = n \<and> length (tc_didRecv cfg) = n
     \<and> length (tc_numCommands cfg) = n
     \<and> (\<forall>i < n. tc_nextIndex cfg ! i = int (length (stream i ms))
          \<and> (\<forall>k. map_of (tc_logs cfg ! i) k =
               (if 0 \<le> k \<and> k < int (length (stream i ms)) then Some (entry_of (stream i ms ! nat k)) else None)))"

lemma res_bind_Inr [simp]: "res_bind x Inr = x"
  by (cases x) simp_all

lemma stream_simps [simp]:
  "stream i [] = []" "stream i (ms @ ms') = stream i ms @ stream i ms'"
  "stream i ((j, m) # ms) = (if j = i then m # stream i ms else stream i ms)"
  by (simp_all add: stream_def)

lemma stream_mem: "m \<in> set (stream i ms) \<longleftrightarrow> (i, m) \<in> set ms"
  by (force simp: stream_def)

lemma in_order_snoc:
  assumes "in_order n (ms @ [(i, m)])"
  shows "in_order n ms" and "i < n" and "CommandIndex m = int (length (stream i ms))"
proof -
  have less: "\<forall>x \<in> set (ms @ [(i, m)]). fst x < n"
    and idx: "\<And>j k. k < length (stream j (ms @ [(i, m)])) \<Longrightarrow> CommandIndex (stream j (ms @ [(i, m)]) ! k) = int k"
    using assms by (auto simp: in_order_def)
  show "CommandIndex m = int (length (stream i ms))" using idx [of "length (stream i ms)" i] by simp
  show "i < n" using less by simp
  have "CommandIndex (stream j ms ! k) = int k" if "k < length (stream j ms)" for j k
    using idx [of k j] that by (simp add: nth_append split: if_splits)
  with less show "in_order n ms" by (simp add: in_order_def)
qed

lemma consistent_snoc:
  assumes "in_order n (ms @ [(i, m)])" and "consistent ms"
  shows "consistent (ms @ [(i, m)]) \<longleftrightarrow>
    (\<forall>j < n. length (stream i ms) < length (stream j ms) \<longrightarrow> entry_of (stream j ms ! length (stream i ms)) = entry_of m)"
    (is "_ \<longleftrightarrow> ?agree")
proof
  note o = in_order_snoc [OF assms(1)]
  have idx: "\<And>j k. k < length (stream j ms) \<Longrightarrow> CommandIndex (stream j ms ! k) = int k" using o(1) by (simp add: in_order_def)
  show ?agree if c: "consistent (ms @ [(i, m)])"
  proof (intro allI impI)
    fix j assume j: "j < n" "length (stream i ms) < length (stream j ms)"
    let ?x = "stream j ms ! length (stream i ms)"
    have "(j, ?x) \<in> set ms" using j(2) by (simp add: stream_mem [symmetric])
    moreover have "CommandIndex ?x = CommandIndex m" using idx [OF j(2)] o(3) by simp
    ultimately show "entry_of ?x = entry_of m" using c by (force simp: consistent_def)
  qed
  show "consistent (ms @ [(i, m)])" if a: ?agree
  proof -
    have "entry_of m' = entry_of m" if "(j, m') \<in> set ms" "CommandIndex m' = CommandIndex m" for j m'
    proof -
      from that(1) obtain k where k: "k < length (stream j ms)" "stream j ms ! k = m'"
        by (metis stream_mem in_set_conv_nth)
      with idx [OF k(1)] that(2) o(3) have "k = length (stream i ms)" by simp
      moreover have "j < n" using o(1) that(1) by (force simp: in_order_def)
      ultimately show ?thesis using a k by auto
    qed
    then have new: "\<And>x. x \<in> set ms \<Longrightarrow> CommandIndex (snd x) = CommandIndex m \<Longrightarrow> entry_of (snd x) = entry_of m"
      by (metis prod.collapse)
    have old: "\<And>x y. x \<in> set ms \<Longrightarrow> y \<in> set ms \<Longrightarrow> CommandIndex (snd x) = CommandIndex (snd y) \<Longrightarrow> entry_of (snd x) = entry_of (snd y)"
      using assms(2) unfolding consistent_def by blast
    show ?thesis unfolding consistent_def
    proof (intro ballI impI)
      fix x y assume xy: "x \<in> set (ms @ [(i, m)])" "y \<in> set (ms @ [(i, m)])" "CommandIndex (snd x) = CommandIndex (snd y)"
      show "entry_of (snd x) = entry_of (snd y)"
        using xy new [of x] new [of y] old [of x y] by (cases "x \<in> set ms"; cases "y \<in> set ms") simp_all
    qed
  qed
qed

lemma apply1_reads:
  assumes "in_order n (ms @ [(i, m)])" and "consistent ms" and "has_read n cfg ms"
  shows "if consistent (ms @ [(i, m)])
    then \<exists>cfg'. apply1 cfg i m = Inr cfg' \<and> has_read n cfg' (ms @ [(i, m)]) else apply1 cfg i m = Inl TFatal"
proof -
  note o = in_order_snoc [OF assms(1)]
  have len: "length (tc_logs cfg) = n" "length (tc_nextIndex cfg) = n" "length (tc_didRecv cfg) = n" "length (tc_numCommands cfg) = n"
    and nxt: "\<And>j. j < n \<Longrightarrow> tc_nextIndex cfg ! j = int (length (stream j ms))"
    and log: "\<And>j k. j < n \<Longrightarrow> map_of (tc_logs cfg ! j) k =
       (if 0 \<le> k \<and> k < int (length (stream j ms)) then Some (entry_of (stream j ms ! nat k)) else None)"
    using assms(3) by (auto simp: has_read_def)
  have first: "\<not> (CommandIndex m = 1 \<and> tc_nextIndex cfg ! i = 0)" using o nxt [OF o(2)] by auto
  have chk: "checkConsistency cfg (CommandIndex m) (entry_of m) = (if consistent (ms @ [(i, m)]) then Inr () else Inl TFatal)"
    unfolding consistent_snoc [OF assms(1,2)] checkConsistency_def
    by (auto simp: list_ex_length len log o(3) split: if_splits)
  show ?thesis
  proof (cases "consistent (ms @ [(i, m)])")
    case False
    then show ?thesis using chk first o nxt len by (auto simp: apply1_def idx_def Let_def entry_of_def)
  next
    case True
    let ?cfg = "cfg\<lparr>tc_didRecv := (tc_didRecv cfg)[i := True], tc_nextIndex := (tc_nextIndex cfg)[i := tc_nextIndex cfg ! i + 1],
       tc_logs := (tc_logs cfg)[i := mput (CommandIndex m) (entry_of m) (tc_logs cfg ! i)],
       tc_maxIndex := max (tc_maxIndex cfg) (CommandIndex m),
       tc_numCommands := (tc_numCommands cfg)[i := (if CommandValid m then tc_numCommands cfg ! i + 1 else tc_numCommands cfg ! i)]\<rparr>"
    have "apply1 cfg i m = Inr ?cfg"
      using True chk first o nxt len by (auto simp: apply1_def idx_def Let_def entry_of_def)
    moreover have "has_read n ?cfg (ms @ [(i, m)])"
      using o len nxt log by (auto simp: has_read_def nth_list_update nth_append)
    ultimately show ?thesis using True by auto
  qed
qed

lemma feed_reads:
  assumes "in_order n ms" and "has_read n cfg []"
  shows "if consistent ms then \<exists>cfg'. feed cfg ms = Inr cfg' \<and> has_read n cfg' ms else feed cfg ms = Inl TFatal"
  using assms(1)
proof (induction ms rule: rev_induct)
  case Nil
  then show ?case using assms(2) by (simp add: feed_def consistent_def)
next
  case (snoc x ms)
  obtain i m where x: "x = (i, m)" by (cases x)
  have ord: "in_order n ms" using in_order_snoc(1) snoc.prems x by blast
  have app: "feed cfg (ms @ [x]) = res_bind (feed cfg ms) (\<lambda>c. apply1 c i m)"
    by (simp add: feed_def go_foldM_append x)
  show ?case
  proof (cases "consistent ms")
    case True
    with snoc.IH [OF ord] obtain cfg1 where "feed cfg ms = Inr cfg1" "has_read n cfg1 ms" by auto
    with apply1_reads [of n ms i m cfg1] snoc.prems True x app show ?thesis by simp
  next
    case False
    then have "\<not> consistent (ms @ [x])" by (auto simp: consistent_def)
    with snoc.IH [OF ord] False app show ?thesis by simp
  qed
qed

text \<open>The channels of a reachable cluster are in order, however they are interleaved.\<close>

lemma cluster_in_order:
  assumes "cluster_reach n s" and "\<forall>x \<in> set ms. fst x < n"
    and "\<forall>i < n. \<exists>k. stream i ms = take k (op_applyCh (cl_servers s ! i))"
  shows "in_order n ms"
proof -
  have "CommandIndex (stream i ms ! k) = int k" if k: "k < length (stream i ms)" for i k
  proof -
    have "(i, stream i ms ! k) \<in> set ms" using k by (simp add: stream_mem [symmetric])
    with assms(2) have i: "i < n" by auto
    with assms(3) obtain l where "stream i ms = take l (op_applyCh (cl_servers s ! i))" by blast
    then show ?thesis using k applyCh_position(2) [OF assms(1) i, of k] by simp
  qed
  with assms(2) show ?thesis by (simp add: in_order_def)
qed

lemma emptyConfig_read: "has_read n (emptyConfig n) []"
  by (simp add: has_read_def emptyConfig_def)

subsection \<open>What the tester accepts\<close>

text \<open>
  Any messages, not only those of a reachable cluster.  A server starts at index 0 or 1 and goes on
  without gaps.
\<close>

definition first_index :: "'c ApplyMsg list \<Rightarrow> int" where
  "first_index s = (case s of [] \<Rightarrow> 0 | m # _ \<Rightarrow> if CommandIndex m = 1 then 1 else 0)"

definition in_turn :: "'c ApplyMsg list \<Rightarrow> bool" where
  "in_turn s \<longleftrightarrow> (\<forall>k < length s. CommandIndex (s ! k) = first_index s + int k)"

text \<open>The tester has accepted \<open>ms\<close>: its logs hold what the servers sent, and nothing else.\<close>

definition accepted_msgs :: "nat \<Rightarrow> ('e, 'a, 'w, 'r, 'c) config \<Rightarrow> (nat \<times> 'c ApplyMsg) list \<Rightarrow> bool" where
  "accepted_msgs n cfg ms \<longleftrightarrow> length (tc_logs cfg) = n \<and> length (tc_nextIndex cfg) = n \<and> length (tc_didRecv cfg) = n
     \<and> length (tc_numCommands cfg) = n
     \<and> (\<forall>i < n. tc_didRecv cfg ! i = (stream i ms \<noteq> [])
          \<and> tc_nextIndex cfg ! i = first_index (stream i ms) + int (length (stream i ms))
          \<and> (\<forall>k e. map_of (tc_logs cfg ! i) k = Some e \<longleftrightarrow> (\<exists>m \<in> set (stream i ms). CommandIndex m = k \<and> entry_of m = e)))"

lemma in_turn_snoc:
  assumes "in_turn s"
  shows "in_turn (s @ [m]) \<longleftrightarrow>
    CommandIndex m = (if s = [] \<and> CommandIndex m = 1 then 1 else first_index s + int (length s))"
proof (cases "s = []")
  case True
  then show ?thesis by (auto simp: in_turn_def first_index_def)
next
  case False
  then have "first_index (s @ [m]) = first_index s" by (cases s) (simp_all add: first_index_def)
  with assms False show ?thesis by (auto simp: in_turn_def nth_append less_Suc_eq)
qed

lemma in_turn_butlast: "in_turn (s @ [m]) \<Longrightarrow> in_turn s"
proof (cases s)
  case (Cons a s')
  then have "first_index (s @ [m]) = first_index s" by (simp add: first_index_def)
  then show "in_turn (s @ [m]) \<Longrightarrow> in_turn s" by (auto simp: in_turn_def nth_append split: if_splits)
qed (simp add: in_turn_def)

lemma consistent_append:
  "consistent (ms @ [(i, m)]) \<longleftrightarrow> consistent ms \<and> (\<forall>(j, m') \<in> set ms. CommandIndex m' = CommandIndex m \<longrightarrow> entry_of m' = entry_of m)"
  unfolding consistent_def by (auto simp: split_def)

lemma apply1_accepts:
  assumes "accepted_msgs n cfg ms" and "i < n" and "\<forall>x \<in> set ms. fst x < n" and "in_turn (stream i ms)" and "consistent ms"
  shows "if in_turn (stream i ms @ [m]) \<and> consistent (ms @ [(i, m)])
    then \<exists>cfg'. apply1 cfg i m = Inr cfg' \<and> accepted_msgs n cfg' (ms @ [(i, m)]) else apply1 cfg i m = Inl TFatal"
proof -
  have len: "length (tc_logs cfg) = n" "length (tc_nextIndex cfg) = n" "length (tc_didRecv cfg) = n" "length (tc_numCommands cfg) = n"
    and did: "\<And>j. j < n \<Longrightarrow> tc_didRecv cfg ! j = (stream j ms \<noteq> [])"
    and nxt: "\<And>j. j < n \<Longrightarrow> tc_nextIndex cfg ! j = first_index (stream j ms) + int (length (stream j ms))"
    and log: "\<And>j k e. j < n \<Longrightarrow> map_of (tc_logs cfg ! j) k = Some e \<longleftrightarrow> (\<exists>m \<in> set (stream j ms). CommandIndex m = k \<and> entry_of m = e)"
    using assms(1) by (auto simp: accepted_msgs_def)
  define turn where "turn = (if stream i ms = [] \<and> CommandIndex m = 1 then 1 else first_index (stream i ms) + int (length (stream i ms)))"
  have nx: "(if tc_didRecv cfg ! i = False \<and> CommandIndex m = 1 \<and> tc_nextIndex cfg ! i = 0 then 1 else tc_nextIndex cfg ! i) = turn"
    using did [OF assms(2)] nxt [OF assms(2)] by (auto simp: turn_def first_index_def)
  have "checkConsistency cfg (CommandIndex m) (entry_of m) = Inl TFatal
      \<longleftrightarrow> (\<exists>j < n. \<exists>e. map_of (tc_logs cfg ! j) (CommandIndex m) = Some e \<and> e \<noteq> entry_of m)"
    by (auto simp: checkConsistency_def list_ex_length len split: option.splits)
  also have "\<dots> \<longleftrightarrow> \<not> consistent (ms @ [(i, m)])"
    unfolding consistent_append using assms(3,5) log by (fastforce simp: stream_mem)
  finally have chk: "checkConsistency cfg (CommandIndex m) (entry_of m) = (if consistent (ms @ [(i, m)]) then Inr () else Inl TFatal)"
    by (auto simp: checkConsistency_def split: if_splits)
  let ?cfg = "cfg\<lparr>tc_didRecv := (tc_didRecv cfg)[i := True], tc_nextIndex := (tc_nextIndex cfg)[i := turn + 1],
     tc_logs := (tc_logs cfg)[i := mput (CommandIndex m) (entry_of m) (tc_logs cfg ! i)],
     tc_maxIndex := max (tc_maxIndex cfg) (CommandIndex m),
     tc_numCommands := (tc_numCommands cfg)[i := (if CommandValid m then tc_numCommands cfg ! i + 1 else tc_numCommands cfg ! i)]\<rparr>"
  have at: "idx (tc_logs cfg) i = Inr (tc_logs cfg ! i)" "idx (tc_nextIndex cfg) i = Inr (tc_nextIndex cfg ! i)"
    "idx (tc_didRecv cfg) i = Inr (tc_didRecv cfg ! i)" "idx (tc_numCommands cfg) i = Inr (tc_numCommands cfg ! i)"
    using len assms(2) by (simp_all add: idx_def)
  have run: "apply1 cfg i m = (if CommandIndex m \<noteq> turn then Inl TFatal
      else res_bind (checkConsistency cfg (CommandIndex m) (entry_of m)) (\<lambda>_. Inr ?cfg))"
    unfolding apply1_def Let_def at nx entry_of_def res_bind_simps ..
  have turn: "in_turn (stream i ms @ [m]) \<longleftrightarrow> CommandIndex m = turn"
    unfolding in_turn_snoc [OF assms(4)] turn_def by simp
  show ?thesis
  proof (cases "in_turn (stream i ms @ [m]) \<and> consistent (ms @ [(i, m)])")
    case False
    then show ?thesis unfolding turn run chk by auto
  next
    case True
    then have ix: "CommandIndex m = turn" by (simp add: turn)
    have "apply1 cfg i m = Inr ?cfg" using True unfolding run chk turn by simp
    moreover have "accepted_msgs n ?cfg (ms @ [(i, m)])"
    proof -
      have "turn + 1 = first_index (stream i ms @ [m]) + int (length (stream i ms @ [m]))"
        using ix by (cases "stream i ms") (auto simp: turn_def first_index_def split: if_splits)
      moreover have "map_of (mput (CommandIndex m) (entry_of m) (tc_logs cfg ! i)) k = Some e
          \<longleftrightarrow> (\<exists>m' \<in> set (stream i ms @ [m]). CommandIndex m' = k \<and> entry_of m' = e)" for k e
        using True log [OF assms(2), of k e] unfolding consistent_append by (auto simp: update_conv' stream_mem)
      ultimately show ?thesis using len did nxt log assms(2) by (auto simp: accepted_msgs_def nth_list_update)
    qed
    ultimately show ?thesis using True by auto
  qed
qed

lemma feed_accepts:
  assumes "accepted_msgs n cfg []" and "\<forall>x \<in> set ms. fst x < n"
  shows "if (\<forall>i < n. in_turn (stream i ms)) \<and> consistent ms
    then \<exists>cfg'. feed cfg ms = Inr cfg' \<and> accepted_msgs n cfg' ms else feed cfg ms = Inl TFatal"
  using assms(2)
proof (induction ms rule: rev_induct)
  case Nil
  then show ?case using assms(1) by (simp add: feed_def consistent_def in_turn_def)
next
  case (snoc x ms)
  obtain i m where x: "x = (i, m)" by (cases x)
  have i: "i < n" "\<forall>x \<in> set ms. fst x < n" using snoc.prems x by auto
  have app: "feed cfg (ms @ [x]) = res_bind (feed cfg ms) (\<lambda>c. apply1 c i m)"
    by (simp add: feed_def go_foldM_append x)
  have split: "(\<forall>j < n. in_turn (stream j (ms @ [x]))) \<longleftrightarrow> (\<forall>j < n. in_turn (stream j ms)) \<and> in_turn (stream i ms @ [m])"
    using i(1) x in_turn_butlast [of "stream i ms" m] by auto
  show ?case
  proof (cases "(\<forall>j < n. in_turn (stream j ms)) \<and> consistent ms")
    case True
    with snoc.IH [OF i(2)] obtain cfg1 where c: "feed cfg ms = Inr cfg1" "accepted_msgs n cfg1 ms" by auto
    have t: "in_turn (stream i ms)" "consistent ms" using True i(1) by auto
    from apply1_accepts [OF c(2) i t, of m] True x show ?thesis unfolding split app c(1) by simp
  next
    case False
    then have "\<not> ((\<forall>j < n. in_turn (stream j (ms @ [x]))) \<and> consistent (ms @ [x]))"
      unfolding split unfolding x consistent_append by blast
    with snoc.IH [OF i(2)] False app show ?thesis by simp
  qed
qed

text \<open>
  C35: the tester reports exactly the errors it looks for.  Whatever messages the servers send, and
  however the tester interleaves them, it accepts them all if every server starts at index 0 or 1
  and goes on without gaps and no two messages have different commands at an index, and its logs then
  hold exactly what was sent; otherwise it stops with a fatal error.
\<close>
theorem tester_detects_disagreement:
  assumes "accepted_msgs n cfg []" and "\<forall>x \<in> set ms. fst x < n"
  shows "if (\<forall>i < n. in_turn (stream i ms)) \<and> consistent ms
    then \<exists>cfg'. feed cfg ms = Inr cfg' \<and> accepted_msgs n cfg' ms else feed cfg ms = Inl TFatal"
  using assms by (rule feed_accepts)

theorem tester_detects_disagreement_witness:
  "feed (emptyConfig 3 :: (nat, unit, unit, unit, nat) config)
     [(2, \<lparr>CommandValid = True, Command = 7, CommandIndex = 0\<rparr>), (0, \<lparr>CommandValid = True, Command = 8, CommandIndex = 0\<rparr>)] = Inl TFatal
   \<and> feed (emptyConfig 3 :: (nat, unit, unit, unit, nat) config)
     [(2, \<lparr>CommandValid = True, Command = 7, CommandIndex = 1\<rparr>), (2, \<lparr>CommandValid = True, Command = 8, CommandIndex = 3\<rparr>)] = Inl TFatal"
proof -
  let ?ms = "[(2, \<lparr>CommandValid = True, Command = 7 :: nat, CommandIndex = 0\<rparr>), (0, \<lparr>CommandValid = True, Command = 8, CommandIndex = 0\<rparr>)]"
  let ?ns = "[(2, \<lparr>CommandValid = True, Command = 7 :: nat, CommandIndex = 1\<rparr>), (2, \<lparr>CommandValid = True, Command = 8, CommandIndex = 3\<rparr>)]"
  have init: "accepted_msgs 3 (emptyConfig 3 :: (nat, unit, unit, unit, nat) config) []"
    by (simp add: accepted_msgs_def emptyConfig_def first_index_def)
  have "\<not> consistent ?ms" by (simp add: consistent_def entry_of_def)
  with tester_detects_disagreement [OF init, of ?ms]
  have 1: "feed (emptyConfig 3 :: (nat, unit, unit, unit, nat) config) ?ms = Inl TFatal" by simp
  have "\<not> in_turn (stream 2 ?ns)" by (auto simp: in_turn_def first_index_def less_Suc_eq nth_Cons' intro!: exI [of _ 1])
  then have "\<not> (\<forall>i < 3. in_turn (stream i ?ns))" by (metis less_add_same_cancel1 numeral_3_eq_3 lessI numeral_2_eq_2)
  with tester_detects_disagreement [OF init, of ?ns]
  have "feed (emptyConfig 3 :: (nat, unit, unit, unit, nat) config) ?ns = Inl TFatal" by simp
  with 1 show ?thesis by blast
qed

subsection \<open>What one returns\<close>

lemma nCommitted_committedAt:
  "nCommitted cfg index = (length (committedAt cfg index), last (zero_logEntry # committedAt cfg index))"
proof -
  let ?f = "\<lambda>i (n, entry). case map_of (tc_logs cfg ! i) index of
      Some e \<Rightarrow> if tc_nextIndex cfg ! i > index then (n + 1, e) else (n, entry) | None \<Rightarrow> (n, entry)"
  let ?g = "\<lambda>i. case map_of (tc_logs cfg ! i) index of Some e \<Rightarrow> if tc_nextIndex cfg ! i > index then [e] else [] | None \<Rightarrow> []"
  have "fold ?f xs (k, e) = (k + length (concat (map ?g xs)), last (e # concat (map ?g xs)))" for xs k e
    by (induction xs arbitrary: k e) (auto split: option.splits)
  from this [of "[0..<length (tc_paxos cfg)]" 0 zero_logEntry] show ?thesis by (simp add: nCommitted_def committedAt_def)
qed

lemma length_singletons: "length (concat (map (\<lambda>i. if P i then [f i] else []) [0..<n])) = card {i. i < n \<and> P i}"
proof -
  have "length (concat (map (\<lambda>i. if P i then [f i] else []) xs)) = length (filter P xs)" for xs
    by (induction xs) auto
  moreover have "set (filter P [0..<n]) = {i. i < n \<and> P i}" by auto
  ultimately show ?thesis by (metis distinct_card distinct_filter distinct_upt)
qed

lemma committedAt_read:
  assumes "has_read n cfg ms" and "length (tc_paxos cfg) = n"
  shows "committedAt cfg index = concat (map (\<lambda>i. if 0 \<le> index \<and> index < int (length (stream i ms))
    then [entry_of (stream i ms ! nat index)] else []) [0..<n])"
proof -
  have "(case map_of (tc_logs cfg ! i) index of Some e \<Rightarrow> if tc_nextIndex cfg ! i > index then [e] else [] | None \<Rightarrow> [])
      = (if 0 \<le> index \<and> index < int (length (stream i ms)) then [entry_of (stream i ms ! nat index)] else [])"
    if "i < n" for i using assms(1) that by (simp add: has_read_def)
  then show ?thesis unfolding committedAt_def assms(2) by (intro arg_cong [of _ _ concat] map_cong) auto
qed

text \<open>The servers that have committed \<open>cmd\<close> at \<open>index\<close> among those whose messages the tester has read.\<close>

definition committers :: "nat \<Rightarrow> (nat \<times> 'c ApplyMsg) list \<Rightarrow> int \<Rightarrow> 'c \<Rightarrow> nat set" where
  "committers n ms index cmd = {i. i < n \<and> 0 \<le> index \<and> index < int (length (stream i ms))
     \<and> entry_of (stream i ms ! nat index) = \<lparr>le_valid = True, le_command = Some cmd\<rparr>}"

lemma agreed_committers:
  assumes "has_read n cfg ms" and "length (tc_paxos cfg) = n" and "in_order n ms" and "consistent ms"
    and "agreed cfg index cmd expected"
  shows "expected \<le> card (committers n ms index cmd) \<and> committers n ms index cmd \<noteq> {}"
proof -
  let ?P = "\<lambda>i. 0 \<le> index \<and> index < int (length (stream i ms))"
  let ?e = "\<lparr>le_valid = True, le_command = Some cmd\<rparr>"
  note com = committedAt_read [OF assms(1,2), of index]
  from assms(5) have nd: "0 < length (committedAt cfg index)" "expected \<le> length (committedAt cfg index)"
    and lst: "last (zero_logEntry # committedAt cfg index) = ?e"
    by (auto simp: agreed_def nCommitted_committedAt)
  have "?e \<in> set (committedAt cfg index)" using nd(1) lst by (metis last_ConsR last_in_set length_greater_0_conv)
  then obtain j where j: "j < n" "?P j" "entry_of (stream j ms ! nat index) = ?e"
    unfolding com by (auto split: if_splits)
  have idx: "CommandIndex (stream i ms ! nat index) = index" if "?P i" for i
    using assms(3) that by (auto simp: in_order_def)
  have mem: "(i, stream i ms ! nat index) \<in> set ms" if "?P i" for i
    using that by (simp add: stream_mem [symmetric] nat_less_iff)
  have "entry_of (stream i ms ! nat index) = ?e" if "?P i" for i
    using assms(4) mem [OF that] mem [OF j(2)] idx [OF that] idx [OF j(2)] j(3) unfolding consistent_def by force
  then have "committers n ms index cmd = {i. i < n \<and> ?P i}" by (auto simp: committers_def)
  then show ?thesis using nd j by (auto simp: com length_singletons)
qed

lemma one_agreed: "one rounds env cfg starts cmd expected retry = Inr (cfg', index) \<Longrightarrow> agreed cfg' index cmd expected"
proof (induction rounds arbitrary: cfg starts)
  case (Suc rounds)
  then obtain cfg1 ms starts1 i where t: "tryPropose cfg starts cmd (tc_n cfg) = Inr (cfg1, ms, starts1, i)" by auto
  let ?next = "one rounds env (last (cfg1 # env rounds cfg1)) starts1 cmd expected retry"
  have "?next = Inr (cfg', index)
    \<or> find (\<lambda>c. agreed c i cmd expected) (env rounds cfg1) = Some cfg' \<and> i = index"
    using Suc.prems t by (auto simp: Let_def simp del: last.simps split: if_splits option.splits)
  then show ?case by (auto simp: find_Some_iff simp del: last.simps intro: Suc.IH)
qed simp

text \<open>
  \<open>one\<close> tells the truth.  If it returns an index, then in a configuration it has seen at least one and
  at least the expected number of servers have committed the command at that index.
\<close>
theorem one_returns_committed:
  assumes "one rounds env cfg starts cmd expected retry = Inr (cfg', index)"
    and "has_read n cfg' ms" and "length (tc_paxos cfg') = n" and "in_order n ms" and "consistent ms"
  shows "expected \<le> card (committers n ms index cmd) \<and> committers n ms index cmd \<noteq> {}"
  using agreed_committers [OF assms(2-5) one_agreed [OF assms(1)]] .

text \<open>A tester whose servers are those of \<open>lost_accept_end\<close>, and what it has read when command 9 is decided.\<close>

definition read_msgs :: "(nat \<times> nat ApplyMsg) list" where
  "read_msgs = map (\<lambda>(k, c). (2, \<lparr>CommandValid = True, Command = c, CommandIndex = k\<rparr>)) [(0, 7), (1, 8), (2, 9)]"

definition asked_cfg :: "(nat, unit, unit, unit, nat) config" where
  "asked_cfg = (emptyConfig 3)\<lparr>tc_paxos := map Some (cl_servers lost_accept_end), tc_connected := [False, False, True]\<rparr>"

definition read_cfg :: "(nat, unit, unit, unit, nat) config" where
  "read_cfg = (case feed asked_cfg read_msgs of Inl _ \<Rightarrow> asked_cfg | Inr c \<Rightarrow> c)"

lemma read_cfg_read: "has_read 3 read_cfg read_msgs" "in_order 3 read_msgs" "consistent read_msgs"
proof -
  show c: "consistent read_msgs" by (simp add: consistent_def read_msgs_def entry_of_def)
  show o: "in_order 3 read_msgs"
    by (auto simp: in_order_def read_msgs_def less_Suc_eq nth_Cons' numeral_3_eq_3 split: if_splits)
  have "has_read 3 asked_cfg []" by (simp add: has_read_def asked_cfg_def emptyConfig_def)
  from feed_reads [OF o this] c show "has_read 3 read_cfg read_msgs" by (auto simp: read_cfg_def)
qed

lemma asked_proposal:
  "(case tryPropose asked_cfg 1 9 (tc_n asked_cfg) of Inr (_, _, _, i) \<Rightarrow> Some i | Inl _ \<Rightarrow> None) = Some 2"
  by code_simp

theorem one_returns_committed_witness:
  "one 1 (\<lambda>_ _. [read_cfg]) asked_cfg 1 9 1 True = Inr (read_cfg, 2) \<and> committers 3 read_msgs 2 9 \<noteq> {}"
proof
  have "agreed read_cfg 2 9 1" by code_simp
  then show o: "one 1 (\<lambda>_ _. [read_cfg]) asked_cfg 1 9 1 True = Inr (read_cfg, 2)"
    using asked_proposal by (auto split: sum.splits)
  have "length (tc_paxos read_cfg) = 3" by code_simp
  then show "committers 3 read_msgs 2 9 \<noteq> {}"
    using one_returns_committed [OF o read_cfg_read(1) _ read_cfg_read(2,3)] by simp
qed

end
