(* ===== verification/Endpoints.thy ===== *)
theory Endpoints
  imports Tester
begin

text \<open>
  The end points of the test harness.  \<open>connect\<close>, \<open>disconnect\<close>, \<open>partiallyConnect\<close>,
  \<open>partiallyDisconnect\<close>, \<open>crash1\<close> and \<open>start1\<close> of \<open>a2-omnipaxos/config.go\<close> keep the enabled end points in
  step with a set of links between servers, which \<open>cfg.connected\<close> gives as long as no partial operation
  is used; an instance that was replaced can send nothing any more, and a start builds the initial
  cluster.
\<close>

subsection \<open>End points\<close>

definition enabled :: "('e, 'v, 'a, 'w, 'r) Network \<Rightarrow> 'e \<Rightarrow> bool" where
  "enabled net e = mget0 False (rn_enabled net) e"

definition linked_to :: "('e, 'v, 'a, 'w, 'r) Network \<Rightarrow> 'e \<Rightarrow> 'v option" where
  "linked_to net e = mget0 None (rn_connections net) e"

definition served :: "('e, 'v, 'a, 'w, 'r) Network \<Rightarrow> 'v \<Rightarrow> nat option" where
  "served net v = mget0 None (rn_servers net) v"

lemma reaches_iff:
  "reaches net e \<noteq> None \<longleftrightarrow>
     enabled net e \<and> (\<exists>v p. linked_to net e = Some v \<and> served net v = Some p \<and> map_of (rn_heap net) p \<noteq> None)"
  by (auto simp: reaches_def enabled_def linked_to_def served_def bind_eq_Some_conv)

text \<open>The name of the end point from \<open>i\<close> to \<open>j\<close>.\<close>

definition name_at :: "'e list option list \<Rightarrow> nat \<Rightarrow> nat \<Rightarrow> 'e option" where
  "name_at names i j =
     (if i < length names then case names ! i of None \<Rightarrow> None | Some es \<Rightarrow> if j < length es then Some (es ! j) else None
      else None)"

lemma endname_iff: "endname names i j = Inr e \<longleftrightarrow> name_at names i j = Some e"
  by (auto simp: endname_def name_at_def idx_def split: option.splits if_splits)

lemma present_name: "name_at names i j = Some e \<Longrightarrow> present names i = Inr True"
  by (auto simp: present_def name_at_def idx_def split: if_splits option.splits)

lemma upd_iff: "upd xs i v = Inr ys \<longleftrightarrow> i < length xs \<and> ys = xs[i := v]"
  by (auto simp: upd_def)

lemma idx_iff: "idx xs i = Inr v \<longleftrightarrow> i < length xs \<and> v = xs ! i"
  by (auto simp: idx_def)

text \<open>What a loop over end points changes.\<close>

definition same_but_enabled :: "('e, 'v, 'a, 'w, 'r) Network \<Rightarrow> ('e, 'v, 'a, 'w, 'r) Network \<Rightarrow> bool" where
  "same_but_enabled net net' \<longleftrightarrow> net' = net\<lparr>rn_enabled := rn_enabled net'\<rparr>"

lemma same_but_enabled_simps:
  assumes "same_but_enabled net net'"
  shows "rn_ends net' = rn_ends net" "linked_to net' = linked_to net" "served net' = served net" "rn_heap net' = rn_heap net"
proof -
  from assms have eq: "net' = net\<lparr>rn_enabled := rn_enabled net'\<rparr>" by (simp add: same_but_enabled_def)
  show "rn_ends net' = rn_ends net" "linked_to net' = linked_to net" "served net' = served net" "rn_heap net' = rn_heap net"
    by (subst eq, simp add: linked_to_def served_def fun_eq_iff)+
qed

lemma switchEnds_Inr:
  assumes "switchEnds P nm yes net js = Inr net'"
  shows "same_but_enabled net net'"
    and "enabled net' e = (if \<exists>j \<in> set js. P j = Inr True \<and> nm j = Inr e then yes else enabled net e)"
proof -
  have "same_but_enabled net net' \<and> enabled net' e = (if \<exists>j \<in> set js. P j = Inr True \<and> nm j = Inr e then yes else enabled net e)"
    using assms
  proof (induction js arbitrary: net)
    case Nil
    then show ?case by (simp add: switchEnds_def same_but_enabled_def)
  next
    case (Cons j js)
    then obtain b where b: "P j = Inr b" by (auto simp: switchEnds_def)
    show ?case
    proof (cases b)
      case False
      with Cons.prems b have "switchEnds P nm yes net js = Inr net'" by (simp add: switchEnds_def)
      with Cons.IH b False show ?thesis by auto
    next
      case True
      with Cons.prems b obtain e' where e': "nm j = Inr e'" and "switchEnds P nm yes (Enable net e' yes) js = Inr net'"
        by (auto simp: switchEnds_def)
      with Cons.IH have s: "same_but_enabled (Enable net e' yes) net'"
        and en: "enabled net' e = (if \<exists>j \<in> set js. P j = Inr True \<and> nm j = Inr e then yes else enabled (Enable net e' yes) e)"
        by auto
      have "same_but_enabled net net'" using s by (simp add: same_but_enabled_def Enable_def)
      moreover have "enabled (Enable net e' yes) e = (if e = e' then yes else enabled net e)"
        by (simp add: enabled_def Enable_def)
      ultimately show ?thesis using en b True e' by auto
    qed
  qed
  then show "same_but_enabled net net'"
    and "enabled net' e = (if \<exists>j \<in> set js. P j = Inr True \<and> nm j = Inr e then yes else enabled net e)" by auto
qed

lemma same_but_enabled_trans:
  "same_but_enabled net net1 \<Longrightarrow> same_but_enabled net1 net2 \<Longrightarrow> same_but_enabled net net2"
  by (cases net; cases net1; cases net2) (simp add: same_but_enabled_def)

lemma connect_Inr:
  assumes "connect cfg i = Inr cfg'"
  shows "i < length (tc_connected cfg)" and "same_but_enabled (tc_net cfg) (tc_net cfg')"
    and "cfg' = cfg\<lparr>tc_connected := (tc_connected cfg)[i := True], tc_net := tc_net cfg'\<rparr>"
    and "enabled (tc_net cfg') e \<longleftrightarrow> enabled (tc_net cfg) e
      \<or> (\<exists>j < tc_n cfg. j < length (tc_connected cfg) \<and> (tc_connected cfg)[i := True] ! j
           \<and> (name_at (tc_endnames cfg) i j = Some e \<or> name_at (tc_endnames cfg) j i = Some e))"
proof -
  from assms obtain net1 net2 where i: "i < length (tc_connected cfg)"
    and 1: "switchEnds (idx ((tc_connected cfg)[i := True])) (endname (tc_endnames cfg) i) True (tc_net cfg) [0..<tc_n cfg] = Inr net1"
    and 2: "switchEnds (idx ((tc_connected cfg)[i := True])) (\<lambda>j. endname (tc_endnames cfg) j i) True net1 [0..<tc_n cfg] = Inr net2"
    and cfg': "cfg' = cfg\<lparr>tc_connected := (tc_connected cfg)[i := True], tc_net := net2\<rparr>"
    by (auto simp: connect_def upd_iff)
  show "i < length (tc_connected cfg)" by (rule i)
  show "same_but_enabled (tc_net cfg) (tc_net cfg')"
    using switchEnds_Inr(1) [OF 1] switchEnds_Inr(1) [OF 2] cfg' by (simp add: same_but_enabled_trans)
  show "cfg' = cfg\<lparr>tc_connected := (tc_connected cfg)[i := True], tc_net := tc_net cfg'\<rparr>" using cfg' by simp
  show "enabled (tc_net cfg') e \<longleftrightarrow> enabled (tc_net cfg) e
      \<or> (\<exists>j < tc_n cfg. j < length (tc_connected cfg) \<and> (tc_connected cfg)[i := True] ! j
           \<and> (name_at (tc_endnames cfg) i j = Some e \<or> name_at (tc_endnames cfg) j i = Some e))"
    using switchEnds_Inr(2) [OF 1, of e] switchEnds_Inr(2) [OF 2, of e] cfg'
    by (auto simp: idx_iff endname_iff)
qed

lemma disconnect_Inr:
  assumes "disconnect cfg i = Inr cfg'"
  shows "i < length (tc_connected cfg)" and "same_but_enabled (tc_net cfg) (tc_net cfg')"
    and "cfg' = cfg\<lparr>tc_connected := (tc_connected cfg)[i := False], tc_net := tc_net cfg'\<rparr>"
    and "enabled (tc_net cfg') e \<longleftrightarrow> enabled (tc_net cfg) e
      \<and> \<not> (\<exists>j < tc_n cfg. name_at (tc_endnames cfg) i j = Some e \<or> name_at (tc_endnames cfg) j i = Some e)"
proof -
  from assms obtain net1 net2 where i: "i < length (tc_connected cfg)"
    and 1: "switchEnds (\<lambda>_. present (tc_endnames cfg) i) (endname (tc_endnames cfg) i) False (tc_net cfg) [0..<tc_n cfg] = Inr net1"
    and 2: "switchEnds (present (tc_endnames cfg)) (\<lambda>j. endname (tc_endnames cfg) j i) False net1 [0..<tc_n cfg] = Inr net2"
    and cfg': "cfg' = cfg\<lparr>tc_connected := (tc_connected cfg)[i := False], tc_net := net2\<rparr>"
    by (auto simp: disconnect_def upd_iff Let_def)
  show "i < length (tc_connected cfg)" by (rule i)
  show "same_but_enabled (tc_net cfg) (tc_net cfg')"
    using switchEnds_Inr(1) [OF 1] switchEnds_Inr(1) [OF 2] cfg' by (simp add: same_but_enabled_trans)
  show "cfg' = cfg\<lparr>tc_connected := (tc_connected cfg)[i := False], tc_net := tc_net cfg'\<rparr>" using cfg' by simp
  show "enabled (tc_net cfg') e \<longleftrightarrow> enabled (tc_net cfg) e
      \<and> \<not> (\<exists>j < tc_n cfg. name_at (tc_endnames cfg) i j = Some e \<or> name_at (tc_endnames cfg) j i = Some e)"
    using switchEnds_Inr(2) [OF 1, of e] switchEnds_Inr(2) [OF 2, of e] cfg'
    by (auto simp: endname_iff dest: present_name)
qed

lemma partiallyDisconnect_Inr:
  assumes "partiallyDisconnect cfg i js = Inr cfg'"
  shows "same_but_enabled (tc_net cfg) (tc_net cfg')" and "cfg' = cfg\<lparr>tc_net := tc_net cfg'\<rparr>"
    and "enabled (tc_net cfg') e \<longleftrightarrow> enabled (tc_net cfg) e
      \<and> \<not> (\<exists>j \<in> set js. name_at (tc_endnames cfg) i j = Some e \<or> name_at (tc_endnames cfg) j i = Some e)"
proof -
  from assms obtain net1 net2 where
    1: "switchEnds (\<lambda>_. present (tc_endnames cfg) i) (endname (tc_endnames cfg) i) False (tc_net cfg) js = Inr net1"
    and 2: "switchEnds (present (tc_endnames cfg)) (\<lambda>j. endname (tc_endnames cfg) j i) False net1 js = Inr net2"
    and cfg': "cfg' = cfg\<lparr>tc_net := net2\<rparr>"
    by (auto simp: partiallyDisconnect_def Let_def)
  show "same_but_enabled (tc_net cfg) (tc_net cfg')"
    using switchEnds_Inr(1) [OF 1] switchEnds_Inr(1) [OF 2] cfg' by (simp add: same_but_enabled_trans)
  show "cfg' = cfg\<lparr>tc_net := tc_net cfg'\<rparr>" using cfg' by simp
  show "enabled (tc_net cfg') e \<longleftrightarrow> enabled (tc_net cfg) e
      \<and> \<not> (\<exists>j \<in> set js. name_at (tc_endnames cfg) i j = Some e \<or> name_at (tc_endnames cfg) j i = Some e)"
    using switchEnds_Inr(2) [OF 1, of e] switchEnds_Inr(2) [OF 2, of e] cfg'
    by (auto simp: endname_iff dest: present_name)
qed

text \<open>The first loop of \<open>partiallyConnect\<close> sets flags and switches on the outgoing end points.\<close>

lemma connect_loop:
  assumes "go_foldM (\<lambda>(c, net) j. res_bind (upd c j True) (\<lambda>c1.
      res_bind (endname names i j) (\<lambda>e. Inr (c1, Enable net e True)))) (con, net) js = Inr (con', net')"
  shows "length con' = length con" and "set js \<subseteq> {..<length con}"
    and "a < length con \<Longrightarrow> con' ! a \<longleftrightarrow> con ! a \<or> a \<in> set js" and "same_but_enabled net net'"
    and "enabled net' e \<longleftrightarrow> enabled net e \<or> (\<exists>j \<in> set js. name_at names i j = Some e)"
proof -
  have "length con' = length con \<and> set js \<subseteq> {..<length con} \<and> (a < length con \<longrightarrow> (con' ! a \<longleftrightarrow> con ! a \<or> a \<in> set js))
    \<and> same_but_enabled net net' \<and> (enabled net' e \<longleftrightarrow> enabled net e \<or> (\<exists>j \<in> set js. name_at names i j = Some e))"
    using assms
  proof (induction js arbitrary: con net)
    case (Cons j js)
    from Cons.prems obtain x where j: "j < length con" "name_at names i j = Some x"
      and rest: "go_foldM (\<lambda>(c, net) j. res_bind (upd c j True) (\<lambda>c1.
        res_bind (endname names i j) (\<lambda>e. Inr (c1, Enable net e True)))) (con[j := True], Enable net x True) js = Inr (con', net')"
      by (auto simp: upd_iff endname_iff)
    note IH = Cons.IH [OF rest]
    have "same_but_enabled net net'" using IH by (simp add: same_but_enabled_def Enable_def)
    moreover have "enabled (Enable net x True) e \<longleftrightarrow> e = x \<or> enabled net e" by (simp add: enabled_def Enable_def)
    moreover have "con[j := True] ! a \<longleftrightarrow> con ! a \<or> a = j" using j(1) by (auto simp: nth_list_update)
    ultimately show ?case using IH j by auto
  qed (simp add: same_but_enabled_def)
  then show "length con' = length con" and "set js \<subseteq> {..<length con}"
    and "a < length con \<Longrightarrow> con' ! a \<longleftrightarrow> con ! a \<or> a \<in> set js" and "same_but_enabled net net'"
    and "enabled net' e \<longleftrightarrow> enabled net e \<or> (\<exists>j \<in> set js. name_at names i j = Some e)" by auto
qed

lemma partiallyConnect_Inr:
  assumes "partiallyConnect cfg i js = Inr cfg'"
  shows "i < length (tc_connected cfg)" and "set js \<subseteq> {..<length (tc_connected cfg)}"
    and "same_but_enabled (tc_net cfg) (tc_net cfg')"
    and "cfg' = cfg\<lparr>tc_connected := tc_connected cfg', tc_net := tc_net cfg'\<rparr>"
    and "length (tc_connected cfg') = length (tc_connected cfg)"
    and "a < length (tc_connected cfg) \<Longrightarrow> tc_connected cfg' ! a \<longleftrightarrow> tc_connected cfg ! a \<or> a = i \<or> a \<in> set js"
    and "enabled (tc_net cfg') e \<longleftrightarrow> enabled (tc_net cfg) e
      \<or> (\<exists>j \<in> set js. name_at (tc_endnames cfg) i j = Some e \<or> name_at (tc_endnames cfg) j i = Some e)"
proof -
  from assms obtain con1 net1 net2 where i: "i < length (tc_connected cfg)"
    and 1: "go_foldM (\<lambda>(c, net) j. res_bind (upd c j True) (\<lambda>c1. res_bind (endname (tc_endnames cfg) i j) (\<lambda>e. Inr (c1, Enable net e True))))
      ((tc_connected cfg)[i := True], tc_net cfg) js = Inr (con1, net1)"
    and 2: "switchEnds (idx con1) (\<lambda>j. endname (tc_endnames cfg) j i) True net1 js = Inr net2"
    and cfg': "cfg' = cfg\<lparr>tc_connected := con1, tc_net := net2\<rparr>"
    by (auto simp: partiallyConnect_def upd_iff Let_def)
  note l = connect_loop [OF 1]
  show "i < length (tc_connected cfg)" by (rule i)
  show js: "set js \<subseteq> {..<length (tc_connected cfg)}" using l(2) by simp
  show "same_but_enabled (tc_net cfg) (tc_net cfg')"
    using l(4) switchEnds_Inr(1) [OF 2] cfg' by (simp add: same_but_enabled_trans)
  show "cfg' = cfg\<lparr>tc_connected := tc_connected cfg', tc_net := tc_net cfg'\<rparr>" using cfg' by simp
  show "length (tc_connected cfg') = length (tc_connected cfg)" using l(1) by (simp add: cfg')
  show "tc_connected cfg' ! a \<longleftrightarrow> tc_connected cfg ! a \<or> a = i \<or> a \<in> set js" if "a < length (tc_connected cfg)"
    using l(3) [of a] that i by (auto simp: cfg' nth_list_update)
  have "idx con1 j = Inr True" if "j \<in> set js" for j using that l(1) l(3) [of j] js by (auto simp: idx_def)
  then show "enabled (tc_net cfg') e \<longleftrightarrow> enabled (tc_net cfg) e
      \<or> (\<exists>j \<in> set js. name_at (tc_endnames cfg) i j = Some e \<or> name_at (tc_endnames cfg) j i = Some e)"
    using l(5) [of e] switchEnds_Inr(2) [OF 2, of e] cfg' by (auto simp: endname_iff)
qed

text \<open>What \<open>makeEnds\<close> does to a network, for names numbered from \<open>k\<close>.\<close>

definition ends_made :: "nat \<Rightarrow> 'e list \<Rightarrow> ('e, nat, 'a, 'w, 'r) Network \<Rightarrow> ('e, nat, 'a, 'w, 'r) Network \<Rightarrow> bool" where
  "ends_made k names net net' \<longleftrightarrow> distinct names \<and> (\<forall>e \<in> set names. map_of (rn_ends net) e = None)
     \<and> (\<forall>e. map_of (rn_ends net') e = None \<longleftrightarrow> e \<notin> set names \<and> map_of (rn_ends net) e = None)
     \<and> (\<forall>e. enabled net' e \<longleftrightarrow> enabled net e \<and> e \<notin> set names)
     \<and> (\<forall>e. e \<notin> set names \<longrightarrow> linked_to net' e = linked_to net e)
     \<and> (\<forall>j < length names. linked_to net' (names ! j) = Some (k + j))
     \<and> served net' = served net \<and> rn_heap net' = rn_heap net"

lemma makeEnds_Inr:
  assumes "makeEnds net names = Inr net'"
  shows "ends_made 0 names net net'"
proof -
  let ?step = "\<lambda>net (j, e). res_bind (from_rpc (MakeEnd net e)) (\<lambda>net1. Inr (Connect net1 e j))"
  have "ends_made k names net net'" if "go_foldM ?step net (enumerate k names) = Inr net'" for k
    using that
  proof (induction names arbitrary: k net)
    case Nil
    then show ?case by (simp add: ends_made_def)
  next
    case (Cons e names)
    from Cons.prems obtain net1 where 1: "from_rpc (MakeEnd net e) = Inr net1"
      and 2: "go_foldM ?step (Connect net1 e k) (enumerate (Suc k) names) = Inr net'" by auto
    from 1 have fresh: "map_of (rn_ends net) e = None"
      and net1: "net1 = net\<lparr>rn_ends := mput e () (rn_ends net), rn_enabled := mput e False (rn_enabled net),
        rn_connections := mput e None (rn_connections net)\<rparr>"
      by (cases "map_of (rn_ends net) e"; simp add: MakeEnd_def from_rpc_def)+
    have same: "map_of (rn_ends (Connect net1 e k)) e' = None \<longleftrightarrow> e' \<noteq> e \<and> map_of (rn_ends net) e' = None"
      "enabled (Connect net1 e k) e' \<longleftrightarrow> enabled net e' \<and> e' \<noteq> e"
      "linked_to (Connect net1 e k) e' = (if e' = e then Some k else linked_to net e')"
      "served (Connect net1 e k) = served net" "rn_heap (Connect net1 e k) = rn_heap net" for e'
      by (auto simp: net1 Connect_def enabled_def linked_to_def served_def fun_eq_iff)
    have *: "ends_made (Suc k) names (Connect net1 e k) net'" by (rule Cons.IH [OF 2])
    show ?case
      unfolding ends_made_def
    proof (intro conjI allI impI ballI)
      fix j assume "j < length (e # names)"
      then show "linked_to net' ((e # names) ! j) = Some (k + j)"
        using * same(3) by (cases j) (auto simp: ends_made_def same)
    qed (use * fresh in \<open>auto simp: ends_made_def same\<close>)
  qed
  with assms show ?thesis by (simp add: makeEnds_def)
qed

subsection \<open>The invariant of the harness\<close>

definition sizes_ok :: "nat \<Rightarrow> ('e, 'a, 'w, 'r, 'c) config \<Rightarrow> bool" where
  "sizes_ok n cfg \<longleftrightarrow> tc_n cfg = n \<and> length (tc_paxos cfg) = n \<and> length (tc_connected cfg) = n \<and> length (tc_saved cfg) = n
     \<and> length (tc_endnames cfg) = n \<and> length (tc_nextIndex cfg) = n \<and> length (tc_didRecv cfg) = n
     \<and> (\<forall>i < n. \<forall>es. tc_endnames cfg ! i = Some es \<longrightarrow> length es = n)"

definition names_ok :: "('e, 'a, 'w, 'r, 'c) config \<Rightarrow> bool" where
  "names_ok cfg \<longleftrightarrow> (\<forall>i j e. name_at (tc_endnames cfg) i j = Some e \<longrightarrow>
       linked_to (tc_net cfg) e = Some j \<and> map_of (rn_ends (tc_net cfg)) e \<noteq> None
       \<and> (\<forall>k l. name_at (tc_endnames cfg) k l = Some e \<longrightarrow> k = i \<and> l = j))"

text \<open>
  Links between servers: those of \<open>i\<close> with the servers \<open>J\<close>, in both directions, and those between
  servers that are connected.
\<close>

definition links_with :: "nat \<Rightarrow> nat set \<Rightarrow> (nat \<times> nat) set" where
  "links_with i J = {i} \<times> J \<union> J \<times> {i}"

definition connected_pairs :: "('e, 'a, 'w, 'r, 'c) config \<Rightarrow> (nat \<times> nat) set" where
  "connected_pairs cfg = {(a, b). a < length (tc_connected cfg) \<and> b < length (tc_connected cfg)
     \<and> tc_connected cfg ! a \<and> tc_connected cfg ! b}"

definition links_ok :: "(nat \<times> nat) set \<Rightarrow> ('e, 'a, 'w, 'r, 'c) config \<Rightarrow> bool" where
  "links_ok L cfg \<longleftrightarrow> L \<subseteq> connected_pairs cfg
     \<and> (\<forall>e. enabled (tc_net cfg) e \<longleftrightarrow> (\<exists>i j. name_at (tc_endnames cfg) i j = Some e \<and> (i, j) \<in> L))"

definition servers_ok :: "nat \<Rightarrow> ('e, 'a, 'w, 'r, 'c) config \<Rightarrow> bool" where
  "servers_ok n cfg \<longleftrightarrow> (\<forall>p. map_of (rn_heap (tc_net cfg)) p = None \<longleftrightarrow> length (rn_heap (tc_net cfg)) \<le> p)
     \<and> (\<forall>i p. served (tc_net cfg) i = Some p \<longrightarrow> p < length (rn_heap (tc_net cfg)))
     \<and> (\<forall>i < n. served (tc_net cfg) i = None \<longleftrightarrow> tc_paxos cfg ! i = None)"

definition harness_ok :: "nat \<Rightarrow> (nat \<times> nat) set \<Rightarrow> ('e, 'a, 'w, 'r, 'c) config \<Rightarrow> bool" where
  "harness_ok n L cfg \<longleftrightarrow> sizes_ok n cfg \<and> names_ok cfg \<and> links_ok L cfg \<and> servers_ok n cfg"

lemma name_at_less: "name_at names i j = Some e \<Longrightarrow> i < length names"
  by (simp add: name_at_def split: if_splits)

lemma sizes_name:
  assumes "sizes_ok n cfg"
  shows "name_at (tc_endnames cfg) i j = Some e \<Longrightarrow> i < n \<and> j < n"
    and "i < n \<Longrightarrow> j < n \<Longrightarrow> tc_endnames cfg ! i \<noteq> None \<Longrightarrow> \<exists>e. name_at (tc_endnames cfg) i j = Some e"
  using assms by (auto simp: sizes_ok_def name_at_def split: if_splits option.splits)

lemma nth_update_True: "xs ! a \<Longrightarrow> a < length xs \<Longrightarrow> xs[i := True] ! a"
  by (cases "a = i") simp_all

text \<open>An operation that only switches end points and sets flags.\<close>

lemma harness_switch:
  assumes "harness_ok n L cfg" and "same_but_enabled (tc_net cfg) (tc_net cfg')"
    and "cfg' = cfg\<lparr>tc_connected := tc_connected cfg', tc_net := tc_net cfg'\<rparr>"
    and "length (tc_connected cfg') = length (tc_connected cfg)" and "L' \<subseteq> connected_pairs cfg'"
    and "\<And>e. enabled (tc_net cfg') e \<longleftrightarrow> (\<exists>i j. name_at (tc_endnames cfg) i j = Some e \<and> (i, j) \<in> L')"
  shows "harness_ok n L' cfg'"
proof -
  note f = same_but_enabled_simps [OF assms(2)]
  have cfg': "tc_n cfg' = tc_n cfg" "tc_paxos cfg' = tc_paxos cfg" "tc_saved cfg' = tc_saved cfg"
    "tc_endnames cfg' = tc_endnames cfg" "tc_nextIndex cfg' = tc_nextIndex cfg" "tc_didRecv cfg' = tc_didRecv cfg"
    by (subst assms(3), simp)+
  have "links_ok L' cfg'" using assms(5,6) by (simp add: links_ok_def cfg')
  with assms(1,4) show ?thesis by (simp add: harness_ok_def sizes_ok_def names_ok_def servers_ok_def cfg' f)
qed

lemma harness_names:
  assumes "harness_ok n L cfg"
  shows "name_at (tc_endnames cfg) a b = Some e \<Longrightarrow> a < n \<and> b < n"
    and "name_at (tc_endnames cfg) a b = Some e \<Longrightarrow> name_at (tc_endnames cfg) k l = Some e \<Longrightarrow> a = k \<and> b = l"
    and "enabled (tc_net cfg) e \<longleftrightarrow> (\<exists>i j. name_at (tc_endnames cfg) i j = Some e \<and> (i, j) \<in> L)"
    and "(i, j) \<in> L \<Longrightarrow> i < n \<and> j < n \<and> tc_connected cfg ! i \<and> tc_connected cfg ! j"
    and "length (tc_connected cfg) = n" and "tc_n cfg = n"
proof -
  have sz: "sizes_ok n cfg" and nm: "names_ok cfg" and lk: "links_ok L cfg" using assms by (auto simp: harness_ok_def)
  show "name_at (tc_endnames cfg) a b = Some e \<Longrightarrow> a < n \<and> b < n" by (rule sizes_name(1) [OF sz])
  show "name_at (tc_endnames cfg) a b = Some e \<Longrightarrow> name_at (tc_endnames cfg) k l = Some e \<Longrightarrow> a = k \<and> b = l"
    using nm unfolding names_ok_def by blast
  show "enabled (tc_net cfg) e \<longleftrightarrow> (\<exists>i j. name_at (tc_endnames cfg) i j = Some e \<and> (i, j) \<in> L)"
    using lk unfolding links_ok_def by blast
  show "length (tc_connected cfg) = n" "tc_n cfg = n" using sz by (simp_all add: sizes_ok_def)
  then show "(i, j) \<in> L \<Longrightarrow> i < n \<and> j < n \<and> tc_connected cfg ! i \<and> tc_connected cfg ! j"
    using lk by (auto simp: links_ok_def connected_pairs_def)
qed

text \<open>Switching on the links of \<open>i\<close> with \<open>J\<close>, and switching them off.\<close>

lemma harness_on:
  assumes ok: "harness_ok n L cfg" and "same_but_enabled (tc_net cfg) (tc_net cfg')"
    and "cfg' = cfg\<lparr>tc_connected := tc_connected cfg', tc_net := tc_net cfg'\<rparr>"
    and "length (tc_connected cfg') = length (tc_connected cfg)"
    and "\<And>a. a < n \<Longrightarrow> tc_connected cfg ! a \<Longrightarrow> tc_connected cfg' ! a" and "\<And>j. j \<in> insert i J \<Longrightarrow> j < n \<and> tc_connected cfg' ! j"
    and "\<And>e. enabled (tc_net cfg') e \<longleftrightarrow> enabled (tc_net cfg) e
      \<or> (\<exists>j \<in> J. name_at (tc_endnames cfg) i j = Some e \<or> name_at (tc_endnames cfg) j i = Some e)"
  shows "harness_ok n (L \<union> links_with i J) cfg'"
proof (rule harness_switch [OF ok assms(2-4)])
  note h = harness_names [OF ok]
  show "L \<union> links_with i J \<subseteq> connected_pairs cfg'"
    using h(4,5) assms(4-6) by (auto simp: connected_pairs_def links_with_def)
  show "enabled (tc_net cfg') e \<longleftrightarrow> (\<exists>a b. name_at (tc_endnames cfg) a b = Some e \<and> (a, b) \<in> L \<union> links_with i J)" for e
    unfolding assms(7) h(3) links_with_def by blast
qed

lemma harness_off:
  assumes ok: "harness_ok n L cfg" and "same_but_enabled (tc_net cfg) (tc_net cfg')"
    and "cfg' = cfg\<lparr>tc_connected := tc_connected cfg', tc_net := tc_net cfg'\<rparr>"
    and "length (tc_connected cfg') = length (tc_connected cfg)"
    and "\<And>a. a < n \<Longrightarrow> tc_connected cfg ! a \<Longrightarrow> tc_connected cfg' ! a \<or> a = i \<and> {..<n} \<subseteq> J"
    and "\<And>e. enabled (tc_net cfg') e \<longleftrightarrow> enabled (tc_net cfg) e
      \<and> \<not> (\<exists>j \<in> J. name_at (tc_endnames cfg) i j = Some e \<or> name_at (tc_endnames cfg) j i = Some e)"
  shows "harness_ok n (L - links_with i J) cfg'"
proof (rule harness_switch [OF ok assms(2-4)])
  note h = harness_names [OF ok]
  show "L - links_with i J \<subseteq> connected_pairs cfg'"
  proof
    fix x assume x: "x \<in> L - links_with i J"
    obtain a b where ab: "x = (a, b)" by (cases x)
    have L: "a < n" "b < n" "tc_connected cfg ! a" "tc_connected cfg ! b" using h(4) [of a b] x ab by auto
    have "a \<noteq> i \<or> \<not> {..<n} \<subseteq> J" "b \<noteq> i \<or> \<not> {..<n} \<subseteq> J" using x ab L by (auto simp: links_with_def)
    with assms(5) L have "tc_connected cfg' ! a" "tc_connected cfg' ! b" by blast+
    with L ab h(5) assms(4) show "x \<in> connected_pairs cfg'" by (simp add: connected_pairs_def)
  qed
  show "enabled (tc_net cfg') e \<longleftrightarrow> (\<exists>a b. name_at (tc_endnames cfg) a b = Some e \<and> (a, b) \<in> L - links_with i J)" for e
  proof
    assume "enabled (tc_net cfg') e"
    then show "\<exists>a b. name_at (tc_endnames cfg) a b = Some e \<and> (a, b) \<in> L - links_with i J"
      unfolding assms(6) h(3) links_with_def by blast
  next
    assume "\<exists>a b. name_at (tc_endnames cfg) a b = Some e \<and> (a, b) \<in> L - links_with i J"
    then obtain a b where ab: "name_at (tc_endnames cfg) a b = Some e" "(a, b) \<in> L" "(a, b) \<notin> links_with i J" by blast
    then have "enabled (tc_net cfg) e" using h(3) by blast
    moreover have "\<not> (\<exists>j \<in> J. name_at (tc_endnames cfg) i j = Some e \<or> name_at (tc_endnames cfg) j i = Some e)"
    proof
      assume "\<exists>j \<in> J. name_at (tc_endnames cfg) i j = Some e \<or> name_at (tc_endnames cfg) j i = Some e"
      then obtain j where j: "j \<in> J" and "name_at (tc_endnames cfg) i j = Some e \<or> name_at (tc_endnames cfg) j i = Some e" by blast
      then have "a = i \<and> b = j \<or> a = j \<and> b = i" using h(2) [OF ab(1)] by blast
      with j ab(3) show False by (auto simp: links_with_def)
    qed
    ultimately show "enabled (tc_net cfg') e" using assms(6) by blast
  qed
qed

lemma harness_connect:
  assumes ok: "harness_ok n L cfg" and "connect cfg i = Inr cfg'"
  shows "harness_ok n (L \<union> links_with i {j. j < n \<and> tc_connected cfg' ! j}) cfg'"
    and "connected_pairs cfg' = connected_pairs cfg \<union> links_with i {j. j < n \<and> tc_connected cfg' ! j}"
proof -
  note c = connect_Inr [OF assms(2)] and h = harness_names [OF ok]
  have con: "tc_connected cfg' = (tc_connected cfg)[i := True]" by (subst c(3), simp)
  show "harness_ok n (L \<union> links_with i {j. j < n \<and> tc_connected cfg' ! j}) cfg'"
  proof (rule harness_on [OF ok c(2)])
    show "cfg' = cfg\<lparr>tc_connected := tc_connected cfg', tc_net := tc_net cfg'\<rparr>" unfolding con by (rule c(3))
    show "enabled (tc_net cfg') e \<longleftrightarrow> enabled (tc_net cfg) e \<or> (\<exists>j \<in> {j. j < n \<and> tc_connected cfg' ! j}.
        name_at (tc_endnames cfg) i j = Some e \<or> name_at (tc_endnames cfg) j i = Some e)" for e
      using c(4) [of e] h(5,6) by (auto simp: con)
  qed (use c(1) h(5) nth_update_True in \<open>auto simp: con\<close>)
  show "connected_pairs cfg' = connected_pairs cfg \<union> links_with i {j. j < n \<and> tc_connected cfg' ! j}"
    using c(1) h(5) by (auto simp: connected_pairs_def links_with_def con nth_list_update split: if_splits)
qed

lemma harness_disconnect:
  assumes ok: "harness_ok n L cfg" and "disconnect cfg i = Inr cfg'"
  shows "harness_ok n (L - links_with i UNIV) cfg'" and "connected_pairs cfg' = connected_pairs cfg - links_with i UNIV"
proof -
  note c = disconnect_Inr [OF assms(2)] and h = harness_names [OF ok]
  have con: "tc_connected cfg' = (tc_connected cfg)[i := False]" by (subst c(3), simp)
  show "harness_ok n (L - links_with i UNIV) cfg'"
  proof (rule harness_off [OF ok c(2)])
    show "cfg' = cfg\<lparr>tc_connected := tc_connected cfg', tc_net := tc_net cfg'\<rparr>" unfolding con by (rule c(3))
    show "enabled (tc_net cfg') e \<longleftrightarrow> enabled (tc_net cfg) e \<and> \<not> (\<exists>j \<in> UNIV.
        name_at (tc_endnames cfg) i j = Some e \<or> name_at (tc_endnames cfg) j i = Some e)" for e
      using c(4) [of e] h(1,6) by blast
  qed (auto simp: con nth_list_update)
  show "connected_pairs cfg' = connected_pairs cfg - links_with i UNIV"
    using c(1) by (auto simp: connected_pairs_def links_with_def con nth_list_update split: if_splits)
qed

lemma harness_partiallyConnect:
  assumes ok: "harness_ok n L cfg" and "partiallyConnect cfg i js = Inr cfg'"
  shows "harness_ok n (L \<union> links_with i (set js)) cfg'"
proof -
  note c = partiallyConnect_Inr [OF assms(2)] and h = harness_names [OF ok]
  show ?thesis by (rule harness_on [OF ok c(3-5) _ _ c(7)]) (use c(1,2,6) h(5) in auto)
qed

lemma harness_partiallyDisconnect:
  assumes ok: "harness_ok n L cfg" and "partiallyDisconnect cfg i js = Inr cfg'"
  shows "harness_ok n (L - links_with i (set js)) cfg'"
proof -
  note c = partiallyDisconnect_Inr [OF assms(2)]
  have con: "tc_connected cfg' = tc_connected cfg" by (subst c(2), simp)
  show ?thesis
    by (rule harness_off [OF ok c(1) _ _ _ c(3)]) (use con in \<open>simp_all, subst c(2), simp\<close>)
qed

lemma crash1_Inr:
  assumes "crash1 cfg i = Inr cfg'"
  obtains cfg1 where "disconnect cfg i = Inr cfg1" "i < length (tc_paxos cfg)" "i < length (tc_saved cfg)"
    "cfg' = cfg1\<lparr>tc_net := DeleteServer (tc_net cfg1) i, tc_paxos := (tc_paxos cfg1)[i := None],
       tc_saved := (tc_saved cfg1)[i := map_option Copy (savedOf cfg1 i)]\<rparr>"
proof -
  from assms obtain cfg1 where d: "disconnect cfg i = Inr cfg1" by (auto simp: crash1_def)
  have saved: "map_option (\<lambda>ps. SaveStateAndSnapshot MakePersister (ReadOmnipaxosState ps) (ReadSnapshot ps)) (map_option Copy x)
      = map_option Copy x" for x :: "'e gob_msg Persister option"
    by (cases x) (simp_all add: Copy_def SaveStateAndSnapshot_def ReadOmnipaxosState_def ReadSnapshot_def MakePersister_def)
  have same: "tc_paxos cfg1 = tc_paxos cfg" "tc_saved cfg1 = tc_saved cfg" by (subst disconnect_Inr(3) [OF d], simp)+
  have "savedOf (cfg1\<lparr>tc_net := net\<rparr>) i = savedOf cfg1 i" for net by (simp add: savedOf_def split: option.splits)
  then show ?thesis using assms d saved same
    by (intro that [OF d]) (auto simp: crash1_def upd_iff Let_def)
qed

lemma harness_crash1:
  assumes "harness_ok n L cfg" and "crash1 cfg i = Inr cfg'"
  shows "harness_ok n (L - links_with i UNIV) cfg'" and "connected_pairs cfg' = connected_pairs cfg - links_with i UNIV"
proof -
  from assms(2) obtain cfg1 where d: "disconnect cfg i = Inr cfg1" "i < length (tc_paxos cfg)"
    and cfg': "cfg' = cfg1\<lparr>tc_net := DeleteServer (tc_net cfg1) i, tc_paxos := (tc_paxos cfg1)[i := None],
       tc_saved := (tc_saved cfg1)[i := map_option Copy (savedOf cfg1 i)]\<rparr>"
    by (rule crash1_Inr)
  note h = harness_disconnect [OF assms(1) d(1)]
  have same: "connected_pairs cfg' = connected_pairs cfg1" by (simp add: cfg' connected_pairs_def)
  with h(2) show "connected_pairs cfg' = connected_pairs cfg - links_with i UNIV" by simp
  have net: "enabled (DeleteServer net i) = enabled net" "linked_to (DeleteServer net i) = linked_to net"
    "served (DeleteServer net i) = (served net)(i := None)" "rn_ends (DeleteServer net i) = rn_ends net"
    "rn_heap (DeleteServer net i) = rn_heap net" for net :: "('a, nat, 'b, 'c, 'd) Network"
    by (auto simp: DeleteServer_def enabled_def linked_to_def served_def)
  have "links_ok (L - links_with i UNIV) cfg'"
    using h(1) same by (simp add: harness_ok_def links_ok_def cfg' net)
  then show "harness_ok n (L - links_with i UNIV) cfg'"
    using h(1) by (auto simp: harness_ok_def sizes_ok_def names_ok_def servers_ok_def cfg' net nth_list_update)
qed

text \<open>A new server: its end points, its object, and its entry in the table.\<close>

lemma registerServer_simps:
  "enabled (registerServer net i svc) = enabled net" "linked_to (registerServer net i svc) = linked_to net"
  "rn_ends (registerServer net i svc) = rn_ends net"
  "served (registerServer net i svc) = (served net)(i := Some (length (rn_heap net)))"
  "rn_heap (registerServer net i svc) = rn_heap net @ [(length (rn_heap net), AddService MakeServer svc)]"
  by (auto simp: registerServer_def Let_def AddServer_def enabled_def linked_to_def served_def)

lemma from_go_iff: "from_go r = Inr a \<longleftrightarrow> r = Inr a"
  by (cases r) (simp_all add: from_go_def)

lemma map_of_grown:
  assumes "\<forall>p. map_of h p = None \<longleftrightarrow> length h \<le> p"
  shows "map_of (h @ [(length h, x)]) p = None \<longleftrightarrow> Suc (length h) \<le> p"
proof -
  have "map_of (h @ [(length h, x)]) p = None \<longleftrightarrow> map_of h p = None \<and> p \<noteq> length h"
    by (simp add: map_add_def split: option.split)
  then show ?thesis using spec [OF assms, of p] by linarith
qed

lemma start1_Inr:
  assumes "start1 cfg i names svc = Inr cfg'"
  obtains cfg1 net1 ps rf where "crash1 cfg i = Inr cfg1" "makeEnds (tc_net cfg1) names = Inr net1" "i < length (tc_endnames cfg1)"
    "ps = (case tc_saved cfg1 ! i of Some ps \<Rightarrow> Copy ps | None \<Rightarrow> MakePersister)"
    "Make (tc_n cfg1) (int i) ps = Inr rf"
    "cfg' = cfg1\<lparr>tc_endnames := (tc_endnames cfg1)[i := Some names], tc_nextIndex := (tc_nextIndex cfg1)[i := 0],
       tc_saved := (tc_saved cfg1)[i := Some ps], tc_paxos := (tc_paxos cfg1)[i := Some rf],
       tc_didRecv := (tc_didRecv cfg1)[i := False], tc_net := registerServer net1 i svc\<rparr>"
  using assms by (auto simp: start1_def upd_iff Let_def from_go_iff)

lemma name_at_update:
  assumes "i < length names"
  shows "name_at (names[i := Some es]) a b = (if a = i then if b < length es then Some (es ! b) else None else name_at names a b)"
  using assms by (simp add: name_at_def)

lemma harness_start1:
  assumes "harness_ok n L cfg" and "start1 cfg i names svc = Inr cfg'" and "length names = n"
  shows "harness_ok n (L - links_with i UNIV) cfg' \<and> connected_pairs cfg' = connected_pairs cfg - links_with i UNIV"
  using assms(2)
proof (rule start1_Inr)
  fix cfg1 net1 ps rf
  assume c: "crash1 cfg i = Inr cfg1" and m: "makeEnds (tc_net cfg1) names = Inr net1" and i: "i < length (tc_endnames cfg1)"
    and cfg': "cfg' = cfg1\<lparr>tc_endnames := (tc_endnames cfg1)[i := Some names], tc_nextIndex := (tc_nextIndex cfg1)[i := 0],
       tc_saved := (tc_saved cfg1)[i := Some ps], tc_paxos := (tc_paxos cfg1)[i := Some rf],
       tc_didRecv := (tc_didRecv cfg1)[i := False], tc_net := registerServer net1 i svc\<rparr>"
  note h = harness_crash1 [OF assms(1) c]
  let ?L = "L - links_with i UNIV"
  have sz: "sizes_ok n cfg1" and nm: "names_ok cfg1" and lk: "links_ok ?L cfg1" and sv: "servers_ok n cfg1"
    using h(1) by (auto simp: harness_ok_def)
  have con: "connected_pairs cfg' = connected_pairs cfg1" by (simp add: cfg' connected_pairs_def)
  have e: "ends_made 0 names (tc_net cfg1) net1" by (rule makeEnds_Inr [OF m])
  let ?old = "name_at (tc_endnames cfg1)"
  let ?new = "name_at (tc_endnames cfg')"
  have new: "?new a b = (if a = i then if b < n then Some (names ! b) else None else ?old a b)" for a b
    by (simp add: cfg' name_at_update [OF i] assms(3))
  have fresh: "x \<notin> set names" if "?old a b = Some x" for a b x
    using nm e that by (auto simp: names_ok_def ends_made_def)
  have own: "names ! b \<in> set names" if "b < n" for b using that assms(3) by simp
  have "sizes_ok n cfg'" using sz assms(3) i by (auto simp: sizes_ok_def cfg' nth_list_update split: if_splits)
  moreover have "names_ok cfg'"
    unfolding names_ok_def
  proof (intro allI impI conjI)
    fix a b x assume "?new a b = Some x"
    note x = this [unfolded new]
    show "linked_to (tc_net cfg') x = Some b" "map_of (rn_ends (tc_net cfg')) x \<noteq> None"
      using x e nm fresh [of a b x] own [of b] assms(3)
      by (auto simp: cfg' registerServer_simps ends_made_def names_ok_def split: if_splits)
    fix k l assume "?new k l = Some x"
    note y = this [unfolded new]
    show "k = a" and "l = b"
      using x y e fresh [of a b x] fresh [of k l x] own [of b] own [of l] nm assms(3)
      by (auto simp: ends_made_def names_ok_def nth_eq_iff_index_eq split: if_splits)
  qed
  moreover have "links_ok ?L cfg'"
    unfolding links_ok_def
  proof (intro conjI allI)
    show "?L \<subseteq> connected_pairs cfg'" using lk by (simp add: links_ok_def con)
    fix x
    have "enabled (tc_net cfg') x \<longleftrightarrow> enabled (tc_net cfg1) x \<and> x \<notin> set names"
      using e by (simp add: cfg' registerServer_simps ends_made_def)
    also have "\<dots> \<longleftrightarrow> (\<exists>a b. ?old a b = Some x \<and> (a, b) \<in> ?L)"
      using lk fresh unfolding links_ok_def by blast
    also have "\<dots> \<longleftrightarrow> (\<exists>a b. ?new a b = Some x \<and> (a, b) \<in> ?L)"
      using new by (auto simp: links_with_def)
    finally show "enabled (tc_net cfg') x \<longleftrightarrow> (\<exists>a b. ?new a b = Some x \<and> (a, b) \<in> ?L)" .
  qed
  moreover have "servers_ok n cfg'"
  proof -
    have net: "served net1 = served (tc_net cfg1)" "rn_heap net1 = rn_heap (tc_net cfg1)" using e by (auto simp: ends_made_def)
    have "map_of (rn_heap (tc_net cfg1) @ [(length (rn_heap (tc_net cfg1)), AddService MakeServer svc)]) p = None
        \<longleftrightarrow> Suc (length (rn_heap (tc_net cfg1))) \<le> p" for p
      by (rule map_of_grown) (use sv in \<open>simp add: servers_ok_def\<close>)
    moreover have "\<forall>j p. served (tc_net cfg1) j = Some p \<longrightarrow> p < Suc (length (rn_heap (tc_net cfg1)))"
      using sv by (auto simp: servers_ok_def intro: less_SucI)
    ultimately show ?thesis
      using sv sz by (auto simp: servers_ok_def sizes_ok_def cfg' registerServer_simps net nth_list_update)
  qed
  ultimately show ?thesis using con h(2) by (simp add: harness_ok_def)
qed

lemma apply1_frame:
  assumes "apply1 cfg i m = Inr cfg'"
  shows "tc_net cfg' = tc_net cfg" "tc_n cfg' = tc_n cfg" "tc_paxos cfg' = tc_paxos cfg" "tc_connected cfg' = tc_connected cfg"
    "tc_saved cfg' = tc_saved cfg" "tc_endnames cfg' = tc_endnames cfg" "length (tc_nextIndex cfg') = length (tc_nextIndex cfg)"
    "length (tc_didRecv cfg') = length (tc_didRecv cfg)"
  using assms by (auto simp: apply1_def Let_def split: if_splits)

text \<open>
  What a test does to its cluster; the servers run by themselves.  Beside the harness goes the set of
  links its operations mean to have, in both directions: \<open>connect\<close> adds those with all connected
  servers, \<open>disconnect\<close>, a crash and a restart remove all of the server, and the partial operations add or
  remove those that are listed.  \<open>part\<close> says whether the partial operations are used.
\<close>

inductive tester_step :: "nat \<Rightarrow> bool \<Rightarrow> ('e, 'a, 'w, 'r, 'c) config \<times> (nat \<times> nat) set
    \<Rightarrow> ('e, 'a, 'w, 'r, 'c) config \<times> (nat \<times> nat) set \<Rightarrow> bool" for n part where
  ts_connect: "connect cfg i = Inr cfg' \<Longrightarrow>
    tester_step n part (cfg, L) (cfg', L \<union> links_with i {j. j < n \<and> tc_connected cfg' ! j})"
| ts_disconnect: "disconnect cfg i = Inr cfg' \<Longrightarrow> tester_step n part (cfg, L) (cfg', L - links_with i UNIV)"
| ts_partiallyConnect: "part \<Longrightarrow> partiallyConnect cfg i js = Inr cfg' \<Longrightarrow> tester_step n part (cfg, L) (cfg', L \<union> links_with i (set js))"
| ts_partiallyDisconnect: "part \<Longrightarrow> partiallyDisconnect cfg i js = Inr cfg' \<Longrightarrow>
    tester_step n part (cfg, L) (cfg', L - links_with i (set js))"
| ts_crash: "crash1 cfg i = Inr cfg' \<Longrightarrow> tester_step n part (cfg, L) (cfg', L - links_with i UNIV)"
| ts_start: "start1 cfg i names svc = Inr cfg' \<Longrightarrow> length names = n \<Longrightarrow> tester_step n part (cfg, L) (cfg', L - links_with i UNIV)"
| ts_apply: "apply1 cfg i m = Inr cfg' \<Longrightarrow> tester_step n part (cfg, L) (cfg', L)"
| ts_serve: "map (\<lambda>p. p = None) ps = map (\<lambda>p. p = None) (tc_paxos cfg) \<Longrightarrow> tester_step n part (cfg, L) (cfg\<lparr>tc_paxos := ps\<rparr>, L)"

definition preparedConfig :: "nat \<Rightarrow> bool \<Rightarrow> ('e, 'a, 'w, 'r, 'c) config" where
  "preparedConfig n unreliable =
     (let cfg = setunreliable (emptyConfig n) unreliable in cfg\<lparr>tc_net := LongDelays (tc_net cfg) False\<rparr>)"

definition tester_init :: "nat \<Rightarrow> ('e, 'a, 'w, 'r, 'c) config \<times> (nat \<times> nat) set \<Rightarrow> bool" where
  "tester_init n s \<longleftrightarrow> (\<exists>unreliable. s = (preparedConfig n unreliable, {}))"

text \<open>The invariant: without partial operations the links are those between connected servers.\<close>

definition tester_ok :: "nat \<Rightarrow> bool \<Rightarrow> ('e, 'a, 'w, 'r, 'c) config \<times> (nat \<times> nat) set \<Rightarrow> bool" where
  "tester_ok n part = (\<lambda>(cfg, L). harness_ok n L cfg \<and> (\<not> part \<longrightarrow> L = connected_pairs cfg))"

lemma harness_init: "harness_ok n {} (preparedConfig n unreliable)"
proof -
  have "name_at (replicate n None) i j = None" for i j by (simp add: name_at_def)
  then show ?thesis
    by (auto simp: preparedConfig_def harness_ok_def sizes_ok_def names_ok_def links_ok_def servers_ok_def setunreliable_def
        emptyConfig_def MakeNetwork_def Reliable_def LongDelays_def enabled_def served_def mget0_def)
qed

lemma prepared_pairs [simp]: "connected_pairs (preparedConfig n unreliable) = {}"
  by (auto simp: connected_pairs_def preparedConfig_def setunreliable_def emptyConfig_def)

lemma tester_ok_step: "tester_step n part s t \<Longrightarrow> tester_ok n part s \<Longrightarrow> tester_ok n part t"
proof (induction rule: tester_step.induct)
  case (ts_connect cfg i cfg' L)
  then show ?case using harness_connect [of n L cfg i cfg'] by (simp add: tester_ok_def)
next
  case (ts_disconnect cfg i cfg' L)
  then show ?case using harness_disconnect [of n L cfg i cfg'] by (simp add: tester_ok_def)
next
  case (ts_partiallyConnect cfg i js cfg' L)
  then show ?case by (simp add: tester_ok_def harness_partiallyConnect)
next
  case (ts_partiallyDisconnect cfg i js cfg' L)
  then show ?case by (simp add: tester_ok_def harness_partiallyDisconnect)
next
  case (ts_crash cfg i cfg' L)
  then show ?case using harness_crash1 [of n L cfg i cfg'] by (simp add: tester_ok_def)
next
  case (ts_start cfg i names svc cfg' L)
  then show ?case using harness_start1 [of n L cfg i names svc cfg'] by (simp add: tester_ok_def)
next
  case (ts_apply cfg i m cfg' L)
  note f = apply1_frame [OF ts_apply.hyps]
  have "connected_pairs cfg' = connected_pairs cfg" by (simp add: connected_pairs_def f)
  with ts_apply.prems show ?case
    by (simp add: tester_ok_def harness_ok_def sizes_ok_def names_ok_def links_ok_def servers_ok_def f)
next
  case (ts_serve ps cfg L)
  from ts_serve.hyps have len: "length ps = length (tc_paxos cfg)" by (rule map_eq_imp_length_eq)
  moreover have "(ps ! i = None) = (tc_paxos cfg ! i = None)" if "i < length ps" for i
    using arg_cong [OF ts_serve.hyps, of "\<lambda>xs. xs ! i"] that len by simp
  moreover have "connected_pairs (cfg\<lparr>tc_paxos := ps\<rparr>) = connected_pairs cfg" by (simp add: connected_pairs_def)
  ultimately show ?case using ts_serve.prems
    by (auto simp: tester_ok_def harness_ok_def sizes_ok_def names_ok_def links_ok_def servers_ok_def)
qed

interpretation harness: inductive_invariant "tester_init n" "tester_step n part" "tester_ok n part" for n part
  by unfold_locales (fastforce simp: tester_init_def tester_ok_def harness_init, rule tester_ok_step)

lemma harness_reaches:
  assumes "harness_ok n L cfg"
  shows "reaches (tc_net cfg) e \<noteq> None \<longleftrightarrow>
    (\<exists>i j. name_at (tc_endnames cfg) i j = Some e \<and> (i, j) \<in> L \<and> tc_paxos cfg ! j \<noteq> None)"
proof -
  have sz: "sizes_ok n cfg" and nm: "names_ok cfg" and lk: "links_ok L cfg" and sv: "servers_ok n cfg"
    using assms by (auto simp: harness_ok_def)
  have up: "(\<exists>p. served (tc_net cfg) j = Some p \<and> map_of (rn_heap (tc_net cfg)) p \<noteq> None) \<longleftrightarrow> tc_paxos cfg ! j \<noteq> None"
    if "j < n" for j
  proof (cases "served (tc_net cfg) j")
    case None
    with sv that have "tc_paxos cfg ! j = None" unfolding servers_ok_def by blast
    with None show ?thesis by simp
  next
    case (Some p)
    then have "p < length (rn_heap (tc_net cfg))" "tc_paxos cfg ! j \<noteq> None" using sv that by (auto simp: servers_ok_def)
    then show ?thesis using sv Some unfolding servers_ok_def by (metis not_le)
  qed
  have "(\<exists>v p. linked_to (tc_net cfg) e = Some v \<and> served (tc_net cfg) v = Some p \<and> map_of (rn_heap (tc_net cfg)) p \<noteq> None)
      \<longleftrightarrow> tc_paxos cfg ! j \<noteq> None" if "name_at (tc_endnames cfg) i j = Some e" for i j
    using nm up [of j] sizes_name(1) [OF sz that] that by (auto simp: names_ok_def)
  then show ?thesis
    unfolding reaches_iff using lk unfolding links_ok_def by blast
qed

text \<open>
  C34: the harness stays well formed and its end points follow the links its operations mean to have.
  After any sequence of connects, disconnects, partial connects and disconnects, crashes and restarts
  the arrays have one place per server, a started server has one end point per server, each linked to
  its own target and shared with nobody; and a call goes through exactly along a link to a server that
  is running, so the end points of an instance that was replaced reach nothing.  A link is always
  between servers that \<open>cfg.connected\<close> says are connected, and as long as no partial operation is used
  there is one between any two of these.
\<close>
theorem end_points_follow_connected:
  assumes "reach (tester_init n) (tester_step n part) (cfg, L)"
  shows "sizes_ok n cfg \<and> names_ok cfg
    \<and> (\<forall>e. reaches (tc_net cfg) e \<noteq> None \<longleftrightarrow>
         (\<exists>i j. name_at (tc_endnames cfg) i j = Some e \<and> (i, j) \<in> L \<and> tc_paxos cfg ! j \<noteq> None))
    \<and> L \<subseteq> connected_pairs cfg \<and> (\<not> part \<longrightarrow> L = connected_pairs cfg)"
proof -
  have "tester_ok n part (cfg, L)" by (rule harness.reach_inv [OF assms])
  then have "harness_ok n L cfg" "\<not> part \<longrightarrow> L = connected_pairs cfg" by (auto simp: tester_ok_def)
  then show ?thesis using harness_reaches [of n L cfg] by (auto simp: harness_ok_def links_ok_def)
qed

subsection \<open>Starting and restarting a cluster\<close>

text \<open>The servers of the harness are those of a cluster.\<close>

definition runs :: "('e, 'a, 'w, 'r, 'c) config \<Rightarrow> 'c cluster \<Rightarrow> bool" where
  "runs cfg s \<longleftrightarrow> tc_paxos cfg = map Some (cl_servers s) \<and> tc_n cfg = length (cl_servers s)"

lemma Copy_Copy [simp]: "Copy (Copy ps) = Copy ps"
  by (simp add: Copy_def)

lemma disconnect_frame:
  assumes "disconnect cfg i = Inr cfg'"
  shows "tc_n cfg' = tc_n cfg" "tc_paxos cfg' = tc_paxos cfg" "tc_saved cfg' = tc_saved cfg" "savedOf cfg' = savedOf cfg"
    "tc_endnames cfg' = tc_endnames cfg" "tc_connected cfg' = (tc_connected cfg)[i := False]"
    "tc_nextIndex cfg' = tc_nextIndex cfg" "tc_didRecv cfg' = tc_didRecv cfg"
  by (subst disconnect_Inr(3) [OF assms], simp add: savedOf_def fun_eq_iff split: option.splits)+

text \<open>What \<open>start1\<close> starts: \<open>Make\<close> on a copy of what the last instance had saved.\<close>

lemma start1_paxos:
  assumes "start1 cfg i names svc = Inr cfg'"
  obtains rf where "Make (tc_n cfg) (int i) (case savedOf cfg i of Some ps \<Rightarrow> Copy ps | None \<Rightarrow> MakePersister) = Inr rf"
    "tc_paxos cfg' = (tc_paxos cfg)[i := Some rf]" "tc_n cfg' = tc_n cfg" "i < length (tc_paxos cfg)"
    "tc_endnames cfg' = (tc_endnames cfg)[i := Some names]" "\<And>j. j \<noteq> i \<Longrightarrow> tc_saved cfg' ! j = tc_saved cfg ! j"
  using assms
proof (rule start1_Inr)
  fix cfg1 net1 ps rf
  assume c: "crash1 cfg i = Inr cfg1" and ps: "ps = (case tc_saved cfg1 ! i of Some ps \<Rightarrow> Copy ps | None \<Rightarrow> MakePersister)"
    and mk: "Make (tc_n cfg1) (int i) ps = Inr rf"
    and cfg': "cfg' = cfg1\<lparr>tc_endnames := (tc_endnames cfg1)[i := Some names], tc_nextIndex := (tc_nextIndex cfg1)[i := 0],
       tc_saved := (tc_saved cfg1)[i := Some ps], tc_paxos := (tc_paxos cfg1)[i := Some rf],
       tc_didRecv := (tc_didRecv cfg1)[i := False], tc_net := registerServer net1 i svc\<rparr>"
  from c obtain cfg0 where d: "disconnect cfg i = Inr cfg0" "i < length (tc_paxos cfg)" "i < length (tc_saved cfg)"
    and cfg1: "cfg1 = cfg0\<lparr>tc_net := DeleteServer (tc_net cfg0) i, tc_paxos := (tc_paxos cfg0)[i := None],
       tc_saved := (tc_saved cfg0)[i := map_option Copy (savedOf cfg0 i)]\<rparr>" by (rule crash1_Inr)
  note f = disconnect_frame [OF d(1)]
  have "ps = (case savedOf cfg i of Some ps \<Rightarrow> Copy ps | None \<Rightarrow> MakePersister)"
    using d by (simp add: ps cfg1 f split: option.splits)
  with mk d show thesis by (intro that) (simp_all add: cfg' cfg1 f)
qed

text \<open>
  A restart by the harness is the restart of the cluster model.  \<open>start1\<close> on a running server
  replaces it by an instance that has read a copy of its storage, and leaves the others alone, so
  everything shown of reachable clusters holds of a cluster the harness crashes and restarts.
\<close>
theorem restart_is_cluster_step:
  assumes "start1 cfg i names svc = Inr cfg'" and "runs cfg s" and "cluster_reach n s"
  shows "\<exists>s'. runs cfg' s' \<and> cluster_step s s' \<and> cluster_reach n s'"
  using assms(1)
proof (rule start1_paxos)
  fix rf
  assume mk: "Make (tc_n cfg) (int i) (case savedOf cfg i of Some ps \<Rightarrow> Copy ps | None \<Rightarrow> MakePersister) = Inr rf"
    and px: "tc_paxos cfg' = (tc_paxos cfg)[i := Some rf]" "tc_n cfg' = tc_n cfg" "i < length (tc_paxos cfg)"
  have i: "i < length (cl_servers s)" and saved: "savedOf cfg i = Some (op_persister (cl_servers s ! i))"
    using px(3) assms(2) by (auto simp: runs_def savedOf_def)
  have ok: "cluster_ok n s" by (rule reach_facts(1) [OF assms(3)])
  then have "op_peers (cl_servers s ! i) = tc_n cfg" "op_me (cl_servers s ! i) = int i"
    using i assms(2) by (auto simp: cluster_ok_def runs_def)
  with mk saved have "Make (op_peers (cl_servers s ! i)) (op_me (cl_servers s ! i)) (Copy (op_persister (cl_servers s ! i))) = Inr rf"
    by simp
  then have st: "cluster_step s (put_server s i rf [])" by (rule cs_restart [OF i refl])
  moreover have "runs cfg' (put_server s i rf [])" using assms(2) px by (simp add: runs_def map_update)
  ultimately show ?thesis using reach_step [OF assms(3) st] by blast
qed

text \<open>A loop over the servers establishes what each of its steps does.\<close>

lemma go_foldM_upto:
  assumes "go_foldM f s [0..<n] = Inr t" and "I 0 s" and "\<And>k u v. k < n \<Longrightarrow> I k u \<Longrightarrow> f u k = Inr v \<Longrightarrow> I (Suc k) v"
  shows "I n t"
  using assms
proof (induction n arbitrary: t)
  case (Suc n)
  then obtain u where u: "go_foldM f s [0..<n] = Inr u" "f u n = Inr t" by (auto simp: go_foldM_append)
  with Suc.IH [OF u(1) Suc.prems(2)] Suc.prems(3) show ?case by simp
qed simp

lemma upt_split: "k < n \<Longrightarrow> [0..<n] = [0..<k] @ k # [Suc k..<n]"
  using upt_add_eq_append [of 0 k "n - k"] by (simp add: upt_conv_Cons)

text \<open>Names that are all different, given in blocks.\<close>

lemma distinct_block:
  assumes "distinct (concat (map b [0..<n]))" and "k < n"
  shows "distinct (b k)" and "set (b k) \<inter> set (concat (map b [0..<k])) = {}"
  using assms(1) upt_split [OF assms(2)] by auto

lemma distinct_blocks_nth:
  assumes "distinct (concat (map b [0..<n]))" and "i < n" "k < n" "j < length (b i)" "l < length (b k)" and "b i ! j = b k ! l"
  shows "i = k \<and> j = l"
proof -
  have apart: "\<not> p < q" if "q < n" "x \<in> set (b p)" "x \<in> set (b q)" for p q x
    using distinct_block(2) [OF assms(1) that(1)] that(2,3) by fastforce
  from nth_mem [OF assms(4)] nth_mem [OF assms(5)] assms(6) have "i = k"
    using apart [OF assms(3), of "b i ! j" i] apart [OF assms(2), of "b i ! j" k] by (metis linorder_neqE_nat)
  with assms(4-6) distinct_block(1) [OF assms(1,2)] show ?thesis by (simp add: nth_eq_iff_index_eq)
qed

lemma go_foldM_upto_total:
  assumes "I 0 s" and "\<And>k u. k < n \<Longrightarrow> I k u \<Longrightarrow> \<exists>v. f u k = Inr v \<and> I (Suc k) v"
  shows "\<exists>t. go_foldM f s [0..<n] = Inr t \<and> I n t"
  using assms
proof (induction n)
  case (Suc n)
  then obtain u where u: "go_foldM f s [0..<n] = Inr u" "I n u" by auto
  with Suc.prems(2) [of n u] show ?case by (auto simp: go_foldM_append)
qed simp

lemma switchEnds_total:
  assumes "\<And>j. j \<in> set js \<Longrightarrow> \<exists>b. P j = Inr b \<and> (b \<longrightarrow> (\<exists>e. nm j = Inr e))"
  shows "\<exists>net'. switchEnds P nm yes net js = Inr net'"
proof -
  let ?f = "\<lambda>net j. res_bind (P j) (\<lambda>b. if b then res_bind (nm j) (\<lambda>e. Inr (Enable net e yes)) else Inr net)"
  have "\<exists>t. ?f s j = Inr t \<and> True" if "j \<in> set js" for s j
  proof -
    from assms [OF that] obtain b where "P j = Inr b" "b \<longrightarrow> (\<exists>e. nm j = Inr e)" by blast
    then show ?thesis by (cases b) auto
  qed
  from go_foldM_total [of js "\<lambda>_. True" ?f net, OF this] show ?thesis by (simp add: switchEnds_def)
qed

lemma endname_present: "sizes_ok n cfg \<Longrightarrow> i < n \<Longrightarrow> j < n \<Longrightarrow> tc_endnames cfg ! i \<noteq> None \<Longrightarrow> \<exists>e. endname (tc_endnames cfg) i j = Inr e"
  unfolding endname_iff by (rule sizes_name(2))

lemma disconnect_total:
  assumes "sizes_ok n cfg" and "i < n"
  shows "\<exists>cfg'. disconnect cfg i = Inr cfg'"
proof -
  have pres: "present (tc_endnames cfg) j = Inr (tc_endnames cfg ! j \<noteq> None)" if "j < n" for j
    using assms(1) that by (simp add: present_def idx_def sizes_ok_def)
  have "\<exists>net'. switchEnds (\<lambda>_. present (tc_endnames cfg) i) (endname (tc_endnames cfg) i) False net [0..<tc_n cfg] = Inr net'" for net
    by (rule switchEnds_total) (use assms endname_present [OF assms] pres [OF assms(2)] in \<open>auto simp: sizes_ok_def\<close>)
  moreover have "\<exists>net'. switchEnds (present (tc_endnames cfg)) (\<lambda>j. endname (tc_endnames cfg) j i) False net [0..<tc_n cfg] = Inr net'" for net
    by (rule switchEnds_total) (use assms endname_present [OF assms(1) _ assms(2)] pres in \<open>auto simp: sizes_ok_def\<close>)
  ultimately obtain net1 net2
    where "switchEnds (\<lambda>_. present (tc_endnames cfg) i) (endname (tc_endnames cfg) i) False (tc_net cfg) [0..<tc_n cfg] = Inr net1"
      "switchEnds (present (tc_endnames cfg)) (\<lambda>j. endname (tc_endnames cfg) j i) False net1 [0..<tc_n cfg] = Inr net2" by blast
  then show ?thesis using assms by (simp add: disconnect_def Let_def upd_def sizes_ok_def)
qed

lemma connect_total:
  assumes "sizes_ok n cfg" and "i < n" and "\<And>j. j < n \<Longrightarrow> tc_endnames cfg ! j \<noteq> None"
  shows "\<exists>cfg'. connect cfg i = Inr cfg'"
proof -
  let ?con = "(tc_connected cfg)[i := True]"
  have "\<exists>net'. switchEnds (idx ?con) (endname (tc_endnames cfg) i) True net [0..<tc_n cfg] = Inr net'" for net
    by (rule switchEnds_total) (use assms endname_present [OF assms(1,2)] in \<open>auto simp: sizes_ok_def idx_def\<close>)
  moreover have "\<exists>net'. switchEnds (idx ?con) (\<lambda>j. endname (tc_endnames cfg) j i) True net [0..<tc_n cfg] = Inr net'" for net
    by (rule switchEnds_total) (use assms endname_present [OF assms(1) _ assms(2)] in \<open>auto simp: sizes_ok_def idx_def\<close>)
  ultimately obtain net1 net2
    where "switchEnds (idx ?con) (endname (tc_endnames cfg) i) True (tc_net cfg) [0..<tc_n cfg] = Inr net1"
      "switchEnds (idx ?con) (\<lambda>j. endname (tc_endnames cfg) j i) True net1 [0..<tc_n cfg] = Inr net2" by blast
  then show ?thesis using assms by (simp add: connect_def upd_def sizes_ok_def)
qed

lemma makeEnds_total:
  assumes "distinct names" and "\<forall>e \<in> set names. map_of (rn_ends net) e = None"
  shows "\<exists>net'. makeEnds net names = Inr net'"
proof -
  let ?step = "\<lambda>net (j, e). res_bind (from_rpc (MakeEnd net e)) (\<lambda>net1. Inr (Connect net1 e j))"
  have "\<exists>net'. go_foldM ?step net (enumerate k names) = Inr net'" for k
    using assms
  proof (induction names arbitrary: k net)
    case (Cons e names)
    let ?net = "Connect (net\<lparr>rn_ends := mput e () (rn_ends net), rn_enabled := mput e False (rn_enabled net),
        rn_connections := mput e None (rn_connections net)\<rparr>) e k"
    have "from_rpc (MakeEnd net e) = Inr (net\<lparr>rn_ends := mput e () (rn_ends net), rn_enabled := mput e False (rn_enabled net),
        rn_connections := mput e None (rn_connections net)\<rparr>)" using Cons.prems(2) by (simp add: MakeEnd_def from_rpc_def)
    moreover have "\<forall>e' \<in> set names. map_of (rn_ends ?net) e' = None" using Cons.prems by (auto simp: Connect_def)
    ultimately show ?case using Cons.IH [of ?net "Suc k"] Cons.prems(1) by simp
  qed simp
  then show ?thesis by (simp add: makeEnds_def)
qed

lemma start1_total:
  assumes "sizes_ok n cfg" and "i < n" and "distinct names" and "\<forall>e \<in> set names. map_of (rn_ends (tc_net cfg)) e = None"
    and "tc_paxos cfg ! i = None" and "tc_saved cfg ! i = None"
  shows "\<exists>cfg'. start1 cfg i names svc = Inr cfg'"
proof -
  from disconnect_total [OF assms(1,2)] obtain cfg0 where d: "disconnect cfg i = Inr cfg0" by blast
  note f = disconnect_frame [OF d]
  let ?cfg = "cfg0\<lparr>tc_net := DeleteServer (tc_net cfg0) i, tc_paxos := (tc_paxos cfg0)[i := None],
       tc_saved := (tc_saved cfg0)[i := None]\<rparr>"
  have "savedOf (cfg0\<lparr>tc_net := net\<rparr>) i = None" for net
    using assms(5,6) by (simp add: savedOf_def f split: option.splits)
  then have c: "crash1 cfg i = Inr ?cfg"
    using assms(1,2) by (simp add: crash1_def d Let_def upd_def f sizes_ok_def)
  have "rn_ends (tc_net ?cfg) = rn_ends (tc_net cfg)"
    using same_but_enabled_simps(1) [OF disconnect_Inr(2) [OF d]] by (simp add: DeleteServer_def)
  with makeEnds_total [OF assms(3), of "tc_net ?cfg"] assms(4) obtain net1 where "makeEnds (tc_net ?cfg) names = Inr net1" by auto
  then show ?thesis using assms(1,2)
    by (simp add: start1_def c upd_def f sizes_ok_def Let_def Make_fresh from_go_def)
qed

lemma start1_frame:
  assumes "start1 cfg i names svc = Inr cfg'"
  shows "map_of (rn_ends (tc_net cfg')) e = None \<longleftrightarrow> e \<notin> set names \<and> map_of (rn_ends (tc_net cfg)) e = None"
    and "tc_connected cfg' = (tc_connected cfg)[i := False]"
proof -
  from assms obtain cfg1 net1 ps rf where c: "crash1 cfg i = Inr cfg1" and m: "makeEnds (tc_net cfg1) names = Inr net1"
    and cfg': "cfg' = cfg1\<lparr>tc_endnames := (tc_endnames cfg1)[i := Some names], tc_nextIndex := (tc_nextIndex cfg1)[i := 0],
       tc_saved := (tc_saved cfg1)[i := Some ps], tc_paxos := (tc_paxos cfg1)[i := Some rf],
       tc_didRecv := (tc_didRecv cfg1)[i := False], tc_net := registerServer net1 i svc\<rparr>"
    by (rule start1_Inr)
  from c obtain cfg0 where d: "disconnect cfg i = Inr cfg0"
    and cfg1: "cfg1 = cfg0\<lparr>tc_net := DeleteServer (tc_net cfg0) i, tc_paxos := (tc_paxos cfg0)[i := None],
       tc_saved := (tc_saved cfg0)[i := map_option Copy (savedOf cfg0 i)]\<rparr>" by (rule crash1_Inr)
  have "rn_ends (tc_net cfg1) = rn_ends (tc_net cfg)"
    using same_but_enabled_simps(1) [OF disconnect_Inr(2) [OF d]] by (simp add: cfg1 DeleteServer_def)
  then show "map_of (rn_ends (tc_net cfg')) e = None \<longleftrightarrow> e \<notin> set names \<and> map_of (rn_ends (tc_net cfg)) e = None"
    using makeEnds_Inr [OF m] by (simp add: ends_made_def cfg' registerServer_simps)
  show "tc_connected cfg' = (tc_connected cfg)[i := False]" using disconnect_frame(6) [OF d] by (simp add: cfg' cfg1)
qed

text \<open>The loop that starts the servers, after \<open>k\<close> of them.\<close>

definition started :: "nat \<Rightarrow> (nat \<Rightarrow> 'e list) \<Rightarrow> nat \<Rightarrow> ('e, 'a, 'w, 'r, 'c) config \<Rightarrow> bool" where
  "started n names k cfg \<longleftrightarrow> harness_ok n (connected_pairs cfg) cfg \<and> (\<forall>j < n. \<not> tc_connected cfg ! j)
     \<and> (\<forall>j < n. tc_paxos cfg ! j = (if j < k then Some (freshServer n (int j) MakePersister zero_os) else None)
          \<and> (tc_endnames cfg ! j \<noteq> None \<longleftrightarrow> j < k) \<and> (k \<le> j \<longrightarrow> tc_saved cfg ! j = None))
     \<and> (\<forall>e. map_of (rn_ends (tc_net cfg)) e = None \<longleftrightarrow> (\<forall>j < k. e \<notin> set (names j)))"

lemma started_step:
  assumes "started n names k cfg" and "k < n" and "\<forall>i < n. length (names i) = n" and "distinct (concat (map names [0..<n]))"
  shows "\<exists>cfg'. start1 cfg k (names k) svc = Inr cfg' \<and> started n names (Suc k) cfg'"
proof -
  have ok: "harness_ok n (connected_pairs cfg) cfg" and sz: "sizes_ok n cfg" using assms(1) by (auto simp: started_def harness_ok_def)
  have k: "tc_paxos cfg ! k = None" "tc_saved cfg ! k = None" using assms(1,2) by (auto simp: started_def)
  note new = distinct_block(1) [OF assms(4,2)]
  have apart: "\<forall>j < k. set (names j) \<inter> set (names k) = {}" using distinct_block(2) [OF assms(4,2)] by fastforce
  with apart assms(1) have "\<forall>e \<in> set (names k). map_of (rn_ends (tc_net cfg)) e = None" by (auto simp: started_def)
  from start1_total [OF sz assms(2) new(1) this k] obtain cfg' where st: "start1 cfg k (names k) svc = Inr cfg'" by blast
  then obtain rf where rf: "Make (tc_n cfg) (int k) (case savedOf cfg k of Some ps \<Rightarrow> Copy ps | None \<Rightarrow> MakePersister) = Inr rf"
    and px: "tc_paxos cfg' = (tc_paxos cfg)[k := Some rf]" and en: "tc_endnames cfg' = (tc_endnames cfg)[k := Some (names k)]"
    and svd: "\<And>j. j \<noteq> k \<Longrightarrow> tc_saved cfg' ! j = tc_saved cfg ! j" by (rule start1_paxos) blast
  have "rf = freshServer n (int k) MakePersister zero_os"
    using rf k sz by (simp add: savedOf_def Make_fresh sizes_ok_def)
  moreover have "harness_ok n (connected_pairs cfg') cfg'" using harness_start1 [OF ok st] assms by simp
  ultimately have "started n names (Suc k) cfg'"
    using assms(1,2) px en svd start1_frame [OF st] sz
    by (auto simp: started_def sizes_ok_def nth_list_update less_Suc_eq)
  with st show ?thesis by blast
qed

definition joined :: "nat \<Rightarrow> nat \<Rightarrow> ('e, 'a, 'w, 'r, 'c) config \<Rightarrow> bool" where
  "joined n k cfg \<longleftrightarrow> harness_ok n (connected_pairs cfg) cfg
     \<and> (\<forall>j < n. tc_paxos cfg ! j = Some (freshServer n (int j) MakePersister zero_os) \<and> tc_endnames cfg ! j \<noteq> None
          \<and> (tc_connected cfg ! j \<longleftrightarrow> j < k))"

lemma joined_step:
  assumes "joined n k cfg" and "k < n"
  shows "\<exists>cfg'. connect cfg k = Inr cfg' \<and> joined n (Suc k) cfg'"
proof -
  have ok: "harness_ok n (connected_pairs cfg) cfg" and sz: "sizes_ok n cfg" using assms(1) by (auto simp: joined_def harness_ok_def)
  from connect_total [OF sz assms(2)] assms(1) obtain cfg' where c: "connect cfg k = Inr cfg'" by (auto simp: joined_def)
  have "tc_paxos cfg' = tc_paxos cfg" "tc_endnames cfg' = tc_endnames cfg" "tc_connected cfg' = (tc_connected cfg)[k := True]"
    by (subst connect_Inr(3) [OF c], simp)+
  then have "joined n (Suc k) cfg'"
    using assms harness_connect [OF ok c, folded harness_connect(2) [OF ok c]] sz by (auto simp: joined_def sizes_ok_def nth_list_update less_Suc_eq)
  with c show ?thesis by blast
qed

text \<open>
  \<open>makeConfig\<close> builds the initial cluster.  With different names for the end points it returns, the
  servers it has started are an initial cluster, and every server reaches every server.
\<close>
theorem makeConfig_starts_cluster:
  fixes names :: "nat \<Rightarrow> 'e list" and svc :: "nat \<Rightarrow> ('a, 'w, 'r) Service"
  assumes "\<forall>i < n. length (names i) = n" and "distinct (concat (map names [0..<n]))"
  shows "\<exists>(cfg :: ('e, 'a, 'w, 'r, 'c) config) s. makeConfig n unreliable names svc = Inr cfg \<and> runs cfg s \<and> cluster_init n s
    \<and> (\<forall>i < n. \<forall>j < n. \<exists>e. name_at (tc_endnames cfg) i j = Some e \<and> reaches (tc_net cfg) e \<noteq> None)"
proof -
  have "started n names 0 (preparedConfig n unreliable :: ('e, 'a, 'w, 'r, 'c) config)"
    unfolding started_def prepared_pairs using harness_init [of n unreliable]
    by (simp add: preparedConfig_def setunreliable_def emptyConfig_def MakeNetwork_def Reliable_def LongDelays_def)
  moreover have "\<exists>v. start1 u k (names k) (svc k) = Inr v \<and> started n names (Suc k) v" if "k < n" "started n names k u" for k u
    by (rule started_step [OF that(2,1) assms])
  ultimately have "\<exists>t. go_foldM (\<lambda>c i. start1 c i (names i) (svc i)) (preparedConfig n unreliable :: ('e, 'a, 'w, 'r, 'c) config) [0..<n] = Inr t \<and> started n names n t"
    by (rule go_foldM_upto_total [where I = "started n names"])
  then obtain cfg1 :: "('e, 'a, 'w, 'r, 'c) config" where c1: "go_foldM (\<lambda>c i. start1 c i (names i) (svc i)) (preparedConfig n unreliable) [0..<n] = Inr cfg1"
    "started n names n cfg1" by blast
  then have "joined n 0 cfg1" by (simp add: started_def joined_def)
  moreover have "\<exists>v. connect u k = Inr v \<and> joined n (Suc k) v" if "k < n" "joined n k u" for k u
    by (rule joined_step [OF that(2,1)])
  ultimately have "\<exists>t. go_foldM connect cfg1 [0..<n] = Inr t \<and> joined n n t"
    by (rule go_foldM_upto_total [where I = "joined n"])
  then obtain cfg where c: "go_foldM connect cfg1 [0..<n] = Inr cfg" and j: "joined n n cfg" by blast
  have sz: "sizes_ok n cfg" and ok: "harness_ok n (connected_pairs cfg) cfg" using j by (auto simp: joined_def harness_ok_def)
  have mk: "makeConfig n unreliable names svc = Inr cfg"
    using c1 c by (simp add: makeConfig_def preparedConfig_def Let_def)
  let ?s = "initial n"
  have "tc_paxos cfg = map Some (cl_servers ?s)"
    by (rule nth_equalityI) (use j sz in \<open>auto simp: joined_def sizes_ok_def initial_def\<close>)
  then have r: "runs cfg ?s" using sz by (simp add: runs_def sizes_ok_def initial_def)
  have "\<exists>e. name_at (tc_endnames cfg) i k = Some e \<and> reaches (tc_net cfg) e \<noteq> None" if "i < n" "k < n" for i k
  proof -
    from sizes_name(2) [OF sz that] j that obtain e where e: "name_at (tc_endnames cfg) i k = Some e" by (auto simp: joined_def)
    have "tc_connected cfg ! i" "tc_connected cfg ! k" "tc_paxos cfg ! k \<noteq> None" using j that by (auto simp: joined_def)
    then have "(i, k) \<in> connected_pairs cfg" "tc_paxos cfg ! k \<noteq> None"
      using that sz by (auto simp: connected_pairs_def sizes_ok_def)
    with e show ?thesis unfolding harness_reaches [OF ok] by blast
  qed
  with mk r initial_init show ?thesis by blast
qed

lemma makeConfig_reach:
  assumes "makeConfig n unreliable names svc = Inr cfg" and "\<forall>i < n. length (names i) = n"
  shows "\<exists>L. reach (tester_init n) (tester_step n part) (cfg, L)"
proof -
  let ?R = "\<lambda>c. \<exists>L. reach (tester_init n) (tester_step n part) (c, L)"
  from assms(1) obtain cfg1 where
    1: "go_foldM (\<lambda>c i. start1 c i (names i) (svc i)) (preparedConfig n unreliable) [0..<n] = Inr cfg1"
    and 2: "go_foldM connect cfg1 [0..<n] = Inr cfg"
    by (auto simp: makeConfig_def preparedConfig_def Let_def)
  have "tester_init n (preparedConfig n unreliable, {})" by (auto simp: tester_init_def)
  then have start: "?R (preparedConfig n unreliable)" by (blast intro: reach_init)
  have "?R cfg1"
    by (rule go_foldM_upto [OF 1, where I = "\<lambda>_. ?R"]) (use assms(2) start in \<open>blast intro: reach_step ts_start\<close>)+
  then show ?thesis
    by (rule go_foldM_upto [OF 2, where I = "\<lambda>_. ?R"]) (blast intro: reach_step ts_connect)
qed

subsection \<open>A harness with two servers\<close>

definition no_service :: "(unit, unit, unit) Service" where
  "no_service = \<lparr>svc_name = ''S'', svc_methods = []\<rparr>"

definition two_names :: "nat \<Rightarrow> nat list" where
  "two_names i = [2 * i, 2 * i + 1]"

definition two_servers :: "tester_stop + (nat, unit, unit, unit, nat) config" where
  "two_servers = makeConfig 2 False two_names (\<lambda>_. no_service)"

theorem makeConfig_starts_cluster_witness:
  "\<exists>cfg s. two_servers = Inr cfg \<and> runs cfg s \<and> cluster_init 2 s
     \<and> (\<exists>e. name_at (tc_endnames cfg) 0 1 = Some e \<and> reaches (tc_net cfg) e \<noteq> None)"
proof -
  have "distinct (concat (map two_names [0..<2]))" by (simp add: two_names_def upt_rec)
  then obtain cfg s where "two_servers = Inr cfg" "runs cfg s" "cluster_init 2 s"
    "\<forall>i < 2. \<forall>j < 2. \<exists>e. name_at (tc_endnames cfg) i j = Some e \<and> reaches (tc_net cfg) e \<noteq> None"
    using makeConfig_starts_cluster [of 2 two_names False "\<lambda>_. no_service"] unfolding two_servers_def
    by (auto simp: two_names_def)
  moreover have "0 < (2 :: nat)" "1 < (2 :: nat)" by simp_all
  ultimately show ?thesis by blast
qed

lemma two_servers_cut:
  "(case res_bind two_servers (\<lambda>c. disconnect c 0) of
      Inl _ \<Rightarrow> None | Inr c \<Rightarrow> Some (tc_endnames c, tc_connected c, map (\<lambda>p. p = None) (tc_paxos c)))
   = Some ([Some [0, 1], Some [2, 3]], [False, True], [False, False])"
  by code_simp

theorem end_points_follow_connected_witness:
  "\<exists>cfg cfg'. two_servers = Inr cfg \<and> disconnect cfg 0 = Inr cfg' \<and> sizes_ok 2 cfg' \<and> names_ok cfg'
     \<and> reaches (tc_net cfg') 1 = None \<and> reaches (tc_net cfg') 3 \<noteq> None"
proof -
  from two_servers_cut obtain cfg' where cc: "res_bind two_servers (\<lambda>c. disconnect c 0) = Inr cfg'"
    and n: "tc_endnames cfg' = [Some [0, 1], Some [2, 3]]" "tc_connected cfg' = [False, True]"
      "map (\<lambda>p. p = None) (tc_paxos cfg') = [False, False]"
    by (auto split: sum.splits simp del: res_bind_eq_Inr)
  from cc obtain cfg where c: "two_servers = Inr cfg" "disconnect cfg 0 = Inr cfg'" by auto
  have "\<exists>L. reach (tester_init 2) (tester_step 2 False) (cfg, L)"
    by (rule makeConfig_reach [OF c(1) [unfolded two_servers_def]]) (simp add: two_names_def)
  then obtain L where r: "reach (tester_init 2) (tester_step 2 False) (cfg', L)"
    using c(2) by (blast intro: reach_step ts_disconnect)
  note E = end_points_follow_connected [OF r]
  have at: "name_at (tc_endnames cfg') i j = (if i < 2 \<and> j < 2 then Some (2 * i + j) else None)" for i j
    by (auto simp: name_at_def n nth_Cons' split: option.splits)
  have L: "L = connected_pairs cfg'" using E by blast
  have "tc_paxos cfg' ! 1 \<noteq> None" using arg_cong [OF n(3), of "\<lambda>xs. xs ! 1"] n(3) by (cases "tc_paxos cfg'") auto
  moreover have "(1, 1) \<in> L" by (simp add: L connected_pairs_def n)
  moreover have "name_at (tc_endnames cfg') 1 1 = Some 3" by (simp add: at)
  ultimately have "reaches (tc_net cfg') 3 \<noteq> None" using E by blast
  moreover have "reaches (tc_net cfg') 1 = None"
  proof -
    have "i = 0" if "name_at (tc_endnames cfg') i j = Some 1" for i j
      using that unfolding at by (cases i) (auto split: if_splits)
    moreover have "(0, j) \<notin> L" for j by (simp add: L connected_pairs_def n)
    ultimately show ?thesis using E by blast
  qed
  ultimately show ?thesis using c E by blast
qed

definition one_server :: "(nat, unit, unit, unit, nat) config" where
  "one_server = (preparedConfig 1 False)\<lparr>tc_paxos := map Some (cl_servers (initial 1))\<rparr>"

theorem restart_is_cluster_step_witness:
  "\<exists>cfg' s'. start1 one_server 0 [7] no_service = Inr cfg' \<and> runs cfg' s' \<and> cluster_step (initial 1) s'"
proof -
  have "(case start1 one_server 0 [7] no_service of Inl _ \<Rightarrow> False | Inr _ \<Rightarrow> True)" by code_simp
  then obtain cfg' where c: "start1 one_server 0 [7] no_service = Inr cfg'" by (auto split: sum.splits)
  have "runs one_server (initial 1)"
    by (simp add: runs_def one_server_def preparedConfig_def setunreliable_def emptyConfig_def initial_def)
  from restart_is_cluster_step [OF c this reach_init [of "cluster_init 1", OF initial_init]] c show ?thesis by blast
qed

end
