(* ===== verification/KVServer.thy ===== *)
theory KVServer
  imports Server Sessions GoStrings
begin

text \<open>
  The replicated key-value service \<open>a3-kvpaxos\<close>: the server (\<open>server.go\<close>), the clerk
  (\<open>client.go\<close>) and their messages (\<open>common.go\<close>).

  \<open>readApply\<close> is one iteration of the goroutine of that name.  \<open>Get\<close> and \<open>PutAppend\<close> propose a
  command and then look at \<open>kv.response\<close> up to six times; \<open>obs k\<close> is what they see the \<open>k\<close>-th
  time, which depends on the other goroutines.  A clerk tries its servers in turn for ever;
  \<open>replies k\<close> are the answers of the \<open>k\<close>-th round, \<open>None\<close> for a call that failed.
\<close>

subsection \<open>Messages and state\<close>

datatype KVArgs =
    GetArgs (arg_Key: string) (arg_Id: string)
  | PutAppendArgs (arg_Key: string) (arg_Value: string) (arg_Op: string) (arg_Id: string)

record KVCommand =
  kc_Id :: int
  kc_Command :: KVArgs

record Response =
  rsp_command :: KVCommand
  rsp_value :: string

record GetReply =
  gr_Err :: string
  gr_Value :: string

record PutAppendReply =
  pr_Err :: string

record KVServer =
  kv_me :: int
  kv_rf :: "KVCommand OmniPaxos"
  kv_dead :: int
  kv_enableLogging :: int
  kv_response :: "Response list"
  kv_seq :: "(int, int) gomap"
  kv_m :: "(string, string) gomap"

definition NOT_LEADER :: string where
  "NOT_LEADER = ''not a leader''"

subsection \<open>The server\<close>

definition parseId :: "string \<Rightarrow> (int \<times> int) go" where
  "parseId s =
     (let a = Split (CHR ''#'') s
      in res_bind (go_index a 0) (\<lambda>x. res_bind (go_index a 1) (\<lambda>y. Inr (Atoi x, Atoi y))))"

definition readApply :: "KVServer \<Rightarrow> KVCommand ApplyMsg \<Rightarrow> KVServer go" where
  "readApply kv msg =
     (case kc_Command (Command msg) of
        GetArgs key ident \<Rightarrow>
          res_bind (parseId ident) (\<lambda>(cid, seqNo).
            let kv1 = (if mget0 0 (kv_seq kv) cid < seqNo then kv\<lparr>kv_seq := mput cid seqNo (kv_seq kv)\<rparr> else kv)
            in Inr (kv1\<lparr>kv_response := kv_response kv1 @
                      [\<lparr>rsp_command = Command msg, rsp_value = mget0 '''' (kv_m kv1) key\<rparr>]\<rparr>))
      | PutAppendArgs key val opn ident \<Rightarrow>
          res_bind (parseId ident) (\<lambda>(cid, seqNo).
            let kv1 = (if mget0 0 (kv_seq kv) cid < seqNo
                       then
                         let m1 = (if opn = ''Put'' then mput key val (kv_m kv)
                                   else mput key (mget0 '''' (kv_m kv) key @ val) (kv_m kv))
                         in kv\<lparr>kv_m := m1, kv_seq := mput cid seqNo (kv_seq kv)\<rparr>
                       else kv)
            in Inr (kv1\<lparr>kv_response := kv_response kv1 @ [\<lparr>rsp_command = Command msg, rsp_value = ''''\<rparr>]\<rparr>)))"

definition StartKVServer :: "nat \<Rightarrow> int \<Rightarrow> KVCommand gob_msg Persister \<Rightarrow> KVServer go" where
  "StartKVServer n me ps =
     res_bind (Make n me ps) (\<lambda>rf.
       Inr \<lparr>kv_me = me, kv_rf = rf, kv_dead = 0, kv_enableLogging = 1, kv_response = [], kv_seq = [], kv_m = []\<rparr>)"

definition KVKill :: "KVServer \<Rightarrow> KVServer" where
  "KVKill kv = kv\<lparr>kv_dead := 1, kv_rf := Kill (kv_rf kv)\<rparr>"

definition getMatch :: "KVArgs \<Rightarrow> Response \<Rightarrow> GetReply" where
  "getMatch args r =
     (case kc_Command (rsp_command r) of
        GetArgs key _ \<Rightarrow>
          if key \<noteq> arg_Key args then \<lparr>gr_Err = ''try again'', gr_Value = ''''\<rparr>
          else \<lparr>gr_Err = '''', gr_Value = rsp_value r\<rparr>
      | _ \<Rightarrow> \<lparr>gr_Err = ''try again'', gr_Value = ''''\<rparr>)"

definition putMatch :: "KVArgs \<Rightarrow> Response \<Rightarrow> PutAppendReply" where
  "putMatch args r =
     (case kc_Command (rsp_command r) of
        PutAppendArgs key val opn _ \<Rightarrow>
          if key \<noteq> arg_Key args \<or> val \<noteq> arg_Value args \<or> opn \<noteq> arg_Op args then \<lparr>pr_Err = ''try again''\<rparr>
          else \<lparr>pr_Err = ''''\<rparr>
      | _ \<Rightarrow> \<lparr>pr_Err = ''try again''\<rparr>)"

text \<open>The polling loop of \<open>Get\<close> and \<open>PutAppend\<close>: \<open>done r\<close> when the response is there.\<close>

function pollLoop :: "(nat \<Rightarrow> Response list) \<Rightarrow> (Response \<Rightarrow> 'r) \<Rightarrow> 'r \<Rightarrow> int \<Rightarrow> nat \<Rightarrow> 'r go" where
  "pollLoop obs match timeout index cnt =
     (if int (length (obs cnt)) > index then res_bind (go_index (obs cnt) index) (\<lambda>r. Inr (match r))
      else if cnt + 1 > 5 then Inr timeout
      else pollLoop obs match timeout index (cnt + 1))"
  by pat_completeness auto
termination
  by (relation "measure (\<lambda>(_, _, _, _, cnt). 6 - cnt)") auto

declare pollLoop.simps [simp del]

definition Get :: "KVServer \<Rightarrow> KVArgs \<Rightarrow> (nat \<Rightarrow> Response list)
    \<Rightarrow> (KVServer \<times> KVCommand calls \<times> GetReply) go" where
  "Get kv args obs =
     res_bind (Proposal (kv_rf kv) \<lparr>kc_Id = kv_me kv, kc_Command = args\<rparr>)
       (\<lambda>((rf, ms), (index, _, isLeader)).
          if index = -1 \<or> \<not> isLeader
          then Inr (kv\<lparr>kv_rf := rf\<rparr>, ms, \<lparr>gr_Err = NOT_LEADER, gr_Value = ''''\<rparr>)
          else res_bind (pollLoop obs (getMatch args) \<lparr>gr_Err = ''timeout'', gr_Value = ''''\<rparr> index 0)
                 (\<lambda>reply. Inr (kv\<lparr>kv_rf := rf\<rparr>, ms, reply)))"

definition PutAppend :: "KVServer \<Rightarrow> KVArgs \<Rightarrow> (nat \<Rightarrow> Response list)
    \<Rightarrow> (KVServer \<times> KVCommand calls \<times> PutAppendReply) go" where
  "PutAppend kv args obs =
     res_bind (Proposal (kv_rf kv) \<lparr>kc_Id = kv_me kv, kc_Command = args\<rparr>)
       (\<lambda>((rf, ms), (index, _, isLeader)).
          if index = -1 \<or> \<not> isLeader
          then Inr (kv\<lparr>kv_rf := rf\<rparr>, ms, \<lparr>pr_Err = NOT_LEADER\<rparr>)
          else res_bind (pollLoop obs (putMatch args) \<lparr>pr_Err = ''timeout''\<rparr> index 0)
                 (\<lambda>reply. Inr (kv\<lparr>kv_rf := rf\<rparr>, ms, reply)))"

subsection \<open>The clerk\<close>

record Clerk =
  ck_servers :: nat
  ck_me :: int
  ck_seq :: int

definition MakeClerk :: "nat \<Rightarrow> int \<Rightarrow> Clerk" where
  "MakeClerk servers rnd = \<lparr>ck_servers = servers, ck_me = rnd, ck_seq = 0\<rparr>"

definition getId :: "Clerk \<Rightarrow> Clerk \<times> string" where
  "getId ck = (let ck1 = ck\<lparr>ck_seq := ck_seq ck + 1\<rparr>
               in (ck1, Itoa (ck_me ck1) @ ''#'' @ Itoa (ck_seq ck1)))"

text \<open>The first answer of a round that came without an error.\<close>

fun tryServers :: "('r \<Rightarrow> string) \<Rightarrow> 'r option list \<Rightarrow> 'r option" where
  "tryServers err [] = None"
| "tryServers err (None # rs) = tryServers err rs"
| "tryServers err (Some r # rs) = (if err r = '''' then Some r else tryServers err rs)"

partial_function (option) tryForever :: "('r \<Rightarrow> string) \<Rightarrow> (nat \<Rightarrow> 'r option list) \<Rightarrow> nat \<Rightarrow> 'r option" where
  "tryForever err replies k =
     (case tryServers err (replies k) of Some r \<Rightarrow> Some r | None \<Rightarrow> tryForever err replies (k + 1))"

definition clerkGet :: "Clerk \<Rightarrow> string \<Rightarrow> (nat \<Rightarrow> GetReply option list) \<Rightarrow> Clerk \<times> KVArgs \<times> string option" where
  "clerkGet ck key replies =
     (let (ck1, ident) = getId ck
      in (ck1, GetArgs key ident, map_option gr_Value (tryForever gr_Err replies 0)))"

definition clerkPutAppend ::
  "Clerk \<Rightarrow> string \<Rightarrow> string \<Rightarrow> string \<Rightarrow> (nat \<Rightarrow> PutAppendReply option list) \<Rightarrow> Clerk \<times> KVArgs \<times> unit option" where
  "clerkPutAppend ck key val opn replies =
     (let (ck1, ident) = getId ck
      in (ck1, PutAppendArgs key val opn ident, map_option (\<lambda>_. ()) (tryForever pr_Err replies 0)))"

definition clerkPut :: "Clerk \<Rightarrow> string \<Rightarrow> string \<Rightarrow> (nat \<Rightarrow> PutAppendReply option list) \<Rightarrow> Clerk \<times> KVArgs \<times> unit option" where
  "clerkPut ck key val = clerkPutAppend ck key val ''Put''"

definition clerkAppend :: "Clerk \<Rightarrow> string \<Rightarrow> string \<Rightarrow> (nat \<Rightarrow> PutAppendReply option list) \<Rightarrow> Clerk \<times> KVArgs \<times> unit option" where
  "clerkAppend ck key val = clerkPutAppend ck key val ''Append''"

subsection \<open>Lemmas\<close>

lemma parseId_Inr: "parseId s = Inr (c, n) \<longleftrightarrow>
    2 \<le> length (Split (CHR ''#'') s) \<and> c = Atoi (Split (CHR ''#'') s ! 0) \<and> n = Atoi (Split (CHR ''#'') s ! 1)"
  by (auto simp: parseId_def Let_def go_index_Inr)

lemma pollLoop_cases:
  assumes "0 \<le> index" and "cnt \<le> 5"
  shows "(\<exists>k. cnt \<le> k \<and> k \<le> 5 \<and> index < int (length (obs k))
            \<and> pollLoop obs match timeout index cnt = Inr (match (obs k ! nat index)))
       \<or> (\<forall>k. cnt \<le> k \<and> k \<le> 5 \<longrightarrow> int (length (obs k)) \<le> index) \<and> pollLoop obs match timeout index cnt = Inr timeout"
  using assms
proof (induction obs match timeout index cnt rule: pollLoop.induct)
  case (1 obs match timeout index cnt)
  show ?case
  proof (cases "index < int (length (obs cnt))")
    case True
    with 1 have "pollLoop obs match timeout index cnt = Inr (match (obs cnt ! nat index))"
      by (subst pollLoop.simps) (simp add: go_index_def)
    with True 1 show ?thesis by blast
  next
    case long: False
    show ?thesis
    proof (cases "cnt = 5")
      case True
      then have "pollLoop obs match timeout index cnt = Inr timeout"
        by (subst pollLoop.simps) (use long in simp)
      moreover have "int (length (obs k)) \<le> index" if "cnt \<le> k" "k \<le> 5" for k
        using that True long by (metis le_antisym not_less)
      ultimately show ?thesis by blast
    next
      case False
      with 1 long have eq: "pollLoop obs match timeout index cnt = pollLoop obs match timeout index (cnt + 1)"
        by (subst pollLoop.simps) simp
      have split: "cnt \<le> k \<Longrightarrow> k = cnt \<or> cnt + 1 \<le> k" for k by auto
      have c: "\<not> cnt + 1 > 5" "cnt + 1 \<le> 5" using False 1 by simp_all
      from "1.IH" [OF long c(1) "1.prems"(1) c(2)] show ?thesis
      proof (elim disjE exE conjE)
        fix k
        assume "cnt + 1 \<le> k" "k \<le> 5" "index < int (length (obs k))"
          "pollLoop obs match timeout index (cnt + 1) = Inr (match (obs k ! nat index))"
        then show ?thesis unfolding eq by (intro disjI1 exI [of _ k]) simp
      next
        assume "\<forall>k. cnt + 1 \<le> k \<and> k \<le> 5 \<longrightarrow> int (length (obs k)) \<le> index"
          "pollLoop obs match timeout index (cnt + 1) = Inr timeout"
        then show ?thesis unfolding eq using long split by (intro disjI2 conjI) (auto simp: not_less)
      qed
    qed
  qed
qed

lemma tryServers_Some: "tryServers err rs = Some r \<Longrightarrow> Some r \<in> set rs \<and> err r = []"
  by (induction err rs rule: tryServers.induct) (auto split: if_splits)

lemma tryServers_None: "tryServers err rs = None \<longleftrightarrow> (\<forall>r. Some r \<in> set rs \<longrightarrow> err r \<noteq> [])"
  by (induction err rs rule: tryServers.induct) (auto split: if_splits)

lemma tryForever_first:
  assumes "tryServers err (replies (k + n)) = Some r" and "\<forall>j < n. tryServers err (replies (k + j)) = None"
  shows "tryForever err replies k = Some r"
  using assms
proof (induction n arbitrary: k)
  case 0
  then show ?case by (simp add: tryForever.simps)
next
  case (Suc n)
  have "tryServers err (replies k) = None" using Suc.prems(2) by (metis add.right_neutral zero_less_Suc)
  moreover have "tryForever err replies (k + 1) = Some r"
    by (rule Suc.IH) (use Suc.prems in \<open>auto simp: add.commute add.left_commute\<close>)
  ultimately show ?case by (simp add: tryForever.simps)
qed

subsection \<open>What the log does to the store\<close>

definition cmd_id :: "KVCommand ApplyMsg \<Rightarrow> int \<times> int" where
  "cmd_id msg = (case parseId (arg_Id (kc_Command (Command msg))) of Inr i \<Rightarrow> i | Inl _ \<Rightarrow> (0, 0))"

definition kv_client :: "KVCommand ApplyMsg \<Rightarrow> int" where
  "kv_client msg = fst (cmd_id msg)"

definition kv_number :: "KVCommand ApplyMsg \<Rightarrow> int" where
  "kv_number msg = snd (cmd_id msg)"

text \<open>The specification: a total map from keys to values, empty at first.\<close>

fun store_effect :: "(string \<Rightarrow> string) \<Rightarrow> KVCommand ApplyMsg \<Rightarrow> string \<Rightarrow> string" where
  "store_effect f msg =
     (case kc_Command (Command msg) of
        GetArgs _ _ \<Rightarrow> f
      | PutAppendArgs key val opn _ \<Rightarrow> f(key := if opn = ''Put'' then val else f key @ val))"

definition kv_store :: "KVServer \<Rightarrow> string \<Rightarrow> string" where
  "kv_store kv = mget0 [] (kv_m kv)"

definition kv_last :: "KVServer \<Rightarrow> int \<Rightarrow> int" where
  "kv_last kv = mget0 0 (kv_seq kv)"

lemma mget0_mput_fun: "mget0 z (mput k v m) = (mget0 z m)(k := v)"
  by (rule ext) simp

lemma readApply_executed:
  assumes "readApply kv msg = Inr kv'" and "kv_last kv (kv_client msg) < kv_number msg"
  shows "kv_store kv' = store_effect (kv_store kv) msg
    \<and> kv_last kv' = (kv_last kv)(kv_client msg := kv_number msg)"
  using assms
  by (cases "kc_Command (Command msg)")
     (auto simp: readApply_def kv_client_def kv_number_def cmd_id_def kv_store_def kv_last_def Let_def
       mget0_mput_fun)

lemma readApply_skipped:
  assumes "readApply kv msg = Inr kv'" and "kv_number msg \<le> kv_last kv (kv_client msg)"
  shows "kv_store kv' = kv_store kv \<and> kv_last kv' = kv_last kv"
  using assms
  by (cases "kc_Command (Command msg)")
     (auto simp: readApply_def kv_client_def kv_number_def cmd_id_def kv_store_def kv_last_def Let_def
       mget0_mput_fun)

interpretation kvs: session_machine readApply kv_client kv_number kv_last kv_store store_effect
  by unfold_locales (erule (1) readApply_executed, erule (1) readApply_skipped)

definition id_ok :: "KVCommand ApplyMsg \<Rightarrow> bool" where
  "id_ok msg \<longleftrightarrow> 2 \<le> length (Split (CHR ''#'') (arg_Id (kc_Command (Command msg))))"

lemma readApply_total: "id_ok msg \<Longrightarrow> \<exists>kv'. readApply kv msg = Inr kv'"
proof -
  assume "id_ok msg"
  then obtain c n where "parseId (arg_Id (kc_Command (Command msg))) = Inr (c, n)"
    by (metis id_ok_def parseId_Inr)
  then show ?thesis by (cases "kc_Command (Command msg)") (auto simp: readApply_def)
qed

lemma readApply_response:
  assumes "readApply kv msg = Inr kv'"
  shows "\<exists>v. kv_response kv' = kv_response kv @ [\<lparr>rsp_command = Command msg, rsp_value = v\<rparr>]
    \<and> (\<forall>key i. kc_Command (Command msg) = GetArgs key i \<longrightarrow> v = kv_store kv key)"
  using assms
  by (cases "kc_Command (Command msg)")
     (auto simp: readApply_def Let_def kv_store_def)

lemma readApply_frame: "readApply kv msg = Inr kv' \<Longrightarrow> kv_me kv' = kv_me kv \<and> kv_rf kv' = kv_rf kv"
  by (cases "kc_Command (Command msg)") (auto simp: readApply_def Let_def)

text \<open>A server that has read nothing from its apply channel.\<close>

definition kv_init :: "KVServer \<Rightarrow> bool" where
  "kv_init kv \<longleftrightarrow> kv_response kv = [] \<and> kv_seq kv = [] \<and> kv_m kv = []"

lemma StartKVServer_init: "StartKVServer n me ps = Inr kv \<Longrightarrow> kv_init kv"
  by (auto simp: StartKVServer_def kv_init_def)

lemma kv_init_abs: "kv_init kv \<Longrightarrow> kv_store kv = (\<lambda>_. []) \<and> kv_last kv = (\<lambda>_. 0)"
  by (auto simp: kv_init_def kv_store_def kv_last_def mget0_def)

text \<open>The store the specification has after a log.\<close>

definition store_after :: "KVCommand ApplyMsg list \<Rightarrow> string \<Rightarrow> string" where
  "store_after log = foldl store_effect (\<lambda>_. []) (fresh_cmds kv_client kv_number (\<lambda>_. 0) log)"

lemma store_after_run:
  "kv_init kv \<Longrightarrow> go_foldM readApply kv log = Inr kv' \<Longrightarrow> kv_store kv' = store_after log"
  using kvs.log_effect [of kv log kv'] by (simp add: store_after_def kv_init_abs)

lemma responses_run:
  assumes "kv_init kv" and "go_foldM readApply kv log = Inr kv'"
  shows "length (kv_response kv') = length log
    \<and> (\<forall>i < length log. rsp_command (kv_response kv' ! i) = Command (log ! i)
         \<and> (\<forall>key ident. kc_Command (Command (log ! i)) = GetArgs key ident \<longrightarrow>
              rsp_value (kv_response kv' ! i) = store_after (take i log) key))"
  using assms(2)
proof (induction log arbitrary: kv' rule: rev_induct)
  case Nil
  then show ?case using assms(1) by (simp add: kv_init_def)
next
  case (snoc msg log)
  then obtain u where u: "go_foldM readApply kv log = Inr u" "readApply u msg = Inr kv'"
    by (auto simp: go_foldM_append)
  from readApply_response [OF u(2)] snoc.IH [OF u(1)] store_after_run [OF assms(1) u(1)]
  show ?case by (fastforce simp: nth_append less_Suc_eq)
qed

subsection \<open>Properties\<close>

text \<open>
  C7: exactly-once execution.  Whatever retransmissions the log holds, a server started empty reads
  it without a panic when every identifier has the form \<open>client#number\<close>, and its store is the
  result of executing, in log order, exactly the commands whose number is positive and above every
  number the same client has at an earlier position; no client's number occurs twice among them, and
  when clients are sequential every request of the log is among them.
\<close>

theorem kv_exactly_once:
  assumes "kv_init kv" and "\<forall>msg \<in> set log. id_ok msg"
  shows "\<exists>kv' ex. go_foldM readApply kv log = Inr kv' \<and> kv_store kv' = foldl store_effect (\<lambda>_. []) ex
    \<and> ex = nths log {i. i < length log \<and> 0 < kv_number (log ! i)
         \<and> (\<forall>j < i. kv_client (log ! j) = kv_client (log ! i) \<longrightarrow> kv_number (log ! j) < kv_number (log ! i))}
    \<and> distinct (map (\<lambda>c. (kv_client c, kv_number c)) ex)
    \<and> (sequential kv_client kv_number (\<lambda>_. 0) log \<longrightarrow>
         (\<lambda>c. (kv_client c, kv_number c)) ` set ex = (\<lambda>c. (kv_client c, kv_number c)) ` set log)"
proof -
  obtain kv' where kv': "go_foldM readApply kv log = Inr kv'"
    using go_foldM_total [of log "\<lambda>_. True" readApply kv] assms(2) readApply_total by auto
  let ?ex = "fresh_cmds kv_client kv_number (\<lambda>_. 0) log"
  have "kv_store kv' = foldl store_effect (\<lambda>_. []) ?ex"
    using store_after_run [OF assms(1) kv'] by (simp add: store_after_def)
  then show ?thesis
    by (intro exI [of _ kv'] exI [of _ ?ex] conjI kv' fresh_cmds_newest [unfolded newest_at_def] fresh_cmds_distinct
        impI fresh_cmds_complete)
qed

theorem kv_exactly_once_witness:
  "\<exists>kv' ex. go_foldM readApply
       \<lparr>kv_me = 0, kv_rf = undefined, kv_dead = 0, kv_enableLogging = 1, kv_response = [], kv_seq = [], kv_m = []\<rparr>
       [\<lparr>CommandValid = True, Command = \<lparr>kc_Id = 0, kc_Command = PutAppendArgs ''k'' ''x'' ''Append'' ''7#1''\<rparr>, CommandIndex = 0\<rparr>,
        \<lparr>CommandValid = True, Command = \<lparr>kc_Id = 2, kc_Command = PutAppendArgs ''k'' ''x'' ''Append'' ''7#1''\<rparr>, CommandIndex = 1\<rparr>]
       = Inr kv' \<and> kv_store kv' = foldl store_effect (\<lambda>_. []) ex
       \<and> distinct (map (\<lambda>c. (kv_client c, kv_number c)) ex)"
proof -
  let ?kv = "\<lparr>kv_me = 0, kv_rf = undefined, kv_dead = 0, kv_enableLogging = 1, kv_response = [], kv_seq = [], kv_m = []\<rparr>"
  let ?log = "[\<lparr>CommandValid = True, Command = \<lparr>kc_Id = 0, kc_Command = PutAppendArgs ''k'' ''x'' ''Append'' ''7#1''\<rparr>, CommandIndex = 0\<rparr>,
        \<lparr>CommandValid = True, Command = \<lparr>kc_Id = 2, kc_Command = PutAppendArgs ''k'' ''x'' ''Append'' ''7#1''\<rparr>, CommandIndex = 1\<rparr>]"
  have "kv_init ?kv" by (simp add: kv_init_def)
  moreover have "\<forall>msg \<in> set ?log. id_ok msg" by (simp add: id_ok_def)
  ultimately show ?thesis using kv_exactly_once [of ?kv ?log] by blast
qed

text \<open>
  C23: reads are answered from the log.  When \<open>Get\<close> succeeds, the OmniPaxos server was the leader and
  gave the read a position; the log holds a read of the same key at that position, and the value
  returned is the one the specification's store has after the commands before it, whichever prefixes
  of the log the server had applied when the handler looked.
\<close>

theorem get_reads_log_position:
  assumes "kv_init kv0" and "\<And>k. \<exists>n kvk. go_foldM readApply kv0 (take n log) = Inr kvk \<and> obs k = kv_response kvk"
    and "Get kv (GetArgs key ident) obs = Inr (kv', ms, reply)" and "gr_Err reply = []"
  shows "\<exists>i bal ident'. Proposal (kv_rf kv) \<lparr>kc_Id = kv_me kv, kc_Command = GetArgs key ident\<rparr> = Inr ((kv_rf kv', ms), (int i, bal, True))
    \<and> i < length log \<and> kc_Command (Command (log ! i)) = GetArgs key ident'
    \<and> gr_Value reply = store_after (take i log) key"
proof -
  obtain rf index bal isLeader where
    p: "Proposal (kv_rf kv) \<lparr>kc_Id = kv_me kv, kc_Command = GetArgs key ident\<rparr> = Inr ((rf, ms), (index, bal, isLeader))"
    and i: "index \<noteq> -1" "isLeader" "rf = kv_rf kv'"
    and loop: "pollLoop obs (getMatch (GetArgs key ident)) \<lparr>gr_Err = ''timeout'', gr_Value = []\<rparr> index 0 = Inr reply"
    using assms(3,4) by (auto simp: Get_def NOT_LEADER_def split: if_splits)
  from p i have "0 \<le> index" by (auto simp: Proposal_def Let_def stopped_def split: if_splits)
  from pollLoop_cases [OF this, of 0 obs "getMatch (GetArgs key ident)" "\<lparr>gr_Err = ''timeout'', gr_Value = []\<rparr>"]
  obtain k where k: "index < int (length (obs k))" "reply = getMatch (GetArgs key ident) (obs k ! nat index)"
    using loop assms(4) by auto
  obtain n kvk where n: "go_foldM readApply kv0 (take n log) = Inr kvk" "obs k = kv_response kvk"
    using assms(2) by blast
  note R = responses_run [OF assms(1) n(1)]
  from k(1) \<open>0 \<le> index\<close> n(2) R have l: "nat index < length (take n log)" by auto
  then have e: "take n log ! nat index = log ! nat index" "take (nat index) (take n log) = take (nat index) log"
    by (auto simp: min_def split: if_splits)
  from k(2) assms(4) obtain ident' where g: "kc_Command (rsp_command (obs k ! nat index)) = GetArgs key ident'"
    "gr_Value reply = rsp_value (obs k ! nat index)"
    by (auto simp: getMatch_def split: KVArgs.splits if_splits)
  from R l n(2) g(1) e have "kc_Command (Command (log ! nat index)) = GetArgs key ident'" by metis
  with R l n(2) g(2) e have "gr_Value reply = store_after (take (nat index) log) key" by metis
  with \<open>kc_Command (Command (log ! nat index)) = GetArgs key ident'\<close> l p i \<open>0 \<le> index\<close> show ?thesis
    by (intro exI [of _ "nat index"]) auto
qed

text \<open>
  Both handlers always answer: after at most six looks at the responses the reply is a
  refusal, a request to try again, a timeout or a success, and the run-time never panics in them.
\<close>

theorem handlers_answer:
  assumes "Proposal (kv_rf kv) \<lparr>kc_Id = kv_me kv, kc_Command = args\<rparr> = Inr ((rf, ms), res)"
  shows "(\<exists>reply. Get kv args obs = Inr (kv\<lparr>kv_rf := rf\<rparr>, ms, reply)
            \<and> gr_Err reply \<in> {NOT_LEADER, ''try again'', ''timeout'', []})
       \<and> (\<exists>reply. PutAppend kv args obs = Inr (kv\<lparr>kv_rf := rf\<rparr>, ms, reply)
            \<and> pr_Err reply \<in> {NOT_LEADER, ''try again'', ''timeout'', []})"
proof -
  obtain index bal isLeader where res: "res = (index, bal, isLeader)" by (cases res)
  have idx: "index = -1 \<or> 0 \<le> index"
    using assms unfolding res by (auto simp: Proposal_def Let_def stopped_def split: if_splits)
  have g: "gr_Err (getMatch args r) \<in> {''try again'', []}" "pr_Err (putMatch args r) \<in> {''try again'', []}" for r
    by (auto simp: getMatch_def putMatch_def split: KVArgs.splits)
  show ?thesis
  proof (cases "index = -1 \<or> \<not> isLeader")
    case True
    then show ?thesis using assms res by (auto simp: Get_def PutAppend_def)
  next
    case False
    with idx have i: "0 \<le> index" by simp
    have loop: "\<exists>r. pollLoop obs m t index 0 = Inr r \<and> (r = t \<or> (\<exists>x. r = m x))" for m :: "Response \<Rightarrow> 'x" and t
      using pollLoop_cases [OF i, of 0 obs m t] by auto
    from loop [of "getMatch args"] loop [of "putMatch args"] False assms res g
    show ?thesis by (fastforce simp: Get_def PutAppend_def)
  qed
qed

text \<open>A leader of round \<open>(1, 0)\<close> in the accept phase with an empty log, for the examples.\<close>

definition lone_leader :: "'c OmniPaxos" where
  "lone_leader = (freshServer 1 0 MakePersister
       (zero_os\<lparr>os_L := Ballot 1 0, os_PromisedRnd := Ballot 1 0, os_AcceptedRnd := Ballot 1 0\<rparr>))
     \<lparr>op_state := \<lparr>role = LEADER, phase = ACCEPT\<rparr>, op_currentRnd := Ballot 1 0\<rparr>"

definition kv_example :: KVServer where
  "kv_example = \<lparr>kv_me = 0, kv_rf = lone_leader, kv_dead = 0, kv_enableLogging = 1, kv_response = [], kv_seq = [], kv_m = []\<rparr>"

lemma kv_example_proposal:
  "\<exists>rf. Proposal (kv_rf kv_example) c = Inr ((rf, []), (0, 1, True))"
  by (simp add: kv_example_def lone_leader_def Proposal_def stopped_def Let_def zero_os_def go_set_def)

theorem get_reads_log_position_witness:
  "\<exists>kv' ms. Get kv_example (GetArgs ''k'' ''7#1'')
       (\<lambda>_. [\<lparr>rsp_command = \<lparr>kc_Id = 0, kc_Command = GetArgs ''k'' ''7#1''\<rparr>, rsp_value = []\<rparr>])
     = Inr (kv', ms, \<lparr>gr_Err = [], gr_Value = store_after [] ''k''\<rparr>)"
proof -
  let ?c = "\<lparr>kc_Id = 0, kc_Command = GetArgs ''k'' ''7#1''\<rparr>"
  let ?obs = "\<lambda>_ :: nat. [\<lparr>rsp_command = ?c, rsp_value = []\<rparr>]"
  let ?log = "[\<lparr>CommandValid = True, Command = ?c, CommandIndex = 0\<rparr>]"
  have init: "kv_init kv_example" by (simp add: kv_init_def kv_example_def)
  have "\<exists>kv'. go_foldM readApply kv_example ?log = Inr kv' \<and> kv_response kv' = ?obs 0"
    by (simp add: readApply_def parseId_def Let_def go_index_def Atoi_def digit_val_def clamp64_def
        kv_example_def mget0_def)
  then have obs: "\<exists>n kvk. go_foldM readApply kv_example (take n ?log) = Inr kvk \<and> ?obs k = kv_response kvk" for k
    by (intro exI [of _ 1]) auto
  obtain rf where rf: "Proposal (kv_rf kv_example) \<lparr>kc_Id = kv_me kv_example, kc_Command = GetArgs ''k'' ''7#1''\<rparr>
      = Inr ((rf, []), (0, 1, True))"
    using kv_example_proposal by blast
  let ?reply = "\<lparr>gr_Err = [], gr_Value = []\<rparr>"
  have g: "Get kv_example (GetArgs ''k'' ''7#1'') ?obs = Inr (kv_example\<lparr>kv_rf := rf\<rparr>, [], ?reply)"
    by (simp add: Get_def rf pollLoop.simps go_index_def getMatch_def)
  from get_reads_log_position [OF init obs g] have "[] = store_after [] ''k''"
    by (auto simp: less_Suc_eq)
  with g show ?thesis by auto
qed

theorem handlers_answer_witness:
  "\<exists>kv' ms reply. PutAppend kv_example (PutAppendArgs ''k'' ''v'' ''Put'' ''7#1'') (\<lambda>_. []) = Inr (kv', ms, reply)
     \<and> pr_Err reply \<in> {NOT_LEADER, ''try again'', ''timeout'', []}"
proof -
  obtain rf where rf: "Proposal (kv_rf kv_example)
      \<lparr>kc_Id = kv_me kv_example, kc_Command = PutAppendArgs ''k'' ''v'' ''Put'' ''7#1''\<rparr> = Inr ((rf, []), (0, 1, True))"
    using kv_example_proposal by blast
  from handlers_answer [OF this] show ?thesis by blast
qed

text \<open>
  A write can be acknowledged for another request.  \<open>PutAppend\<close> compares key, value and
  operation of the command it finds at the index it was given, but not the identifier, and a leader
  in the prepare phase hands out the index of an entry that is already in its log.  If that entry
  is an equal write of an earlier request, the new one is reported as done at once although it is
  only in the leader's buffer, which the next election of this server empties.
\<close>

theorem put_acknowledged_without_log:
  assumes "in_state (kv_rf kv) LEADER PREPARE" and "ballot_Pid (os_L (op_os (kv_rf kv))) = op_me (kv_rf kv)"
    and "length (oplog (kv_rf kv)) = Suc i" and "i < length (obs 0)"
    and "kc_Command (rsp_command (obs 0 ! i)) = PutAppendArgs key val opn ident'"
  shows "\<exists>kv'. PutAppend kv (PutAppendArgs key val opn ident) obs = Inr (kv', [], \<lparr>pr_Err = []\<rparr>)
    \<and> oplog (kv_rf kv') = oplog (kv_rf kv)
    \<and> op_buffer (kv_rf kv') = op_buffer (kv_rf kv) @ [\<lparr>kc_Id = kv_me kv, kc_Command = PutAppendArgs key val opn ident\<rparr>]
    \<and> (\<forall>n. op_buffer (newLeader (kv_rf kv') n) = [])"
  using assms
  by (auto simp: PutAppend_def Proposal_def stopped_def Let_def pollLoop.simps go_index_def putMatch_def)

theorem put_acknowledged_without_log_witness:
  "\<exists>kv'. PutAppend (kv_example\<lparr>kv_rf := lone_leader\<lparr>op_state := \<lparr>role = LEADER, phase = PREPARE\<rparr>,
          op_os := (op_os lone_leader)\<lparr>os_Log := [\<lparr>kc_Id = 0, kc_Command = PutAppendArgs ''k'' ''x'' ''Append'' ''7#1''\<rparr>]\<rparr>\<rparr>\<rparr>)
        (PutAppendArgs ''k'' ''x'' ''Append'' ''7#2'')
        (\<lambda>_. [\<lparr>rsp_command = \<lparr>kc_Id = 0, kc_Command = PutAppendArgs ''k'' ''x'' ''Append'' ''7#1''\<rparr>, rsp_value = []\<rparr>])
     = Inr (kv', [], \<lparr>pr_Err = []\<rparr>)
     \<and> length (oplog (kv_rf kv')) = 1"
proof -
  let ?c = "\<lparr>kc_Id = 0, kc_Command = PutAppendArgs ''k'' ''x'' ''Append'' ''7#1''\<rparr>"
  let ?kv = "kv_example\<lparr>kv_rf := lone_leader\<lparr>op_state := \<lparr>role = LEADER, phase = PREPARE\<rparr>,
          op_os := (op_os lone_leader)\<lparr>os_Log := [?c]\<rparr>\<rparr>\<rparr>"
  show ?thesis
    using put_acknowledged_without_log [of ?kv 0 "\<lambda>_. [\<lparr>rsp_command = ?c, rsp_value = []\<rparr>]" "''k''" "''x''" "''Append''" "''7#1''" "''7#2''"]
    by (auto simp: lone_leader_def)
qed

text \<open>
  C29: request identifiers survive the trip: the server reads back the client and request numbers
  the clerk wrote, as long as both fit in 64 bits, and successive requests of a clerk have
  increasing numbers starting at 1.
\<close>

theorem getId_parseId:
  assumes "- (2 ^ 63) \<le> ck_me ck" "ck_me ck < 2 ^ 63" "- (2 ^ 63) \<le> ck_seq ck + 1" "ck_seq ck + 1 < 2 ^ 63"
  shows "parseId (snd (getId ck)) = Inr (ck_me ck, ck_seq ck + 1)
    \<and> ck_seq (fst (getId ck)) = ck_seq ck + 1 \<and> ck_me (fst (getId ck)) = ck_me ck"
  using Atoi_Itoa [OF assms(1,2)] Atoi_Itoa [OF assms(3,4)]
  by (simp add: getId_def Let_def parseId_Inr Split_append Split_no_sep)

theorem getId_parseId_witness: "parseId (snd (getId (MakeClerk 3 42))) = Inr (42, 1)"
  using getId_parseId [of "MakeClerk 3 42"] by (simp add: MakeClerk_def)

text \<open>
  The clerk keeps trying and returns the first answer without an error: if the \<open>n\<close>-th round
  is the first one in which some server answers without an error, \<open>Get\<close> returns that answer.
\<close>

theorem clerk_returns_first_answer:
  assumes "tryServers gr_Err (replies n) = Some r" and "\<forall>j < n. tryServers gr_Err (replies j) = None"
  shows "snd (snd (clerkGet ck key replies)) = Some (gr_Value r) \<and> Some r \<in> set (replies n) \<and> gr_Err r = []"
  using tryForever_first [of gr_Err replies 0 n r] assms tryServers_Some [OF assms(1)]
  by (simp add: clerkGet_def getId_def Let_def)

theorem clerk_returns_first_answer_witness:
  "snd (snd (clerkGet (MakeClerk 2 42) ''k''
     (\<lambda>k. if k = 0 then [None, Some \<lparr>gr_Err = NOT_LEADER, gr_Value = []\<rparr>] else [None, Some \<lparr>gr_Err = [], gr_Value = ''v''\<rparr>])))
   = Some ''v''"
  using clerk_returns_first_answer [of
      "\<lambda>k. if k = 0 then [None, Some \<lparr>gr_Err = NOT_LEADER, gr_Value = []\<rparr>] else [None, Some \<lparr>gr_Err = [], gr_Value = ''v''\<rparr>]"
      1 "\<lparr>gr_Err = [], gr_Value = ''v''\<rparr>" "MakeClerk 2 42" "''k''"]
  by (simp add: NOT_LEADER_def)

end
