(* ===== verification/ShardCtrler.thy ===== *)
theory ShardCtrler
  imports Server Sessions KVServer
begin

text \<open>
  The shard controller \<open>a3b-sharding/shardctrler\<close>: configurations, the commands that change them
  (\<open>server.go\<close>), the messages (\<open>common.go\<close>) and the clerk (\<open>client.go\<close>).

  The map \<open>all\<close> from a group to the shards it owns is an association list; \<open>balance\<close> may recurse
  for ever, so it returns an option.  \<open>applyCommands\<close> is one iteration of the goroutine; it either
  goes on or stops for one of the reasons of \<open>ctrl_stop\<close>.  \<open>propose\<close> is split where it waits:
  \<open>proposeStart\<close> up to the registration of the channel, \<open>proposeEnd\<close> from the end of the wait,
  where \<open>got\<close> is what was received, \<open>None\<close> on a timeout.
\<close>

subsection \<open>Data\<close>

definition NShards :: nat where
  "NShards = 10"

record Config =
  cf_Num :: int
  cf_Shards :: "int list"
  cf_Groups :: "(int, string list) gomap"

definition zero_config :: Config where
  "zero_config = \<lparr>cf_Num = 0, cf_Shards = replicate NShards 0, cf_Groups = []\<rparr>"

record ControllerCommand =
  cc_Command :: string
  cc_ReqId :: int
  cc_ClientId :: int
  cc_Servers :: "(int, string list) gomap"
  cc_GIDs :: "int list"
  cc_Num :: int
  cc_Shard :: int
  cc_GID :: int

definition zero_command :: ControllerCommand where
  "zero_command = \<lparr>cc_Command = [], cc_ReqId = 0, cc_ClientId = 0, cc_Servers = [], cc_GIDs = [],
     cc_Num = 0, cc_Shard = 0, cc_GID = 0\<rparr>"

record CtrlResult =
  rs_RequestId :: int
  rs_Err :: string
  rs_Config :: Config
  rs_ClientId :: int

definition zero_result :: CtrlResult where
  "zero_result = \<lparr>rs_RequestId = 0, rs_Err = [], rs_Config = zero_config, rs_ClientId = 0\<rparr>"

record ShardCtrler =
  sc_me :: int
  sc_op :: "ControllerCommand OmniPaxos"
  sc_dead :: int
  sc_curNum :: int
  sc_allConfs :: "Config list"
  sc_chans :: "(int, unit) gomap"
  sc_prevReq :: "(int, int) gomap"

datatype ctrl_stop = CPanic go_panic | CDiverge | CReturnLocked

definition Leave :: string where "Leave = ''LeaveCommand''"

definition Move :: string where "Move = ''MoveCommand''"

definition Join :: string where "Join = ''JoinCommand''"

definition Query :: string where "Query = ''QueryCommand''"

definition ErrNotLeader :: string where "ErrNotLeader = ''ErrNotLeader''"

definition ErrTimeOut :: string where "ErrTimeOut = ''ErrTimeOut''"

definition LatestConfigNum :: int where "LatestConfigNum = -1"

definition go_panics :: "'a go \<Rightarrow> ctrl_stop + 'a" where
  "go_panics r = (case r of Inl p \<Rightarrow> Inl (CPanic p) | Inr a \<Rightarrow> Inr a)"

subsection \<open>Rebalancing\<close>

type_synonym owners = "(int, int list) gomap"

definition sortedKeys :: "owners \<Rightarrow> int list" where
  "sortedKeys all = sort (replicate (length all) 0 @ map fst all)"

definition len_of :: "owners \<Rightarrow> int \<Rightarrow> int" where
  "len_of all k = int (length (mget0 [] all k))"

definition maxGroup :: "owners \<Rightarrow> int" where
  "maxGroup all =
     (if map_of all 0 \<noteq> None \<and> 0 < len_of all 0 then 0
      else snd (fold (\<lambda>k (mx, gid). if mx < len_of all k then (len_of all k, k) else (mx, gid))
                  (sortedKeys all) (0, 0)))"

definition MaxUint32 :: int where
  "MaxUint32 = 4294967295"

definition minGroup :: "owners \<Rightarrow> int" where
  "minGroup all =
     snd (fold (\<lambda>k (mn, gid). if mn > len_of all k \<and> k \<noteq> 0 then (len_of all k, k) else (mn, gid))
            (sortedKeys all) (MaxUint32, 0))"

partial_function (option) balance :: "owners \<Rightarrow> Config \<Rightarrow> int \<Rightarrow> (Config go) option" where
  "balance all c d =
     (let mx = maxGroup all; mn = minGroup all
      in if mx \<noteq> 0 \<and> len_of all mx \<le> d + len_of all mn then Some (Inr c)
         else case go_index (mget0 [] all mx) 0 of
                Inl p \<Rightarrow> Some (Inl p)
              | Inr first \<Rightarrow>
                  (case go_set (cf_Shards c) first mn of
                     Inl p \<Rightarrow> Some (Inl p)
                   | Inr sh \<Rightarrow>
                       let all1 = mput mx (tl (mget0 [] all mx)) all;
                           all2 = mput mn (mget0 [] all1 mn @ [first]) all1
                       in balance all2 (c\<lparr>cf_Shards := sh\<rparr>) d))"

declare balance.simps [code]

definition getConf :: "ShardCtrler \<Rightarrow> int \<Rightarrow> Config list \<Rightarrow> (ShardCtrler \<times> Config) go" where
  "getConf sc num confs =
     res_bind (go_index confs num) (\<lambda>old.
       Inr (sc\<lparr>sc_curNum := sc_curNum sc + 1\<rparr>,
            \<lparr>cf_Num = num + 1, cf_Shards = cf_Shards old, cf_Groups = cf_Groups old\<rparr>))"

definition removeGroups :: "ControllerCommand \<Rightarrow> Config \<Rightarrow> owners \<times> Config" where
  "removeGroups cmd c =
     (let c1 = c\<lparr>cf_Groups := fold mdel (cc_GIDs cmd) (cf_Groups c)\<rparr>
      in (map (\<lambda>(gid, _). (gid, filter (\<lambda>i. gid = cf_Shards c1 ! nat i) (map int [0..<NShards]))) (cf_Groups c1), c1))"

definition assignShard :: "int list \<Rightarrow> nat \<Rightarrow> Config \<times> owners \<Rightarrow> Config \<times> owners" where
  "assignShard gids i =
     fold (\<lambda>gid (c, all).
         if gid = cf_Shards c ! i
         then let mn = minGroup all
              in (c\<lparr>cf_Shards := (cf_Shards c)[i := mn]\<rparr>,
                  if mn \<noteq> 0 then mput mn (mget0 [] all mn @ [int i]) all else all)
         else (c, all)) gids"

definition assingToMin :: "ControllerCommand \<Rightarrow> Config \<Rightarrow> owners \<Rightarrow> Config \<times> owners" where
  "assingToMin cmd c all = fold (assignShard (cc_GIDs cmd)) [0..<NShards] (c, all)"

subsection \<open>The commands\<close>

definition conf_result :: "ShardCtrler \<Rightarrow> ControllerCommand \<Rightarrow> int \<Rightarrow> (ShardCtrler \<times> CtrlResult) go" where
  "conf_result sc cmd num =
     res_bind (go_index (sc_allConfs sc) num) (\<lambda>c.
       Inr (sc, \<lparr>rs_RequestId = cc_ReqId cmd, rs_Err = [], rs_Config = c, rs_ClientId = cc_ClientId cmd\<rparr>))"

definition joinOwners :: "ControllerCommand \<Rightarrow> Config \<Rightarrow> owners \<times> Config" where
  "joinOwners cmd c =
     (let (all, gs) = fold (\<lambda>(gid, srv) (all, gs). (mput gid [] all, mput gid srv gs)) (cc_Servers cmd)
                        ([], cf_Groups c)
      in (fold (\<lambda>i all. mput (cf_Shards c ! i) (mget0 [] all (cf_Shards c ! i) @ [int i]) all) [0..<NShards] all,
          c\<lparr>cf_Groups := gs\<rparr>))"

definition applyJoin :: "ShardCtrler \<Rightarrow> ControllerCommand \<Rightarrow> ctrl_stop + (ShardCtrler \<times> CtrlResult)" where
  "applyJoin sc cmd =
     res_bind (go_panics (getConf sc (sc_curNum sc) (sc_allConfs sc))) (\<lambda>(sc1, c).
       let (all, c1) = joinOwners cmd c
       in case balance all c1 1 of
            None \<Rightarrow> Inl CDiverge
          | Some r \<Rightarrow> res_bind (go_panics r) (\<lambda>c2.
              let sc2 = sc1\<lparr>sc_allConfs := sc_allConfs sc1 @ [c2]\<rparr>
              in go_panics (conf_result sc2 cmd (sc_curNum sc2))))"

definition applyLeave :: "ShardCtrler \<Rightarrow> ControllerCommand \<Rightarrow> ctrl_stop + (ShardCtrler \<times> CtrlResult)" where
  "applyLeave sc cmd =
     res_bind (go_panics (getConf sc (sc_curNum sc) (sc_allConfs sc))) (\<lambda>(sc1, c).
       let (all, c1) = removeGroups cmd c;
           (c2, _) = assingToMin cmd c1 all;
           sc2 = sc1\<lparr>sc_allConfs := sc_allConfs sc1 @ [c2]\<rparr>
       in go_panics (conf_result sc2 cmd (sc_curNum sc2)))"

definition applyMove :: "ShardCtrler \<Rightarrow> ControllerCommand \<Rightarrow> ctrl_stop + (ShardCtrler \<times> CtrlResult)" where
  "applyMove sc cmd =
     res_bind (go_panics (getConf sc (sc_curNum sc) (sc_allConfs sc))) (\<lambda>(sc1, c).
       res_bind (go_panics (go_set (cf_Shards c) (cc_Shard cmd) (cc_GID cmd))) (\<lambda>sh.
         let sc2 = sc1\<lparr>sc_allConfs := sc_allConfs sc1 @ [c\<lparr>cf_Shards := sh\<rparr>]\<rparr>
         in go_panics (conf_result sc2 cmd (sc_curNum sc2))))"

definition applyQuery :: "ShardCtrler \<Rightarrow> ControllerCommand \<Rightarrow> ctrl_stop + (ShardCtrler \<times> CtrlResult)" where
  "applyQuery sc cmd =
     go_panics (conf_result sc cmd
       (if cc_Num cmd = LatestConfigNum \<or> cc_Num cmd > sc_curNum sc then sc_curNum sc else cc_Num cmd))"

definition applySwitch :: "ShardCtrler \<Rightarrow> ControllerCommand \<Rightarrow> ctrl_stop + (ShardCtrler \<times> CtrlResult)" where
  "applySwitch sc c =
     (if cc_Command c = Leave then applyLeave sc c
      else if cc_Command c = Join then applyJoin sc c
      else if cc_Command c = Query then applyQuery sc c
      else if cc_Command c = Move then applyMove sc c
      else Inl CReturnLocked)"

definition applyCommands ::
  "ShardCtrler \<Rightarrow> ControllerCommand ApplyMsg \<Rightarrow> ctrl_stop + (ShardCtrler \<times> (int \<times> CtrlResult) option)" where
  "applyCommands sc m =
     (let c = Command m
      in res_bind
           (if mget0 0 (sc_prevReq sc) (cc_ClientId c) < cc_ReqId c
            then applySwitch (sc\<lparr>sc_prevReq := mput (cc_ClientId c) (cc_ReqId c) (sc_prevReq sc)\<rparr>) c
            else Inr (sc, zero_result\<lparr>rs_RequestId := cc_ReqId c, rs_ClientId := cc_ClientId c\<rparr>))
           (\<lambda>(sc1, res).
              Inr (sc1, if map_of (sc_chans sc1) (CommandIndex m) \<noteq> None then Some (CommandIndex m, res) else None)))"

subsection \<open>Requests of clerks\<close>

definition proposeStart :: "ShardCtrler \<Rightarrow> ControllerCommand
    \<Rightarrow> (ShardCtrler \<times> ControllerCommand calls \<times> (CtrlResult + int)) go" where
  "proposeStart sc com =
     (if map_of (sc_prevReq sc) (cc_ClientId com) \<noteq> None \<and> mget0 0 (sc_prevReq sc) (cc_ClientId com) \<ge> cc_ReqId com
      then Inr (sc, [], Inl zero_result)
      else res_bind (Proposal (sc_op sc) com) (\<lambda>((rf, ms), (i, _, l)).
        if \<not> l then Inr (sc\<lparr>sc_op := rf\<rparr>, ms, Inl (zero_result\<lparr>rs_Err := ErrNotLeader\<rparr>))
        else Inr (sc\<lparr>sc_op := rf, sc_chans := mput i () (sc_chans sc)\<rparr>, ms, Inr i)))"

definition proposeEnd :: "ShardCtrler \<Rightarrow> ControllerCommand \<Rightarrow> int \<Rightarrow> CtrlResult option \<Rightarrow> ShardCtrler \<times> CtrlResult" where
  "proposeEnd sc com i got =
     (sc\<lparr>sc_chans := mdel i (sc_chans sc)\<rparr>,
      case got of
        Some res \<Rightarrow> if rs_ClientId res \<noteq> cc_ClientId com \<or> rs_RequestId res \<noteq> cc_ReqId com
                    then res\<lparr>rs_Err := ErrNotLeader\<rparr> else res
      | None \<Rightarrow> zero_result\<lparr>rs_Err := ErrTimeOut\<rparr>)"

definition joinCommand :: "int \<Rightarrow> int \<Rightarrow> (int, string list) gomap \<Rightarrow> ControllerCommand" where
  "joinCommand cid rid servers =
     zero_command\<lparr>cc_Command := Join, cc_ClientId := cid, cc_ReqId := rid, cc_Servers := servers\<rparr>"

definition leaveCommand :: "int \<Rightarrow> int \<Rightarrow> int list \<Rightarrow> ControllerCommand" where
  "leaveCommand cid rid gids =
     zero_command\<lparr>cc_Command := Leave, cc_ClientId := cid, cc_ReqId := rid, cc_GIDs := gids\<rparr>"

definition moveCommand :: "int \<Rightarrow> int \<Rightarrow> int \<Rightarrow> int \<Rightarrow> ControllerCommand" where
  "moveCommand cid rid shard gid =
     zero_command\<lparr>cc_Command := Move, cc_ClientId := cid, cc_ReqId := rid, cc_GID := gid, cc_Shard := shard\<rparr>"

definition queryCommand :: "int \<Rightarrow> int \<Rightarrow> int \<Rightarrow> ControllerCommand" where
  "queryCommand cid rid num =
     zero_command\<lparr>cc_Command := Query, cc_ClientId := cid, cc_ReqId := rid, cc_Num := num\<rparr>"

definition StartCtrler :: "nat \<Rightarrow> int \<Rightarrow> ControllerCommand gob_msg Persister \<Rightarrow> ShardCtrler go" where
  "StartCtrler n me ps =
     res_bind (Make n me ps) (\<lambda>rf.
       Inr \<lparr>sc_me = me, sc_op = rf, sc_dead = 0, sc_curNum = 0, sc_allConfs = [zero_config],
            sc_chans = [], sc_prevReq = []\<rparr>)"

definition CtrlKill :: "ShardCtrler \<Rightarrow> ShardCtrler" where
  "CtrlKill sc = sc\<lparr>sc_op := Kill (sc_op sc), sc_dead := 1\<rparr>"

subsection \<open>The clerk\<close>

record CtrlClerk =
  cl_clientId :: int
  cl_requestId :: int

definition MakeCtrlClerk :: "int \<Rightarrow> CtrlClerk" where
  "MakeCtrlClerk rnd = \<lparr>cl_clientId = rnd, cl_requestId = 1\<rparr>"

definition next_request :: "CtrlClerk \<Rightarrow> 'r option \<Rightarrow> CtrlClerk" where
  "next_request ck r = (case r of None \<Rightarrow> ck | Some _ \<Rightarrow> ck\<lparr>cl_requestId := cl_requestId ck + 1\<rparr>)"

definition clerkQuery :: "CtrlClerk \<Rightarrow> int \<Rightarrow> (nat \<Rightarrow> CtrlResult option list)
    \<Rightarrow> CtrlClerk \<times> ControllerCommand \<times> Config option" where
  "clerkQuery ck num replies =
     (let r = tryForever rs_Err replies 0
      in (next_request ck r, queryCommand (cl_clientId ck) (cl_requestId ck) num, map_option rs_Config r))"

definition clerkJoin :: "CtrlClerk \<Rightarrow> (int, string list) gomap \<Rightarrow> (nat \<Rightarrow> CtrlResult option list)
    \<Rightarrow> CtrlClerk \<times> ControllerCommand \<times> unit option" where
  "clerkJoin ck servers replies =
     (let r = tryForever rs_Err replies 0
      in (next_request ck r, joinCommand (cl_clientId ck) (cl_requestId ck) servers, map_option (\<lambda>_. ()) r))"

definition clerkLeave :: "CtrlClerk \<Rightarrow> int list \<Rightarrow> (nat \<Rightarrow> CtrlResult option list)
    \<Rightarrow> CtrlClerk \<times> ControllerCommand \<times> unit option" where
  "clerkLeave ck gids replies =
     (let r = tryForever rs_Err replies 0
      in (next_request ck r, leaveCommand (cl_clientId ck) (cl_requestId ck) gids, map_option (\<lambda>_. ()) r))"

definition clerkMove :: "CtrlClerk \<Rightarrow> int \<Rightarrow> int \<Rightarrow> (nat \<Rightarrow> CtrlResult option list)
    \<Rightarrow> CtrlClerk \<times> ControllerCommand \<times> unit option" where
  "clerkMove ck shard gid replies =
     (let r = tryForever rs_Err replies 0
      in (next_request ck r, moveCommand (cl_clientId ck) (cl_requestId ck) shard gid, map_option (\<lambda>_. ()) r))"

end
