(* ===== verification/ServiceTester.thy ===== *)
theory ServiceTester
  imports Endpoints KVServer ShardCtrler
begin

text \<open>
  The test harnesses of the key-value service (\<open>a3-kvpaxos/config.go\<close>) and of the shard controller
  (\<open>a3b-sharding/shardctrler/config.go\<close>).  The two files have the same connections, partitions and clerks
  and differ in the servers they start, so the record and those operations are shared and take the
  kind of server as a type, with its embedded OmniPaxos server \<open>rf_of\<close>.

  As in \<open>Tester\<close>, the storage of a running server is read from the server, random choices are
  arguments, and an instance that was shut down is forgotten.  A clerk is known by the address \<open>ck\<close> under
  which \<open>cfg.clerks\<close> has its end points.
\<close>

record ('e, 'a, 'w, 'r, 'c, 'srv) sconfig =
  st_net :: "('e, nat, 'a, 'w, 'r) Network"
  st_n :: nat
  st_servers :: "'srv option list"
  st_saved :: "'c gob_msg Persister option list"
  st_endnames :: "'e list option list"
  st_clerks :: "(nat, 'e list) gomap"
  st_nextClientId :: int
  st_maxpaxosstate :: int
  st_rpcs0 :: int
  st_ops :: "32 word"

subsection \<open>Connections between servers\<close>

definition connectUnlocked :: "'e list option list \<Rightarrow> nat \<Rightarrow> nat list \<Rightarrow> ('e, nat, 'a, 'w, 'r) Network
    \<Rightarrow> tester_stop + ('e, nat, 'a, 'w, 'r) Network" where
  "connectUnlocked names i tos net =
     res_bind (switchEnds (\<lambda>_. Inr True) (\<lambda>j. res_bind (idx tos j) (endname names i)) True net [0..<length tos]) (\<lambda>net1.
       switchEnds (\<lambda>_. Inr True) (\<lambda>j. res_bind (idx tos j) (\<lambda>t. endname names t i)) True net1 [0..<length tos])"

text \<open>The second loop of \<open>disconnectUnlocked\<close> tests the row of the position, not of the server.\<close>

definition disconnectUnlocked :: "'e list option list \<Rightarrow> nat \<Rightarrow> nat list \<Rightarrow> ('e, nat, 'a, 'w, 'r) Network
    \<Rightarrow> tester_stop + ('e, nat, 'a, 'w, 'r) Network" where
  "disconnectUnlocked names i from net =
     res_bind (switchEnds (\<lambda>_. present names i) (\<lambda>j. res_bind (idx from j) (endname names i)) False net [0..<length from]) (\<lambda>net1.
       switchEnds (present names) (\<lambda>j. res_bind (idx from j) (\<lambda>t. endname names t i)) False net1 [0..<length from])"

definition on_net :: "(('e, nat, 'a, 'w, 'r) Network \<Rightarrow> tester_stop + ('e, nat, 'a, 'w, 'r) Network)
    \<Rightarrow> ('e, 'a, 'w, 'r, 'c, 'srv) sconfig \<Rightarrow> tester_stop + ('e, 'a, 'w, 'r, 'c, 'srv) sconfig" where
  "on_net f cfg = res_bind (f (st_net cfg)) (\<lambda>net. Inr (cfg\<lparr>st_net := net\<rparr>))"

definition connectTo :: "('e, 'a, 'w, 'r, 'c, 'srv) sconfig \<Rightarrow> nat \<Rightarrow> nat list
    \<Rightarrow> tester_stop + ('e, 'a, 'w, 'r, 'c, 'srv) sconfig" where
  "connectTo cfg i tos = on_net (connectUnlocked (st_endnames cfg) i tos) cfg"

definition disconnectFrom :: "('e, 'a, 'w, 'r, 'c, 'srv) sconfig \<Rightarrow> nat \<Rightarrow> nat list
    \<Rightarrow> tester_stop + ('e, 'a, 'w, 'r, 'c, 'srv) sconfig" where
  "disconnectFrom cfg i from = on_net (disconnectUnlocked (st_endnames cfg) i from) cfg"

definition All :: "('e, 'a, 'w, 'r, 'c, 'srv) sconfig \<Rightarrow> nat list" where
  "All cfg = [0..<st_n cfg]"

definition ConnectAll :: "('e, 'a, 'w, 'r, 'c, 'srv) sconfig \<Rightarrow> tester_stop + ('e, 'a, 'w, 'r, 'c, 'srv) sconfig" where
  "ConnectAll cfg = on_net (\<lambda>net. go_foldM (\<lambda>n i. connectUnlocked (st_endnames cfg) i (All cfg) n) net [0..<st_n cfg]) cfg"

text \<open>One of the two loops of \<open>partition\<close>: the servers of \<open>us\<close> leave \<open>them\<close> and join each other.\<close>

definition separate :: "'e list option list \<Rightarrow> nat list \<Rightarrow> nat list \<Rightarrow> ('e, nat, 'a, 'w, 'r) Network
    \<Rightarrow> tester_stop + ('e, nat, 'a, 'w, 'r) Network" where
  "separate names us them net =
     go_foldM (\<lambda>n i. res_bind (disconnectUnlocked names i them n) (connectUnlocked names i us)) net us"

definition partition2 :: "('e, 'a, 'w, 'r, 'c, 'srv) sconfig \<Rightarrow> nat list \<Rightarrow> nat list
    \<Rightarrow> tester_stop + ('e, 'a, 'w, 'r, 'c, 'srv) sconfig" where
  "partition2 cfg p1 p2 =
     on_net (\<lambda>net. res_bind (separate (st_endnames cfg) p1 p2 net) (separate (st_endnames cfg) p2 p1)) cfg"

subsection \<open>Clerks\<close>

text \<open>\<open>rnd i\<close> is the number drawn in round \<open>i\<close>; the pair assignment swaps two elements.\<close>

definition random_handles :: "(nat \<Rightarrow> nat) \<Rightarrow> 'h list \<Rightarrow> 'h list" where
  "random_handles rnd kvh =
     fold (\<lambda>i sa. let j = rnd i mod (i + 1) in sa[i := sa ! j, j := sa ! i]) [0..<length kvh] kvh"

definition switchClient :: "bool \<Rightarrow> ('e, 'a, 'w, 'r, 'c, 'srv) sconfig \<Rightarrow> nat \<Rightarrow> nat list
    \<Rightarrow> tester_stop + ('e, 'a, 'w, 'r, 'c, 'srv) sconfig" where
  "switchClient yes cfg ck servers =
     (let endnames = mget0 [] (st_clerks cfg) ck
      in on_net (\<lambda>net. switchEnds (\<lambda>_. Inr True) (idx endnames) yes net servers) cfg)"

definition ConnectClientUnlocked :: "('e, 'a, 'w, 'r, 'c, 'srv) sconfig \<Rightarrow> nat \<Rightarrow> nat list
    \<Rightarrow> tester_stop + ('e, 'a, 'w, 'r, 'c, 'srv) sconfig" where
  "ConnectClientUnlocked = switchClient True"

definition DisconnectClientUnlocked :: "('e, 'a, 'w, 'r, 'c, 'srv) sconfig \<Rightarrow> nat \<Rightarrow> nat list
    \<Rightarrow> tester_stop + ('e, 'a, 'w, 'r, 'c, 'srv) sconfig" where
  "DisconnectClientUnlocked = switchClient False"

text \<open>The handles of the clerk are its end points in random order.\<close>

definition makeClient :: "('e, 'a, 'w, 'r, 'c, 'srv) sconfig \<Rightarrow> nat \<Rightarrow> 'e list \<Rightarrow> (nat \<Rightarrow> nat) \<Rightarrow> nat list
    \<Rightarrow> tester_stop + (('e, 'a, 'w, 'r, 'c, 'srv) sconfig \<times> 'e list)" where
  "makeClient cfg ck endnames rnd tos =
     res_bind (on_net (\<lambda>net. makeEnds net endnames) cfg) (\<lambda>cfg1.
       res_bind (ConnectClientUnlocked (cfg1\<lparr>st_clerks := mput ck endnames (st_clerks cfg1),
                                             st_nextClientId := st_nextClientId cfg1 + 1\<rparr>) ck tos) (\<lambda>cfg2.
         Inr (cfg2, random_handles rnd endnames)))"

definition deleteClient :: "('e, 'a, 'w, 'r, 'c, 'srv) sconfig \<Rightarrow> nat \<Rightarrow> ('e, 'a, 'w, 'r, 'c, 'srv) sconfig" where
  "deleteClient cfg ck = cfg\<lparr>st_clerks := mdel ck (st_clerks cfg)\<rparr>"

subsection \<open>Shutting down and starting\<close>

definition savedBy :: "('srv \<Rightarrow> 'c OmniPaxos) \<Rightarrow> ('e, 'a, 'w, 'r, 'c, 'srv) sconfig \<Rightarrow> nat \<Rightarrow> 'c gob_msg Persister option" where
  "savedBy rf_of cfg i =
     (case st_servers cfg ! i of Some kv \<Rightarrow> Some (op_persister (rf_of kv)) | None \<Rightarrow> st_saved cfg ! i)"

definition ShutdownServer :: "('srv \<Rightarrow> 'c OmniPaxos) \<Rightarrow> ('e, 'a, 'w, 'r, 'c, 'srv) sconfig \<Rightarrow> nat
    \<Rightarrow> tester_stop + ('e, 'a, 'w, 'r, 'c, 'srv) sconfig" where
  "ShutdownServer rf_of cfg i =
     res_bind (disconnectFrom cfg i (All cfg)) (\<lambda>cfg1.
       res_bind (upd (st_saved cfg1) i (map_option Copy (savedBy rf_of cfg1 i))) (\<lambda>saved.
         res_bind (upd (st_servers cfg1) i None) (\<lambda>servers.
           Inr (cfg1\<lparr>st_net := DeleteServer (st_net cfg1) i, st_saved := saved, st_servers := servers\<rparr>))))"

definition registerServices :: "('e, nat, 'a, 'w, 'r) Network \<Rightarrow> nat \<Rightarrow> ('a, 'w, 'r) Service \<Rightarrow> ('a, 'w, 'r) Service
    \<Rightarrow> ('e, nat, 'a, 'w, 'r) Network" where
  "registerServices net i kvsvc rfsvc =
     (let p = length (rn_heap net)
      in AddServer (net\<lparr>rn_heap := rn_heap net @ [(p, AddService (AddService MakeServer kvsvc) rfsvc)]\<rparr>) i p)"

definition StartServerWith :: "(nat \<Rightarrow> int \<Rightarrow> 'c gob_msg Persister \<Rightarrow> 'srv go) \<Rightarrow> ('srv \<Rightarrow> 'c OmniPaxos)
    \<Rightarrow> ('e, 'a, 'w, 'r, 'c, 'srv) sconfig \<Rightarrow> nat \<Rightarrow> 'e list \<Rightarrow> ('a, 'w, 'r) Service \<Rightarrow> ('a, 'w, 'r) Service
    \<Rightarrow> tester_stop + ('e, 'a, 'w, 'r, 'c, 'srv) sconfig" where
  "StartServerWith start rf_of cfg i names kvsvc rfsvc =
     res_bind (upd (st_endnames cfg) i (Some names)) (\<lambda>ends.
       res_bind (makeEnds (st_net cfg) names) (\<lambda>net1.
         let ps = (case savedBy rf_of cfg i of Some ps \<Rightarrow> Copy ps | None \<Rightarrow> MakePersister)
         in res_bind (upd (st_saved cfg) i (Some ps)) (\<lambda>saved.
              res_bind (from_go (start (st_n cfg) (int i) ps)) (\<lambda>srv.
                res_bind (upd (st_servers cfg) i (Some srv)) (\<lambda>servers.
                  Inr (cfg\<lparr>st_endnames := ends, st_saved := saved, st_servers := servers,
                           st_net := registerServices net1 i kvsvc rfsvc\<rparr>))))))"

definition KVStartServer :: "('e, 'a, 'w, 'r, KVCommand, KVServer) sconfig \<Rightarrow> nat \<Rightarrow> 'e list
    \<Rightarrow> ('a, 'w, 'r) Service \<Rightarrow> ('a, 'w, 'r) Service \<Rightarrow> tester_stop + ('e, 'a, 'w, 'r, KVCommand, KVServer) sconfig" where
  "KVStartServer = StartServerWith StartKVServer kv_rf"

definition CtrlStartServer :: "('e, 'a, 'w, 'r, ControllerCommand, ShardCtrler) sconfig \<Rightarrow> nat \<Rightarrow> 'e list
    \<Rightarrow> ('a, 'w, 'r) Service \<Rightarrow> ('a, 'w, 'r) Service \<Rightarrow> tester_stop + ('e, 'a, 'w, 'r, ControllerCommand, ShardCtrler) sconfig" where
  "CtrlStartServer = StartServerWith StartCtrler sc_op"

definition KVShutdownServer :: "('e, 'a, 'w, 'r, KVCommand, KVServer) sconfig \<Rightarrow> nat
    \<Rightarrow> tester_stop + ('e, 'a, 'w, 'r, KVCommand, KVServer) sconfig" where
  "KVShutdownServer = ShutdownServer kv_rf"

definition CtrlShutdownServer :: "('e, 'a, 'w, 'r, ControllerCommand, ShardCtrler) sconfig \<Rightarrow> nat
    \<Rightarrow> tester_stop + ('e, 'a, 'w, 'r, ControllerCommand, ShardCtrler) sconfig" where
  "CtrlShutdownServer = ShutdownServer sc_op"

definition emptySConfig :: "nat \<Rightarrow> int \<Rightarrow> ('e, 'a, 'w, 'r, 'c, 'srv) sconfig" where
  "emptySConfig n maxpaxosstate =
     \<lparr>st_net = MakeNetwork, st_n = n, st_servers = replicate n None, st_saved = replicate n None, st_endnames = replicate n None,
      st_clerks = [], st_nextClientId = int n + 1000, st_maxpaxosstate = maxpaxosstate, st_rpcs0 = 0, st_ops = 0\<rparr>"

definition makeWith :: "(('e, 'a, 'w, 'r, 'c, 'srv) sconfig \<Rightarrow> nat \<Rightarrow> tester_stop + ('e, 'a, 'w, 'r, 'c, 'srv) sconfig)
    \<Rightarrow> nat \<Rightarrow> bool \<Rightarrow> int \<Rightarrow> tester_stop + ('e, 'a, 'w, 'r, 'c, 'srv) sconfig" where
  "makeWith start n unreliable maxpaxosstate =
     res_bind (go_foldM start (emptySConfig n maxpaxosstate) [0..<n]) (\<lambda>cfg.
       res_bind (ConnectAll cfg) (\<lambda>cfg1. Inr (cfg1\<lparr>st_net := Reliable (st_net cfg1) (\<not> unreliable)\<rparr>)))"

definition make_kv_config :: "nat \<Rightarrow> bool \<Rightarrow> int \<Rightarrow> (nat \<Rightarrow> 'e list) \<Rightarrow> (nat \<Rightarrow> ('a, 'w, 'r) Service) \<Rightarrow> (nat \<Rightarrow> ('a, 'w, 'r) Service)
    \<Rightarrow> tester_stop + ('e, 'a, 'w, 'r, KVCommand, KVServer) sconfig" where
  "make_kv_config n unreliable maxpaxosstate names kvsvc rfsvc =
     makeWith (\<lambda>cfg i. KVStartServer cfg i (names i) (kvsvc i) (rfsvc i)) n unreliable maxpaxosstate"

definition make_ctrl_config :: "nat \<Rightarrow> bool \<Rightarrow> (nat \<Rightarrow> 'e list) \<Rightarrow> (nat \<Rightarrow> ('a, 'w, 'r) Service) \<Rightarrow> (nat \<Rightarrow> ('a, 'w, 'r) Service)
    \<Rightarrow> tester_stop + ('e, 'a, 'w, 'r, ControllerCommand, ShardCtrler) sconfig" where
  "make_ctrl_config n unreliable names kvsvc rfsvc =
     makeWith (\<lambda>cfg i. CtrlStartServer cfg i (names i) (kvsvc i) (rfsvc i)) n unreliable 0"

definition kv_cleanup :: "('e, 'a, 'w, 'r, KVCommand, KVServer) sconfig \<Rightarrow> ('e, 'a, 'w, 'r, KVCommand, KVServer) sconfig" where
  "kv_cleanup cfg = cfg\<lparr>st_servers := map (map_option KVKill) (st_servers cfg), st_net := Cleanup (st_net cfg)\<rparr>"

definition ctrl_cleanup :: "('e, 'a, 'w, 'r, ControllerCommand, ShardCtrler) sconfig
    \<Rightarrow> ('e, 'a, 'w, 'r, ControllerCommand, ShardCtrler) sconfig" where
  "ctrl_cleanup cfg = cfg\<lparr>st_servers := map (map_option CtrlKill) (st_servers cfg), st_net := Cleanup (st_net cfg)\<rparr>"

subsection \<open>Leaders and partitions\<close>

text \<open>The harness of the key-value service asks every server, that of the controller the running ones.\<close>

fun kvLeader :: "KVServer option list \<Rightarrow> nat \<Rightarrow> tester_stop + (bool \<times> nat)" where
  "kvLeader [] i = Inr (False, 0)"
| "kvLeader (None # kvs) i = Inl (TPanic NilDeref)"
| "kvLeader (Some kv # kvs) i = (if snd (GetState (kv_rf kv)) then Inr (True, i) else kvLeader kvs (i + 1))"

fun ctrlLeader :: "ShardCtrler option list \<Rightarrow> nat \<Rightarrow> bool \<times> nat" where
  "ctrlLeader [] i = (False, 0)"
| "ctrlLeader (None # scs) i = ctrlLeader scs (i + 1)"
| "ctrlLeader (Some sc # scs) i = (if snd (GetState (sc_op sc)) then (True, i) else ctrlLeader scs (i + 1))"

text \<open>
  The loop of \<open>make_partition\<close>: the servers other than \<open>l\<close> fill \<open>p1\<close> and then \<open>p2\<close>; the last
  element of \<open>p2\<close> is the leader.
\<close>

fun fillParts :: "nat \<Rightarrow> nat list \<Rightarrow> nat \<Rightarrow> nat list \<Rightarrow> nat list \<Rightarrow> tester_stop + (nat list \<times> nat list)" where
  "fillParts l [] j p1 p2 = Inr (p1, p2)"
| "fillParts l (i # is) j p1 p2 =
     (if i \<noteq> l
      then if j < length p1 then fillParts l is (j + 1) (p1[j := i]) p2
           else res_bind (upd p2 (j - length p1) i) (\<lambda>q2. fillParts l is (j + 1) p1 q2)
      else fillParts l is j p1 p2)"

definition make_partition :: "nat \<Rightarrow> nat \<Rightarrow> tester_stop + (nat list \<times> nat list)" where
  "make_partition n l =
     res_bind (fillParts l [0..<n] 0 (replicate (n div 2 + 1) 0) (replicate (n div 2) 0)) (\<lambda>(p1, p2).
       if length p2 = 0 then Inl (TPanic IndexOutOfRange)
       else res_bind (upd p2 (length p2 - 1) l) (\<lambda>q2. Inr (p1, q2)))"

definition kv_make_partition :: "('e, 'a, 'w, 'r, KVCommand, KVServer) sconfig \<Rightarrow> tester_stop + (nat list \<times> nat list)" where
  "kv_make_partition cfg = res_bind (kvLeader (st_servers cfg) 0) (\<lambda>(_, l). make_partition (st_n cfg) l)"

definition ctrl_make_partition :: "('e, 'a, 'w, 'r, ControllerCommand, ShardCtrler) sconfig
    \<Rightarrow> tester_stop + (nat list \<times> nat list)" where
  "ctrl_make_partition cfg = (case ctrlLeader (st_servers cfg) 0 of (_, l) \<Rightarrow> make_partition (st_n cfg) l)"

subsection \<open>Statistics\<close>

definition srpcTotal :: "('e, 'a, 'w, 'r, 'c, 'srv) sconfig \<Rightarrow> int" where
  "srpcTotal cfg = GetTotalCount (st_net cfg)"

definition kvBegin :: "('e, 'a, 'w, 'r, 'c, 'srv) sconfig \<Rightarrow> ('e, 'a, 'w, 'r, 'c, 'srv) sconfig" where
  "kvBegin cfg = cfg\<lparr>st_rpcs0 := srpcTotal cfg, st_ops := 0\<rparr>"

definition countOp :: "('e, 'a, 'w, 'r, 'c, 'srv) sconfig \<Rightarrow> ('e, 'a, 'w, 'r, 'c, 'srv) sconfig" where
  "countOp cfg = cfg\<lparr>st_ops := st_ops cfg + 1\<rparr>"

definition sizeOver :: "('c gob_msg Persister \<Rightarrow> nat) \<Rightarrow> ('srv \<Rightarrow> 'c OmniPaxos) \<Rightarrow> ('e, 'a, 'w, 'r, 'c, 'srv) sconfig
    \<Rightarrow> tester_stop + nat" where
  "sizeOver sz rf_of cfg =
     go_foldM (\<lambda>m i. case savedBy rf_of cfg i of
         None \<Rightarrow> Inl (TPanic NilDeref) | Some ps \<Rightarrow> Inr (if sz ps > m then sz ps else m)) 0 [0..<st_n cfg]"

definition kvLogSize :: "('e, 'a, 'w, 'r, KVCommand, KVServer) sconfig \<Rightarrow> tester_stop + nat" where
  "kvLogSize = sizeOver OmnipaxosStateSize kv_rf"

definition kvSnapshotSize :: "('e, 'a, 'w, 'r, KVCommand, KVServer) sconfig \<Rightarrow> tester_stop + nat" where
  "kvSnapshotSize = sizeOver SnapshotSize kv_rf"

definition ctrlLogSize :: "('e, 'a, 'w, 'r, ControllerCommand, ShardCtrler) sconfig \<Rightarrow> tester_stop + nat" where
  "ctrlLogSize = sizeOver OmnipaxosStateSize sc_op"

end
