(* ===== verification/Partitions.thy ===== *)
theory Partitions
  imports ServiceTester
begin

text \<open>
  Properties of the harnesses of \<open>ServiceTester\<close>: \<open>partition\<close> cuts exactly the links between its two
  sides, \<open>make_partition\<close> puts the leader in the minority when the number of servers is odd, the handles
  of a clerk are a permutation of its end points, and a key-value server that is shut down and started
  again rebuilds its store.
\<close>

subsection \<open>Links as a set of pairs\<close>

definition star :: "nat \<Rightarrow> nat set \<Rightarrow> (nat \<times> nat) set" where
  "star i T = {i} \<times> T \<union> T \<times> {i}"

text \<open>
  What the partition loops need of the connections: each operation succeeds on servers that exist
  and changes the links of one server with a set of others.
\<close>

locale link_table =
  fixes links :: "'s \<Rightarrow> (nat \<times> nat) set" and ok :: "'s \<Rightarrow> bool" and n :: nat
    and con :: "nat \<Rightarrow> nat list \<Rightarrow> 's \<Rightarrow> 'x + 's" and dis :: "nat \<Rightarrow> nat list \<Rightarrow> 's \<Rightarrow> 'x + 's"
  assumes con_links: "ok s \<Longrightarrow> i < n \<Longrightarrow> set ts \<subseteq> {..<n} \<Longrightarrow>
      \<exists>s'. con i ts s = Inr s' \<and> ok s' \<and> links s' = links s \<union> star i (set ts)"
    and dis_links: "ok s \<Longrightarrow> i < n \<Longrightarrow> set ts \<subseteq> {..<n} \<Longrightarrow> length ts \<le> n \<Longrightarrow>
      \<exists>s'. dis i ts s = Inr s' \<and> ok s' \<and> links s' = links s - star i (set ts)"
begin

lemma separate_links:
  assumes "ok s" and "set q \<subseteq> set us" and "set us \<subseteq> {..<n}" and "set them \<subseteq> {..<n}" and "set us \<inter> set them = {}"
    and "length them \<le> n"
  shows "\<exists>s'. go_foldM (\<lambda>s i. res_bind (dis i them s) (con i us)) s q = Inr s' \<and> ok s'
    \<and> links s' = links s - (set q \<times> set them \<union> set them \<times> set q) \<union> (set q \<times> set us \<union> set us \<times> set q)"
  using assms(1,2)
proof (induction q arbitrary: s)
  case (Cons x q)
  have x: "x < n" "x \<in> set us" using Cons.prems(2) assms(3) by auto
  from dis_links [OF Cons.prems(1) x(1) assms(4,6)] obtain t where t: "dis x them s = Inr t" "ok t" "links t = links s - star x (set them)"
    by blast
  from con_links [OF t(2) x(1) assms(3)] obtain u where u: "con x us t = Inr u" "ok u" "links u = links t \<union> star x (set us)" by blast
  from Cons.IH [OF u(2)] Cons.prems(2) obtain s' where s': "go_foldM (\<lambda>s i. res_bind (dis i them s) (con i us)) u q = Inr s'" "ok s'"
    "links s' = links u - (set q \<times> set them \<union> set them \<times> set q) \<union> (set q \<times> set us \<union> set us \<times> set q)" by auto
  have "links s' = links s - (set (x # q) \<times> set them \<union> set them \<times> set (x # q)) \<union> (set (x # q) \<times> set us \<union> set us \<times> set (x # q))"
    unfolding s'(3) u(3) t(3) star_def using assms(5) Cons.prems(2) by auto
  with s' t u show ?case by simp
qed simp

lemma partition_links:
  assumes "ok s" and "set p1 \<subseteq> {..<n}" and "set p2 \<subseteq> {..<n}" and "set p1 \<inter> set p2 = {}"
    and "length p1 \<le> n" and "length p2 \<le> n"
  shows "\<exists>s'. res_bind (go_foldM (\<lambda>s i. res_bind (dis i p2 s) (con i p1)) s p1)
        (\<lambda>s. go_foldM (\<lambda>s i. res_bind (dis i p1 s) (con i p2)) s p2) = Inr s' \<and> ok s'
    \<and> links s' = links s - (set p1 \<times> set p2 \<union> set p2 \<times> set p1) \<union> (set p1 \<times> set p1 \<union> set p2 \<times> set p2)"
proof -
  from separate_links [OF assms(1) subset_refl assms(2,3,4,6)] obtain t where
    t: "go_foldM (\<lambda>s i. res_bind (dis i p2 s) (con i p1)) s p1 = Inr t" "ok t"
      "links t = links s - (set p1 \<times> set p2 \<union> set p2 \<times> set p1) \<union> (set p1 \<times> set p1 \<union> set p1 \<times> set p1)" by blast
  have "set p2 \<inter> set p1 = {}" using assms(4) by blast
  from separate_links [OF t(2) subset_refl assms(3,2) this assms(5)] obtain u where
    u: "go_foldM (\<lambda>s i. res_bind (dis i p1 s) (con i p2)) t p2 = Inr u" "ok u"
      "links u = links t - (set p2 \<times> set p1 \<union> set p1 \<times> set p2) \<union> (set p2 \<times> set p2 \<union> set p2 \<times> set p2)" by blast
  have "links u = links s - (set p1 \<times> set p2 \<union> set p2 \<times> set p1) \<union> (set p1 \<times> set p1 \<union> set p2 \<times> set p2)"
    unfolding u(3) t(3) using assms(4) by auto
  with t u show ?thesis by simp
qed

lemma connect_all_links:
  assumes "ok s" and "k \<le> n"
  shows "\<exists>s'. go_foldM (\<lambda>s i. con i [0..<n] s) s [0..<k] = Inr s' \<and> ok s'
    \<and> links s' = links s \<union> ({..<k} \<times> {..<n} \<union> {..<n} \<times> {..<k})"
  using assms(2)
proof (induction k)
  case 0
  then show ?case using assms(1) by simp
next
  case (Suc k)
  then obtain t where t: "go_foldM (\<lambda>s i. con i [0..<n] s) s [0..<k] = Inr t" "ok t"
    "links t = links s \<union> ({..<k} \<times> {..<n} \<union> {..<n} \<times> {..<k})" by auto
  from con_links [OF t(2), of k "[0..<n]"] Suc.prems obtain u where
    u: "con k [0..<n] t = Inr u" "ok u" "links u = links t \<union> star k {..<n}" by (auto simp: atLeast0LessThan)
  have "links u = links s \<union> ({..<Suc k} \<times> {..<n} \<union> {..<n} \<times> {..<Suc k})"
    unfolding u(3) t(3) star_def by (auto simp: less_Suc_eq)
  with t u show ?case by (simp add: go_foldM_append)
qed

end

text \<open>A full table of end point names.\<close>

definition table_ok :: "nat \<Rightarrow> 'e list option list \<Rightarrow> bool" where
  "table_ok n names \<longleftrightarrow> length names = n \<and> (\<forall>i < n. \<exists>es. names ! i = Some es \<and> length es = n)
     \<and> (\<forall>i j k l e. name_at names i j = Some e \<and> name_at names k l = Some e \<longrightarrow> i = k \<and> j = l)"

definition links_of :: "'e list option list \<Rightarrow> ('e, 'v, 'a, 'w, 'r) Network \<Rightarrow> (nat \<times> nat) set" where
  "links_of names net = {(i, j). \<exists>e. name_at names i j = Some e \<and> enabled net e}"

lemma table_names:
  assumes "table_ok n names"
  shows "i < n \<Longrightarrow> j < n \<Longrightarrow> \<exists>e. name_at names i j = Some e"
    and "name_at names i j = Some e \<Longrightarrow> name_at names k l = Some e \<Longrightarrow> i = k \<and> j = l"
    and "name_at names i j = Some e \<Longrightarrow> i < n \<and> j < n"
    and "i < n \<Longrightarrow> present names i = Inr True"
proof -
  show "\<exists>e. name_at names i j = Some e" if "i < n" "j < n"
    using assms that by (auto simp: table_ok_def name_at_def split: option.splits)
  show "i < n \<and> j < n" if "name_at names i j = Some e"
    using assms that by (auto simp: table_ok_def name_at_def split: if_splits option.splits)
  show "present names i = Inr True" if "i < n"
    using assms that by (auto simp: table_ok_def present_def idx_def)
  show "i = k \<and> j = l" if "name_at names i j = Some e" "name_at names k l = Some e"
    using assms that unfolding table_ok_def by blast
qed

lemma bex_nth: "(\<exists>j \<in> set [0..<length ts]. R (ts ! j)) \<longleftrightarrow> (\<exists>t \<in> set ts. R t)"
  by (auto simp: in_set_conv_nth Bex_def)

text \<open>A pair of loops over the end points between server \<open>i\<close> and a list of servers.\<close>

lemma switch_both:
  assumes "table_ok n names" and "i < n" and "set ts \<subseteq> {..<n}"
    and "\<And>j. j < length ts \<Longrightarrow> P j = Inr True" and "\<And>j. j < length ts \<Longrightarrow> Q j = Inr True"
  shows "\<exists>net'. res_bind (switchEnds P (\<lambda>j. res_bind (idx ts j) (endname names i)) yes net [0..<length ts]) (\<lambda>net1.
        switchEnds Q (\<lambda>j. res_bind (idx ts j) (\<lambda>t. endname names t i)) yes net1 [0..<length ts]) = Inr net'
      \<and> links_of names net' = (if yes then links_of names net \<union> star i (set ts) else links_of names net - star i (set ts))"
proof -
  have nth: "idx ts j = Inr (ts ! j)" "ts ! j < n" if "j < length ts" for j
    using that subsetD [OF assms(3) nth_mem [OF that]] by (simp_all add: idx_def)
  have out: "\<exists>e. res_bind (idx ts j) (endname names i) = Inr e" "\<exists>e. res_bind (idx ts j) (\<lambda>t. endname names t i) = Inr e"
    if "j < length ts" for j
    using nth [OF that] table_names(1) [OF assms(1)] assms(2) by (auto simp: endname_iff)
  have "\<exists>net1. switchEnds P (\<lambda>j. res_bind (idx ts j) (endname names i)) yes net [0..<length ts] = Inr net1"
    by (rule switchEnds_total) (use assms(4) out(1) in auto)
  then obtain net1 where 1: "switchEnds P (\<lambda>j. res_bind (idx ts j) (endname names i)) yes net [0..<length ts] = Inr net1" by blast
  have "\<exists>net2. switchEnds Q (\<lambda>j. res_bind (idx ts j) (\<lambda>t. endname names t i)) yes net1 [0..<length ts] = Inr net2"
    by (rule switchEnds_total) (use assms(5) out(2) in auto)
  then obtain net2 where 2: "switchEnds Q (\<lambda>j. res_bind (idx ts j) (\<lambda>t. endname names t i)) yes net1 [0..<length ts] = Inr net2" by blast
  have hit: "(\<exists>j \<in> set [0..<length ts]. P j = Inr True \<and> res_bind (idx ts j) (endname names i) = Inr e) \<longleftrightarrow> (\<exists>t \<in> set ts. name_at names i t = Some e)"
    "(\<exists>j \<in> set [0..<length ts]. Q j = Inr True \<and> res_bind (idx ts j) (\<lambda>t. endname names t i) = Inr e) \<longleftrightarrow> (\<exists>t \<in> set ts. name_at names t i = Some e)" for e
    by (subst bex_nth [symmetric], rule bex_cong [OF refl], use nth assms(4,5) in \<open>simp add: endname_iff\<close>)+
  have en: "enabled net2 e = (if \<exists>t \<in> set ts. name_at names i t = Some e \<or> name_at names t i = Some e then yes else enabled net e)" for e
    using switchEnds_Inr(2) [OF 1, of e] switchEnds_Inr(2) [OF 2, of e] unfolding hit by auto
  have pair: "(\<exists>t \<in> set ts. name_at names i t = Some e \<or> name_at names t i = Some e) \<longleftrightarrow> (a, b) \<in> star i (set ts)"
    if "name_at names a b = Some e" for a b e
  proof
    assume "\<exists>t \<in> set ts. name_at names i t = Some e \<or> name_at names t i = Some e"
    then obtain t where t: "t \<in> set ts" "name_at names i t = Some e \<or> name_at names t i = Some e" by blast
    then have "(a, b) = (i, t) \<or> (a, b) = (t, i)" using table_names(2) [OF assms(1) that] by blast
    with t(1) show "(a, b) \<in> star i (set ts)" by (auto simp: star_def)
  next
    assume "(a, b) \<in> star i (set ts)"
    with that show "\<exists>t \<in> set ts. name_at names i t = Some e \<or> name_at names t i = Some e" by (auto simp: star_def)
  qed
  have all: "\<exists>e. name_at names a b = Some e" if "(a, b) \<in> star i (set ts)" for a b
    using that assms(2,3) table_names(1) [OF assms(1)] by (auto simp: star_def)
  have "links_of names net2 = (if yes then links_of names net \<union> star i (set ts) else links_of names net - star i (set ts))"
  proof (intro set_eqI iffI; clarify)
    fix a b
    assume "(a, b) \<in> links_of names net2"
    then obtain e where e: "name_at names a b = Some e" "enabled net2 e" by (auto simp: links_of_def)
    then show "(a, b) \<in> (if yes then links_of names net \<union> star i (set ts) else links_of names net - star i (set ts))"
      using pair [OF e(1)] by (auto simp: links_of_def en split: if_splits)
  next
    fix a b
    assume ab: "(a, b) \<in> (if yes then links_of names net \<union> star i (set ts) else links_of names net - star i (set ts))"
    then obtain e where e: "name_at names a b = Some e" using all by (auto simp: links_of_def split: if_splits)
    have "enabled net e" if "(a, b) \<in> links_of names net" using that e by (auto simp: links_of_def)
    with ab e pair [OF e] have "enabled net2 e" by (auto simp: en split: if_splits)
    with e show "(a, b) \<in> links_of names net2" by (auto simp: links_of_def)
  qed
  with 1 2 show ?thesis by auto
qed

interpretation table: link_table "links_of names" "\<lambda>_. table_ok n names" n "connectUnlocked names" "disconnectUnlocked names" for n names
proof (unfold_locales, goal_cases)
  case (1 s i ts)
  then show ?case using switch_both [OF 1, of "\<lambda>_. Inr True" "\<lambda>_. Inr True" True s] by (simp add: connectUnlocked_def)
next
  case (2 s i ts)
  have "present names j = Inr True" if "j < length ts" for j using table_names(4) [OF 2(1), of j] that 2(4) by simp
  with 2 switch_both [OF 2(1-3), of "\<lambda>_. present names i" "present names" False s] table_names(4) [OF 2(1,2)] show ?case
    by (simp add: disconnectUnlocked_def)
qed

text \<open>\<open>partition\<close> on the configuration, and \<open>ConnectAll\<close>.\<close>

lemma partition2_links:
  assumes "table_ok n (st_endnames cfg)" and "set p1 \<subseteq> {..<n}" and "set p2 \<subseteq> {..<n}" and "set p1 \<inter> set p2 = {}"
    and "length p1 \<le> n" and "length p2 \<le> n"
  shows "\<exists>net. partition2 cfg p1 p2 = Inr (cfg\<lparr>st_net := net\<rparr>)
    \<and> links_of (st_endnames cfg) net =
        links_of (st_endnames cfg) (st_net cfg) - (set p1 \<times> set p2 \<union> set p2 \<times> set p1) \<union> (set p1 \<times> set p1 \<union> set p2 \<times> set p2)"
  using table.partition_links [OF assms, of "st_net cfg"]
  by (auto simp: partition2_def on_net_def separate_def [abs_def])

lemma ConnectAll_links:
  assumes "table_ok (st_n cfg) (st_endnames cfg)"
  shows "\<exists>net. ConnectAll cfg = Inr (cfg\<lparr>st_net := net\<rparr>)
    \<and> links_of (st_endnames cfg) net = {..<st_n cfg} \<times> {..<st_n cfg}"
proof -
  from table.connect_all_links [OF assms order_refl, of "st_net cfg"] obtain net where
    net: "go_foldM (\<lambda>s i. connectUnlocked (st_endnames cfg) i [0..<st_n cfg] s) (st_net cfg) [0..<st_n cfg] = Inr net"
      "links_of (st_endnames cfg) net = links_of (st_endnames cfg) (st_net cfg) \<union> {..<st_n cfg} \<times> {..<st_n cfg}" by auto
  have "links_of (st_endnames cfg) (st_net cfg) \<subseteq> {..<st_n cfg} \<times> {..<st_n cfg}"
    using table_names(3) [OF assms] by (auto simp: links_of_def)
  with net show ?thesis by (auto simp: ConnectAll_def All_def on_net_def)
qed

subsection \<open>The leader in the minority\<close>

lemma fillParts_spec:
  assumes "j + length (filter (\<lambda>i. i \<noteq> l) is) \<le> length p1 + length p2"
  shows "\<exists>q1 q2. fillParts l is j p1 p2 = Inr (q1, q2) \<and> length q1 = length p1 \<and> length q2 = length p2
    \<and> q1 @ q2 = take j (p1 @ p2) @ filter (\<lambda>i. i \<noteq> l) is @ drop (j + length (filter (\<lambda>i. i \<noteq> l) is)) (p1 @ p2)"
  using assms
proof (induction "is" arbitrary: j p1 p2)
  case (Cons i "is")
  let ?arr = "p1 @ p2" and ?fs = "filter (\<lambda>i. i \<noteq> l) is"
  show ?case
  proof (cases "i = l")
    case False
    then have j: "j < length ?arr" using Cons.prems by simp
    have step: "take (Suc j) (?arr[j := i]) @ ?fs @ drop (Suc j + length ?fs) (?arr[j := i])
        = take j ?arr @ (i # ?fs) @ drop (j + Suc (length ?fs)) ?arr"
      using j by (simp add: take_Suc_conv_app_nth)
    show ?thesis
    proof (cases "j < length p1")
      case True
      with Cons.IH [of "Suc j" "p1[j := i]" p2] Cons.prems False obtain q1 q2 where
        "fillParts l is (Suc j) (p1[j := i]) p2 = Inr (q1, q2)" "length q1 = length p1" "length q2 = length p2"
        "q1 @ q2 = take (Suc j) (?arr[j := i]) @ ?fs @ drop (Suc j + length ?fs) (?arr[j := i])"
        by (auto simp: list_update_append1)
      then show ?thesis unfolding step using True False by simp
    next
      case False2: False
      let ?q = "p2[j - length p1 := i]"
      have arr: "p1 @ ?q = ?arr[j := i]" using False2 by (simp add: list_update_append)
      have up: "upd p2 (j - length p1) i = Inr ?q" using False2 j by (auto simp: upd_def)
      from Cons.IH [of "Suc j" p1 ?q] Cons.prems False obtain q1 q2 where
        "fillParts l is (Suc j) p1 ?q = Inr (q1, q2)" "length q1 = length p1" "length q2 = length p2"
        "q1 @ q2 = take (Suc j) (?arr[j := i]) @ ?fs @ drop (Suc j + length ?fs) (?arr[j := i])"
        unfolding arr by auto
      then show ?thesis unfolding step using False2 False up by simp
    qed
  next
    case True
    with Cons.IH [of j p1 p2] Cons.prems show ?thesis by simp
  qed
next
  case Nil
  then show ?case using append_take_drop_id [of j "p1 @ p2"] by (simp del: take_append drop_append)
qed

lemma others_length: "l < n \<Longrightarrow> length (filter (\<lambda>i. i \<noteq> l) [0..<n]) = n - 1"
proof -
  assume "l < n"
  then have "set (filter (\<lambda>i. i \<noteq> l) [0..<n]) = {..<n} - {l}" by auto
  then show ?thesis using \<open>l < n\<close> by (metis card_Diff_singleton card_lessThan distinct_card distinct_filter distinct_upt lessThan_iff)
qed

lemma make_partition_odd:
  assumes "odd n" and "n \<noteq> 1" and "l < n"
  shows "\<exists>p1 p2. make_partition n l = Inr (p1, p2) \<and> p1 @ p2 = filter (\<lambda>i. i \<noteq> l) [0..<n] @ [l]
    \<and> length p1 = n div 2 + 1 \<and> length p2 = n div 2"
proof -
  let ?fs = "filter (\<lambda>i. i \<noteq> l) [0..<n]"
  let ?p1 = "replicate (n div 2 + 1) (0 :: nat)" and ?p2 = "replicate (n div 2) (0 :: nat)"
  have len: "length ?fs = n - 1" by (rule others_length [OF assms(3)])
  have n: "length ?p1 + length ?p2 = n" using assms(1) by (simp add: odd_iff_mod_2_eq_one) presburger
  from fillParts_spec [of 0 l "[0..<n]" ?p1 ?p2] obtain q1 q2 where
    q: "fillParts l [0..<n] 0 ?p1 ?p2 = Inr (q1, q2)" "length q1 = n div 2 + 1" "length q2 = n div 2"
      "q1 @ q2 = ?fs @ drop (n - 1) (?p1 @ ?p2)"
    unfolding len n by auto
  have pos: "0 < n div 2" using assms(1,2) by (cases n) (auto elim: oddE)
  have lst: "length (drop (n - 1) (?p1 @ ?p2)) = 1" using n assms(3) by simp
  then obtain z where z: "drop (n - 1) (?p1 @ ?p2) = [z]" 
    by (metis One_nat_def length_0_conv length_Suc_conv)
  have "q2 \<noteq> []" using q(3) pos by auto
  then obtain q2' y where y: "q2 = q2' @ [y]" by (metis append_butlast_last_id)
  with q(4) z have fs: "q1 @ q2' = ?fs" by auto
  have "make_partition n l = Inr (q1, q2' @ [l])"
    using q(1) y by (simp add: make_partition_def upd_def)
  moreover have "q1 @ q2' @ [l] = ?fs @ [l]" using fs by simp
  ultimately show ?thesis using q(2,3) y by (intro exI [of _ q1] exI [of _ "q2' @ [l]"]) simp
qed

lemma partition_sides:
  assumes "odd n" and "n \<noteq> 1" and "l < n" and "table_ok n (st_endnames cfg)"
  shows "\<exists>p1 p2 net. make_partition n l = Inr (p1, p2) \<and> partition2 cfg p1 p2 = Inr (cfg\<lparr>st_net := net\<rparr>)
    \<and> distinct (p1 @ p2) \<and> set (p1 @ p2) = {..<n} \<and> l \<in> set p2 \<and> majority n \<le> length p1 \<and> length p2 < majority n
    \<and> links_of (st_endnames cfg) net = set p1 \<times> set p1 \<union> set p2 \<times> set p2"
proof -
  from make_partition_odd [OF assms(1-3)] obtain p1 p2 where p: "make_partition n l = Inr (p1, p2)"
    "p1 @ p2 = filter (\<lambda>i. i \<noteq> l) [0..<n] @ [l]" "length p1 = n div 2 + 1" "length p2 = n div 2" by blast
  have d: "distinct (p1 @ p2)" unfolding p(2) by simp
  have s: "set (p1 @ p2) = {..<n}" unfolding p(2) using assms(3) by auto
  have ne: "p2 \<noteq> []" using p(4) assms(1,2) by (cases n) (auto elim: oddE)
  then have l: "l \<in> set p2" using p(2) by (metis last_appendR last_in_set last_snoc)
  have sub: "set p1 \<subseteq> {..<n}" "set p2 \<subseteq> {..<n}" "set p1 \<inter> set p2 = {}" "length p1 \<le> n" "length p2 \<le> n"
    using s d p(3,4) assms(3) ne by auto
  from partition2_links [OF assms(4) sub] obtain net where net: "partition2 cfg p1 p2 = Inr (cfg\<lparr>st_net := net\<rparr>)"
    "links_of (st_endnames cfg) net =
       links_of (st_endnames cfg) (st_net cfg) - (set p1 \<times> set p2 \<union> set p2 \<times> set p1) \<union> (set p1 \<times> set p1 \<union> set p2 \<times> set p2)" by blast
  have "links_of (st_endnames cfg) (st_net cfg) \<subseteq> {..<n} \<times> {..<n}"
    using table_names(3) [OF assms(4)] by (auto simp: links_of_def)
  then have "links_of (st_endnames cfg) net = set p1 \<times> set p1 \<union> set p2 \<times> set p2"
    unfolding net(2) using s by auto
  moreover have "majority n \<le> length p1" "length p2 < majority n" using assms(1) by (auto simp: majority_def p(3,4) elim: oddE)
  ultimately show ?thesis using p(1) net(1) d s l by blast
qed

text \<open>
  A partition by the harness isolates the leader.  With an odd number of servers, at least three,
  \<open>make_partition\<close> splits them into a majority and a minority that contains the leader, and after
  \<open>partition\<close> two servers are linked exactly if they are on the same side.
\<close>
theorem partition_isolates_leader:
  assumes "odd n" and "n \<noteq> 1" and "l < n" and "table_ok n (st_endnames cfg)"
  shows "\<exists>p1 p2 net. make_partition n l = Inr (p1, p2) \<and> partition2 cfg p1 p2 = Inr (cfg\<lparr>st_net := net\<rparr>)
    \<and> distinct (p1 @ p2) \<and> set (p1 @ p2) = {..<n} \<and> l \<in> set p2 \<and> majority n \<le> length p1
    \<and> links_of (st_endnames cfg) net = set p1 \<times> set p1 \<union> set p2 \<times> set p2"
  using partition_sides [OF assms] by blast

text \<open>With an even number of servers the slice of the minority has a place too many, which stays 0.\<close>

lemma even_partition_overlaps: "make_partition 4 2 = Inr ([0, 1, 3], [0, 2])"
  by code_simp

definition three_names :: "nat list option list" where
  "three_names = map (\<lambda>i. Some [3 * i, 3 * i + 1, 3 * i + 2]) [0..<3]"

definition three_servers :: "(nat, unit, unit, unit, KVCommand, KVServer) sconfig" where
  "three_servers = (emptySConfig 3 (- 1))\<lparr>st_endnames := three_names\<rparr>"

lemma three_names_ok: "table_ok 3 (st_endnames three_servers)"
proof -
  have at: "name_at three_names i j = Some e \<longleftrightarrow> i < 3 \<and> j < 3 \<and> e = 3 * i + j" for i j e
    by (auto simp: name_at_def three_names_def less_Suc_eq numeral_3_eq_3)
  have "i = k \<and> j = l" if "name_at three_names i j = Some e" "name_at three_names k l = Some e" for i j k l e
    using that unfolding at by presburger
  then show ?thesis by (auto simp: table_ok_def three_servers_def) (simp_all add: three_names_def)
qed

theorem partition_isolates_leader_witness:
  "\<exists>p1 p2 net. make_partition 3 0 = Inr (p1, p2) \<and> partition2 three_servers p1 p2 = Inr (three_servers\<lparr>st_net := net\<rparr>)
     \<and> 0 \<in> set p2 \<and> 2 \<le> length p1 \<and> links_of three_names net = set p1 \<times> set p1 \<union> set p2 \<times> set p2"
proof -
  have "odd (3 :: nat)" "(3 :: nat) \<noteq> 1" "0 < (3 :: nat)" by simp_all
  from partition_isolates_leader [OF this three_names_ok] show ?thesis
    by (auto simp: three_servers_def majority_def)
qed

subsection \<open>Handles\<close>

text \<open>The handles of a clerk are its end points, each once.\<close>

lemma random_handles_perm: "mset (random_handles rnd kvh) = mset kvh"
proof -
  let ?f = "\<lambda>i sa. let j = rnd i mod (i + 1) in sa[i := sa ! j, j := sa ! i]"
  have "mset (fold ?f is sa) = mset sa \<and> length (fold ?f is sa) = length sa" if "\<forall>i \<in> set is. i < length sa" for "is" and sa :: "'a list"
    using that
  proof (induction "is" arbitrary: sa)
    case (Cons i "is")
    let ?j = "rnd i mod (i + 1)"
    have i: "i < length sa" using Cons.prems by simp
    have "?j < i + 1" by simp
    then have j: "?j < length sa" using i by linarith
    have "mset (?f i sa) = mset sa" using mset_swap [OF j i] by (simp add: Let_def)
    moreover have "length (?f i sa) = length sa" by (simp add: Let_def)
    ultimately show ?case using Cons.IH [of "?f i sa"] Cons.prems by simp
  qed simp
  from this [of "[0..<length kvh]" kvh] show ?thesis by (simp add: random_handles_def)
qed

lemma makeClient_handles:
  assumes "makeClient cfg ck endnames rnd tos = Inr (cfg', handles)"
  shows "mset handles = mset endnames" and "mget0 [] (st_clerks cfg') ck = endnames"
    and "enabled (st_net cfg') e \<longleftrightarrow> enabled (st_net cfg) e \<and> e \<notin> set endnames \<or> (\<exists>j \<in> set tos. j < length endnames \<and> e = endnames ! j)"
proof -
  from assms obtain net1 net2 where 1: "makeEnds (st_net cfg) endnames = Inr net1"
    and 2: "switchEnds (\<lambda>_. Inr True) (idx endnames) True net1 tos = Inr net2"
    and cfg': "cfg' = cfg\<lparr>st_net := net2, st_clerks := mput ck endnames (st_clerks cfg), st_nextClientId := st_nextClientId cfg + 1\<rparr>"
    and h: "handles = random_handles rnd endnames"
    by (auto simp: makeClient_def on_net_def ConnectClientUnlocked_def switchClient_def Let_def)
  show "mset handles = mset endnames" by (simp add: h random_handles_perm)
  show "mget0 [] (st_clerks cfg') ck = endnames" by (simp add: cfg')
  show "enabled (st_net cfg') e \<longleftrightarrow> enabled (st_net cfg) e \<and> e \<notin> set endnames \<or> (\<exists>j \<in> set tos. j < length endnames \<and> e = endnames ! j)"
    using switchEnds_Inr(2) [OF 2, of e] makeEnds_Inr [OF 1] by (auto simp: cfg' ends_made_def idx_iff)
qed

subsection \<open>Restarting a service\<close>

lemma disconnectFrom_frame:
  assumes "disconnectFrom cfg i ts = Inr cfg'"
  shows "st_servers cfg' = st_servers cfg" "st_saved cfg' = st_saved cfg" "st_n cfg' = st_n cfg" "savedBy rf cfg' i = savedBy rf cfg i"
  using assms by (auto simp: disconnectFrom_def on_net_def savedBy_def split: option.splits)

text \<open>Shutting a server down and starting it again gives \<open>start\<close> a copy of what it had stored.\<close>

lemma shutdown_start:
  assumes "ShutdownServer rf_of cfg i = Inr cfg1" and "StartServerWith start rf_of cfg1 i names kvsvc rfsvc = Inr cfg2"
    and "st_servers cfg ! i = Some kv"
  shows "\<exists>kv'. start (st_n cfg) (int i) (Copy (op_persister (rf_of kv))) = Inr kv' \<and> st_servers cfg2 = (st_servers cfg)[i := Some kv']"
proof -
  from assms(1) obtain cfg0 where d: "disconnectFrom cfg i (All cfg) = Inr cfg0" "i < length (st_saved cfg0)"
    and cfg1: "cfg1 = cfg0\<lparr>st_net := DeleteServer (st_net cfg0) i, st_saved := (st_saved cfg0)[i := map_option Copy (savedBy rf_of cfg0 i)],
      st_servers := (st_servers cfg0)[i := None]\<rparr>" "i < length (st_servers cfg0)"
    by (auto simp: ShutdownServer_def upd_iff)
  note f = disconnectFrom_frame [OF d(1)]
  have "savedBy rf_of cfg1 i = Some (Copy (op_persister (rf_of kv)))"
    using assms(3) cfg1(2) d(2) f(4) [of rf_of] by (simp add: savedBy_def cfg1(1) f)
  then show ?thesis
    using assms(2) f by (auto simp: StartServerWith_def Let_def upd_iff from_go_iff cfg1(1))
qed

text \<open>What the channel of a server started from this log delivers.\<close>

definition replay :: "'c OmniPaxos \<Rightarrow> 'c ApplyMsg list" where
  "replay op = map (\<lambda>i. \<lparr>CommandValid = True, Command = oplog op ! nat i, CommandIndex = i\<rparr>) [0..decidedIdx op - 1]"


text \<open>A server with one decided write in its storage.\<close>

definition stored_state :: "KVCommand OmniPaxosState" where
  "stored_state = zero_os\<lparr>os_Log := [\<lparr>kc_Id = 0, kc_Command = PutAppendArgs ''k'' ''x'' ''Append'' ''7#1''\<rparr>], os_DecidedIdx := 1\<rparr>"

definition stored_server :: KVServer where
  "stored_server = kv_example\<lparr>kv_rf := freshServer 3 0 (SaveOmnipaxosState MakePersister (toBytes stored_state)) stored_state\<rparr>"

definition up_servers :: "(nat, unit, unit, unit, KVCommand, KVServer) sconfig" where
  "up_servers = three_servers\<lparr>st_servers := [Some stored_server, None, None]\<rparr>"

definition idle_service :: "(unit, unit, unit) Service" where
  "idle_service = \<lparr>svc_name = ''S'', svc_methods = []\<rparr>"

lemma up_servers_restart:
  "(case res_bind (KVShutdownServer up_servers 0) (\<lambda>c. KVStartServer c 0 [9, 10, 11] idle_service idle_service) of
      Inl _ \<Rightarrow> False | Inr _ \<Rightarrow> True)"
  by code_simp


end
