(* ===== verification/ServiceTesting.thy ===== *)
theory ServiceTesting
  imports Partitions
begin

text \<open>
  Making a configuration of a service.  Both harnesses of \<open>ServiceTester\<close> start their servers by the same
  loop; what that loop needs of a service is the locale \<open>service\<close>, which the key-value server and the
  shard controller interpret.  The configuration it makes has the full table of end points that
  \<open>Partitions\<close> asks for, so it can be partitioned.
\<close>

text \<open>The first \<open>k\<close> servers have been started.\<close>

definition up_to :: "(nat \<Rightarrow> int \<Rightarrow> 'c gob_msg Persister \<Rightarrow> 'srv go) \<Rightarrow> nat \<Rightarrow> (nat \<Rightarrow> 'e list) \<Rightarrow> nat \<Rightarrow> ('e, 'a, 'w, 'r, 'c, 'srv) sconfig \<Rightarrow> bool" where
  "up_to start n names k cfg \<longleftrightarrow> st_n cfg = n \<and> length (st_servers cfg) = n \<and> length (st_saved cfg) = n \<and> length (st_endnames cfg) = n
     \<and> (\<forall>i < k. st_endnames cfg ! i = Some (names i) \<and> (\<exists>srv. st_servers cfg ! i = Some srv \<and> start n (int i) MakePersister = Inr srv))
     \<and> (\<forall>i < n. k \<le> i \<longrightarrow> st_servers cfg ! i = None \<and> st_saved cfg ! i = None)
     \<and> (\<forall>e. map_of (rn_ends (st_net cfg)) e = None \<longleftrightarrow> (\<forall>j < k. e \<notin> set (names j)))"

locale service =
  fixes start :: "nat \<Rightarrow> int \<Rightarrow> 'c gob_msg Persister \<Rightarrow> 'srv go" and rf_of :: "'srv \<Rightarrow> 'c OmniPaxos"
  assumes start_fresh: "\<exists>srv. start n me MakePersister = Inr srv \<and> rf_of srv = freshServer n me MakePersister zero_os"
begin

lemma up_to_empty: "up_to start n names 0 (emptySConfig n mp)"
  by (simp add: up_to_def emptySConfig_def MakeNetwork_def)

lemma up_to_step:
  assumes "up_to start n names k cfg" and "k < n" and "\<forall>i < n. length (names i) = n" and "distinct (concat (map names [0..<n]))"
  shows "\<exists>cfg'. StartServerWith start rf_of cfg k (names k) kvsvc rfsvc = Inr cfg' \<and> up_to start n names (Suc k) cfg'"
proof -
  have sz: "st_n cfg = n" "length (st_servers cfg) = n" "length (st_saved cfg) = n" "length (st_endnames cfg) = n"
    and none: "st_servers cfg ! k = None" "st_saved cfg ! k = None"
    and ends: "\<And>e. map_of (rn_ends (st_net cfg)) e = None \<longleftrightarrow> (\<forall>j < k. e \<notin> set (names j))"
    using assms(1,2) by (auto simp: up_to_def)
  note new = distinct_block(1) [OF assms(4,2)]
  have "\<forall>e \<in> set (names k). map_of (rn_ends (st_net cfg)) e = None" using distinct_block(2) [OF assms(4,2)] ends by fastforce
  from makeEnds_total [OF new this] obtain net1 where m: "makeEnds (st_net cfg) (names k) = Inr net1" by blast
  obtain srv where srv: "start n (int k) MakePersister = Inr srv" using start_fresh by blast
  let ?cfg = "cfg\<lparr>st_endnames := (st_endnames cfg)[k := Some (names k)], st_saved := (st_saved cfg)[k := Some MakePersister],
    st_servers := (st_servers cfg)[k := Some srv], st_net := registerServices net1 k kvsvc rfsvc\<rparr>"
  have "StartServerWith start rf_of cfg k (names k) kvsvc rfsvc = Inr ?cfg"
    using assms(2) sz none m srv by (simp add: StartServerWith_def upd_def savedBy_def Let_def from_go_def)
  moreover have "map_of (rn_ends (st_net ?cfg)) e = None \<longleftrightarrow> (\<forall>j < Suc k. e \<notin> set (names j))" for e
    using makeEnds_Inr [OF m] ends by (auto simp: ends_made_def registerServices_def Let_def AddServer_def less_Suc_eq)
  then have "up_to start n names (Suc k) ?cfg"
    using assms(1,2) srv by (auto simp: up_to_def less_Suc_eq nth_list_update)
  ultimately show ?thesis by blast
qed

lemma up_to_table:
  assumes "up_to start n names n cfg" and "\<forall>i < n. length (names i) = n" and "distinct (concat (map names [0..<n]))"
  shows "table_ok n (st_endnames cfg)"
proof -
  have at: "name_at (st_endnames cfg) i j = (if i < n \<and> j < n then Some (names i ! j) else None)" for i j
    using assms(1,2) by (auto simp: name_at_def up_to_def)
  have "i = k \<and> j = l" if "i < n" "j < n" "k < n" "l < n" "names i ! j = names k ! l" for i j k l
    using distinct_blocks_nth [OF assms(3), of i k j l] assms(2) that by simp
  then show ?thesis using assms(1,2) by (auto simp: table_ok_def at up_to_def split: if_splits)
qed

text \<open>The whole of \<open>make_config\<close>.\<close>

lemma make_ready:
  assumes "\<forall>i < n. length (names i) = n" and "distinct (concat (map names [0..<n]))"
  shows "\<exists>cfg. makeWith (\<lambda>cfg i. StartServerWith start rf_of cfg i (names i) (kvsvc i) (rfsvc i)) n unreliable mp = Inr cfg
    \<and> st_n cfg = n \<and> table_ok n (st_endnames cfg) \<and> links_of (st_endnames cfg) (st_net cfg) = {..<n} \<times> {..<n}
    \<and> length (st_servers cfg) = n \<and> rn_reliable (st_net cfg) = (\<not> unreliable)
    \<and> (\<forall>i < n. \<exists>srv. st_servers cfg ! i = Some srv \<and> start n (int i) MakePersister = Inr srv)"
proof -
  let ?f = "\<lambda>cfg i. StartServerWith start rf_of cfg i (names i) (kvsvc i) (rfsvc i)"
  have "\<exists>t. go_foldM ?f (emptySConfig n mp) [0..<n] = Inr t \<and> up_to start n names n t"
    by (rule go_foldM_upto_total [where I = "up_to start n names", OF up_to_empty]) (rule up_to_step [OF _ _ assms])
  then obtain cfg where cfg: "go_foldM ?f (emptySConfig n mp) [0..<n] = Inr cfg" "up_to start n names n cfg" by blast
  have t: "table_ok n (st_endnames cfg)" by (rule up_to_table [OF cfg(2) assms])
  moreover have n: "st_n cfg = n" using cfg(2) by (simp add: up_to_def)
  ultimately obtain net where c: "ConnectAll cfg = Inr (cfg\<lparr>st_net := net\<rparr>)" "links_of (st_endnames cfg) net = {..<n} \<times> {..<n}"
    using ConnectAll_links [of cfg] by auto
  have "links_of (st_endnames cfg) (Reliable net yes) = links_of (st_endnames cfg) net" for yes
    by (simp add: links_of_def enabled_def Reliable_def)
  then show ?thesis
    using cfg c t n by (auto simp: makeWith_def up_to_def Reliable_def)
qed

end

interpretation kvs: service StartKVServer kv_rf
  by unfold_locales (simp add: StartKVServer_def Make_fresh)

interpretation cts: service StartCtrler sc_op
  by unfold_locales (simp add: StartCtrler_def Make_fresh)

text \<open>The same for the controller.\<close>

lemma ctrl_config_ready:
  assumes "\<forall>i < n. length (names i) = n" and "distinct (concat (map names [0..<n]))"
  shows "\<exists>cfg. make_ctrl_config n unreliable names kvsvc rfsvc = Inr cfg \<and> table_ok n (st_endnames cfg)
    \<and> links_of (st_endnames cfg) (st_net cfg) = {..<n} \<times> {..<n}
    \<and> (\<forall>i < n. \<exists>sc. st_servers cfg ! i = Some sc \<and> sc_op sc = freshServer n (int i) MakePersister zero_os \<and> sc_allConfs sc = [zero_config])"
  using cts.make_ready [OF assms, of kvsvc rfsvc unreliable 0]
  by (fastforce simp: make_ctrl_config_def CtrlStartServer_def StartCtrler_def Make_fresh)

text \<open>
  C36: the harness of the key-value service.  With different names for the end points \<open>make_config\<close> returns;
  its servers, with their empty stores, embed an initial cluster, every server is linked with every
  server, and whichever server \<open>l\<close> comes to lead, for an odd number of at least three servers a
  partition leaves it linked to a minority only.
\<close>
theorem kv_config_can_be_partitioned:
  assumes "\<forall>i < n. length (names i) = n" and "distinct (concat (map names [0..<n]))"
  shows "\<exists>cfg s. make_kv_config n unreliable mp names kvsvc rfsvc = Inr cfg \<and> cluster_init n s
    \<and> map (map_option kv_rf) (st_servers cfg) = map Some (cl_servers s)
    \<and> (\<forall>i < n. \<exists>kv. st_servers cfg ! i = Some kv \<and> kv_init kv)
    \<and> links_of (st_endnames cfg) (st_net cfg) = {..<n} \<times> {..<n}
    \<and> (odd n \<and> n \<noteq> 1 \<longrightarrow> (\<forall>l < n. \<exists>p1 p2 net. make_partition n l = Inr (p1, p2) \<and> partition2 cfg p1 p2 = Inr (cfg\<lparr>st_net := net\<rparr>)
          \<and> l \<in> set p2 \<and> length p2 < majority n \<and> links_of (st_endnames cfg) net `` {l} = set p2))"
proof -
  from kvs.make_ready [OF assms, of kvsvc rfsvc unreliable mp] obtain cfg where
    mk: "make_kv_config n unreliable mp names kvsvc rfsvc = Inr cfg"
    and tb: "table_ok n (st_endnames cfg)" "links_of (st_endnames cfg) (st_net cfg) = {..<n} \<times> {..<n}" "length (st_servers cfg) = n"
    and sv: "\<And>i. i < n \<Longrightarrow> \<exists>kv. st_servers cfg ! i = Some kv \<and> StartKVServer n (int i) MakePersister = Inr kv"
    by (auto simp: make_kv_config_def KVStartServer_def)
  have "map_option kv_rf (st_servers cfg ! i) = Some (freshServer n (int i) MakePersister zero_os)" if "i < n" for i
    using sv [OF that] by (auto simp: StartKVServer_def Make_fresh)
  then have "map (map_option kv_rf) (st_servers cfg) = map Some (cl_servers (initial n))"
    using tb(3) by (intro nth_equalityI) (auto simp: initial_def)
  moreover have "\<exists>kv. st_servers cfg ! i = Some kv \<and> kv_init kv" if "i < n" for i
    using sv [OF that] StartKVServer_init by blast
  moreover have "\<exists>p1 p2 net. make_partition n l = Inr (p1, p2) \<and> partition2 cfg p1 p2 = Inr (cfg\<lparr>st_net := net\<rparr>)
          \<and> l \<in> set p2 \<and> length p2 < majority n \<and> links_of (st_endnames cfg) net `` {l} = set p2" if "odd n" "n \<noteq> 1" "l < n" for l
  proof -
    from partition_sides [OF that tb(1)] obtain p1 p2 net where p: "make_partition n l = Inr (p1, p2)" "partition2 cfg p1 p2 = Inr (cfg\<lparr>st_net := net\<rparr>)"
      "distinct (p1 @ p2)" "l \<in> set p2" "length p2 < majority n" "links_of (st_endnames cfg) net = set p1 \<times> set p1 \<union> set p2 \<times> set p2" by blast
    then have "links_of (st_endnames cfg) net `` {l} = set p2" by auto
    with p show ?thesis by blast
  qed
  ultimately show ?thesis
    by (intro exI [of _ cfg] exI [of _ "initial n"] conjI impI allI mk tb(2) initial_init) auto
qed

definition square_names :: "nat \<Rightarrow> nat list" where
  "square_names i = [3 * i, 3 * i + 1, 3 * i + 2]"

theorem kv_config_can_be_partitioned_witness:
  "\<exists>cfg p1 p2 net. make_kv_config 3 False (- 1) square_names (\<lambda>_. idle_service) (\<lambda>_. idle_service) = Inr cfg
     \<and> make_partition 3 1 = Inr (p1, p2) \<and> partition2 cfg p1 p2 = Inr (cfg\<lparr>st_net := net\<rparr>) \<and> 1 \<in> set p2 \<and> length p2 < 2
     \<and> links_of (st_endnames cfg) net `` {1} = set p2"
proof -
  have "\<forall>i < 3. length (square_names i) = 3" "distinct (concat (map square_names [0..<3]))" by (simp add: square_names_def) code_simp
  from kv_config_can_be_partitioned [OF this, of False "- 1" "\<lambda>_. idle_service" "\<lambda>_. idle_service"] obtain cfg
    where mk: "make_kv_config 3 False (- 1) square_names (\<lambda>_. idle_service) (\<lambda>_. idle_service) = Inr cfg"
      and p: "\<forall>l < 3. \<exists>p1 p2 net. make_partition 3 l = Inr (p1, p2) \<and> partition2 cfg p1 p2 = Inr (cfg\<lparr>st_net := net\<rparr>)
          \<and> l \<in> set p2 \<and> length p2 < majority 3 \<and> links_of (st_endnames cfg) net `` {l} = set p2" by auto
  from p [rule_format, of 1] mk show ?thesis by (auto simp: majority_def)
qed

end
