(* ===== verification/CtrlTesting.thy ===== *)
theory CtrlTesting
  imports ServiceTesting
begin

text \<open>
  The harness of the shard controller (\<open>a3b-sharding/shardctrler/config.go\<close>).  Its connections, partitions and
  clerks are those of \<open>ServiceTester\<close> at the type of its servers; the theorems follow a controller
  cluster from \<open>make_config\<close> through a partition and give a clerk its connections.
\<close>

type_synonym ('e, 'a, 'w, 'r) ctrl_config = "('e, 'a, 'w, 'r, ControllerCommand, ShardCtrler) sconfig"

definition ctrlConnect :: "('e, 'a, 'w, 'r) ctrl_config \<Rightarrow> nat \<Rightarrow> nat list \<Rightarrow> tester_stop + ('e, 'a, 'w, 'r) ctrl_config" where
  "ctrlConnect = connectTo"

definition ctrlDisconnect :: "('e, 'a, 'w, 'r) ctrl_config \<Rightarrow> nat \<Rightarrow> nat list \<Rightarrow> tester_stop + ('e, 'a, 'w, 'r) ctrl_config" where
  "ctrlDisconnect = disconnectFrom"

definition ctrlAll :: "('e, 'a, 'w, 'r) ctrl_config \<Rightarrow> nat list" where
  "ctrlAll = All"

definition ctrlConnectAll :: "('e, 'a, 'w, 'r) ctrl_config \<Rightarrow> tester_stop + ('e, 'a, 'w, 'r) ctrl_config" where
  "ctrlConnectAll = ConnectAll"

definition ctrlPartition :: "('e, 'a, 'w, 'r) ctrl_config \<Rightarrow> nat list \<Rightarrow> nat list
    \<Rightarrow> tester_stop + ('e, 'a, 'w, 'r) ctrl_config" where
  "ctrlPartition = partition2"

definition ctrlMakeClient :: "('e, 'a, 'w, 'r) ctrl_config \<Rightarrow> nat \<Rightarrow> 'e list \<Rightarrow> (nat \<Rightarrow> nat) \<Rightarrow> nat list
    \<Rightarrow> tester_stop + (('e, 'a, 'w, 'r) ctrl_config \<times> 'e list)" where
  "ctrlMakeClient = makeClient"

definition ctrlDeleteClient :: "('e, 'a, 'w, 'r) ctrl_config \<Rightarrow> nat \<Rightarrow> ('e, 'a, 'w, 'r) ctrl_config" where
  "ctrlDeleteClient = deleteClient"

definition ctrlConnectClient :: "('e, 'a, 'w, 'r) ctrl_config \<Rightarrow> nat \<Rightarrow> nat list \<Rightarrow> tester_stop + ('e, 'a, 'w, 'r) ctrl_config" where
  "ctrlConnectClient = ConnectClientUnlocked"

definition ctrlDisconnectClient :: "('e, 'a, 'w, 'r) ctrl_config \<Rightarrow> nat \<Rightarrow> nat list \<Rightarrow> tester_stop + ('e, 'a, 'w, 'r) ctrl_config" where
  "ctrlDisconnectClient = DisconnectClientUnlocked"

lemma ctrlLeader_range: "snd (ctrlLeader scs i) < i + length scs \<or> snd (ctrlLeader scs i) = 0"
  by (induction scs i rule: ctrlLeader.induct) auto

lemma ctrlLeader_leads:
  "fst (ctrlLeader scs i) \<Longrightarrow> \<exists>k sc. snd (ctrlLeader scs i) = i + k \<and> k < length scs \<and> scs ! k = Some sc \<and> snd (GetState (sc_op sc))"
proof (induction scs i rule: ctrlLeader.induct)
  case (2 scs i)
  then obtain k sc where "snd (ctrlLeader scs (i + 1)) = i + 1 + k" "k < length scs" "scs ! k = Some sc" "snd (GetState (sc_op sc))"
    by auto
  then show ?case by (intro exI [of _ "Suc k"] exI [of _ sc]) simp
next
  case (3 sc scs i)
  show ?case
  proof (cases "snd (GetState (sc_op sc))")
    case False
    with 3 obtain k sc' where "snd (ctrlLeader scs (i + 1)) = i + 1 + k" "k < length scs" "scs ! k = Some sc'" "snd (GetState (sc_op sc'))"
      by auto
    with False show ?thesis by (intro exI [of _ "Suc k"] exI [of _ sc']) simp
  qed auto
qed simp

text \<open>
  The harness of the controller cuts its leader off.  After \<open>make_config\<close> every controller is linked with every
  controller; whatever state the controllers have come to, for an odd number of at least three of
  them \<open>make_partition\<close> and \<open>partition\<close> leave the leader linked to a minority only, the other side is a
  majority, and \<open>ConnectAll\<close> links all of them again.
\<close>

theorem ctrl_config_can_be_partitioned:
  assumes "\<forall>i < n. length (names i) = n" and "distinct (concat (map names [0..<n]))" and "odd n" and "n \<noteq> 1"
    and "make_ctrl_config n unreliable names kvsvc rfsvc = Inr cfg" and "length scs = n"
    and "cfg1 = cfg\<lparr>st_servers := scs\<rparr>" and "ctrlLeader scs 0 = (found, l)"
  shows "\<exists>p1 p2 cfg2 cfg3. ctrl_make_partition cfg1 = Inr (p1, p2) \<and> ctrlPartition cfg1 p1 p2 = Inr cfg2
    \<and> links_of (st_endnames cfg2) (st_net cfg2) `` {l} = set p2 \<and> length p2 < majority n \<and> majority n \<le> length p1
    \<and> (found \<longrightarrow> (\<exists>sc. scs ! l = Some sc \<and> snd (GetState (sc_op sc))))
    \<and> ctrlConnectAll cfg2 = Inr cfg3 \<and> links_of (st_endnames cfg3) (st_net cfg3) = {..<n} \<times> {..<n}"
proof -
  from cts.make_ready [OF assms(1,2), of kvsvc rfsvc unreliable 0] assms(5)
  have cfg: "st_n cfg = n" "table_ok n (st_endnames cfg)"
    by (auto simp: make_ctrl_config_def CtrlStartServer_def)
  have n: "0 < n" using assms(3) by (cases n) auto
  have l: "l < n" using ctrlLeader_range [of scs 0] n by (auto simp: assms(6,8))
  have "table_ok n (st_endnames cfg1)" using cfg by (simp add: assms(7))
  from partition_sides [OF assms(3,4) l this] obtain p1 p2 net where
    p: "make_partition n l = Inr (p1, p2)" "partition2 cfg1 p1 p2 = Inr (cfg1\<lparr>st_net := net\<rparr>)"
    "distinct (p1 @ p2)" "l \<in> set p2" "majority n \<le> length p1" "length p2 < majority n"
    "links_of (st_endnames cfg1) net = set p1 \<times> set p1 \<union> set p2 \<times> set p2" by blast
  have "links_of (st_endnames cfg1) net `` {l} = set p2" using p(3,4,7) by auto
  moreover have "ctrl_make_partition cfg1 = Inr (p1, p2)" using p(1) cfg(1) by (simp add: ctrl_make_partition_def assms(7,8))
  moreover obtain net' where "ConnectAll (cfg1\<lparr>st_net := net\<rparr>) = Inr (cfg1\<lparr>st_net := net'\<rparr>)"
    "links_of (st_endnames cfg1) net' = {..<n} \<times> {..<n}"
    using ConnectAll_links [of "cfg1\<lparr>st_net := net\<rparr>"] cfg by (auto simp: assms(7))
  moreover have "\<exists>sc. scs ! l = Some sc \<and> snd (GetState (sc_op sc))" if found
    using ctrlLeader_leads [of scs 0] that by (auto simp: assms(8))
  ultimately show ?thesis using p(2,5,6)
    by (intro exI [of _ p1] exI [of _ p2] exI [of _ "cfg1\<lparr>st_net := net\<rparr>"] exI [of _ "cfg1\<lparr>st_net := net'\<rparr>"])
      (simp add: ctrlPartition_def ctrlConnectAll_def)
qed

text \<open>
  A new clerk reaches exactly the controllers it was connected to, and disconnecting takes
  exactly those end points away again.
\<close>

lemma ctrl_clerk_ends:
  assumes "ctrlMakeClient cfg ck endnames rnd tos = Inr (cfg1, handles)" and "distinct endnames"
    and "ctrlDisconnectClient cfg1 ck from = Inr cfg2" and "j < length endnames"
  shows "enabled (st_net cfg1) (endnames ! j) \<longleftrightarrow> j \<in> set tos"
    and "enabled (st_net cfg2) (endnames ! j) \<longleftrightarrow> j \<in> set tos \<and> j \<notin> set from"
proof -
  note mk = makeClient_handles [OF assms(1) [unfolded ctrlMakeClient_def]]
  show 1: "enabled (st_net cfg1) (endnames ! j) \<longleftrightarrow> j \<in> set tos"
    using mk(3) [of "endnames ! j"] assms(2,4) by (auto simp: nth_eq_iff_index_eq)
  from assms(3) obtain net where "switchEnds (\<lambda>_. Inr True) (idx endnames) False (st_net cfg1) from = Inr net" "st_net cfg2 = net"
    by (auto simp: ctrlDisconnectClient_def DisconnectClientUnlocked_def switchClient_def Let_def on_net_def mk(2))
  from switchEnds_Inr(2) [OF this(1), of "endnames ! j"] this(2) 1 assms(2,4)
  show "enabled (st_net cfg2) (endnames ! j) \<longleftrightarrow> j \<in> set tos \<and> j \<notin> set from"
    by (auto simp: idx_iff nth_eq_iff_index_eq)
qed

end
