(* ===== verification/Names.thy ===== *)
theory Names
  imports CtrlTesting "HOL-Library.Word"
begin

text \<open>
  The helpers the harnesses share (\<open>config.go\<close> of \<open>a2-omnipaxos\<close>, of \<open>a3-kvpaxos\<close> and of \<open>a3b-sharding\<close>): random
  names for end points, random seeds, the limit on the duration of a test and the report at its
  end.  The bytes \<open>crypto/rand\<close> delivers, the number it draws, the failed flag of the test and the time that has
  passed are arguments.

  The theorems about the harnesses assume that end points get different names; the theorem of
  this theory says what that asks of the random source.
\<close>

subsection \<open>Random names\<close>

text \<open>\<open>base64.URLEncoding\<close>: three bytes are four digits of six bits, with padding at the end.\<close>

definition b64_alphabet :: string where
  "b64_alphabet = ''ABCDEFGHIJKLMNOPQRSTUVWXYZabcdefghijklmnopqrstuvwxyz0123456789-_''"

definition b64_char :: "nat \<Rightarrow> char" where
  "b64_char d = b64_alphabet ! d"

fun EncodeToString :: "8 word list \<Rightarrow> string" where
  "EncodeToString (a # b # c # bs) =
     map b64_char [unat a div 4, unat a mod 4 * 16 + unat b div 16, unat b mod 16 * 4 + unat c div 64, unat c mod 64]
       @ EncodeToString bs"
| "EncodeToString [a, b] =
     map b64_char [unat a div 4, unat a mod 4 * 16 + unat b div 16, unat b mod 16 * 4] @ ''=''"
| "EncodeToString [a] = map b64_char [unat a div 4, unat a mod 4 * 16] @ ''==''"
| "EncodeToString [] = []"

definition randstring :: "nat \<Rightarrow> 8 word list \<Rightarrow> string go" where
  "randstring n b = go_upto (EncodeToString b) (int n)"

text \<open>\<open>x\<close> is the number drawn below \<open>2 ^ 62\<close>.\<close>

definition makeSeed :: "nat \<Rightarrow> int" where
  "makeSeed x = sint (word_of_nat x :: 64 word)"

definition nrand :: "nat \<Rightarrow> int" where
  "nrand x = sint (word_of_nat x :: 64 word)"

subsection \<open>Duration and report of a test\<close>

text \<open>Durations are in nanoseconds.\<close>

definition checkTimeout :: "bool \<Rightarrow> int \<Rightarrow> tester_stop + unit" where
  "checkTimeout failed elapsed = (if \<not> failed \<and> elapsed > 120 * 1000000000 then Inl TFail else Inr ())"

record report =
  rp_npeers :: nat
  rp_nrpc :: int
  rp_nbytes :: int
  rp_ncmds :: int

definition endTest :: "bool \<Rightarrow> int \<Rightarrow> ('e, 'a, 'w, 'r, 'c) config \<Rightarrow> tester_stop + report option" where
  "endTest failed elapsed cfg =
     res_bind (checkTimeout failed elapsed) (\<lambda>_.
       Inr (if failed = False
            then Some \<lparr>rp_npeers = tc_n cfg, rp_nrpc = rpcTotal cfg - tc_rpcs0 cfg,
                       rp_nbytes = bytesTotal cfg - tc_bytes0 cfg, rp_ncmds = tc_maxIndex cfg - tc_maxIndex0 cfg\<rparr>
            else None))"

definition kvCheckTimeout :: "bool \<Rightarrow> int \<Rightarrow> tester_stop + unit" where
  "kvCheckTimeout failed elapsed = (if \<not> failed \<and> elapsed > 120 * 1000000000 then Inl TFail else Inr ())"

definition ctrlCheckTimeout :: "bool \<Rightarrow> int \<Rightarrow> tester_stop + unit" where
  "ctrlCheckTimeout failed elapsed = (if \<not> failed \<and> elapsed > 120 * 1000000000 then Inl TFail else Inr ())"

definition shardCheckTimeout :: "bool \<Rightarrow> int \<Rightarrow> tester_stop + unit" where
  "shardCheckTimeout failed elapsed = (if \<not> failed \<and> elapsed > 120 * 1000000000 then Inl TFail else Inr ())"

record kv_report =
  kr_npeers :: nat
  kr_nrpc :: int
  kr_ops :: "32 word"

definition kvEnd :: "bool \<Rightarrow> int \<Rightarrow> ('e, 'a, 'w, 'r, 'c, 'srv) sconfig \<Rightarrow> tester_stop + kv_report option" where
  "kvEnd failed elapsed cfg =
     res_bind (kvCheckTimeout failed elapsed) (\<lambda>_.
       Inr (if failed = False
            then Some \<lparr>kr_npeers = st_n cfg, kr_nrpc = srpcTotal cfg - st_rpcs0 cfg, kr_ops = st_ops cfg\<rparr> else None))"

subsection \<open>What the names depend on\<close>

lemma b64_inj: "d < 64 \<Longrightarrow> e < 64 \<Longrightarrow> b64_char d = b64_char e \<longleftrightarrow> d = e"
proof -
  have "distinct b64_alphabet" "length b64_alphabet = 64" by code_simp+
  then show "d < 64 \<Longrightarrow> e < 64 \<Longrightarrow> b64_char d = b64_char e \<longleftrightarrow> d = e"
    by (simp add: b64_char_def nth_eq_iff_index_eq)
qed

lemma byte_lt: "unat (a :: 8 word) < 256"
  by (rule order_less_le_trans [OF unsigned_less]) simp

lemma digit_split:
  assumes "x * m + y = x' * m + (y' :: nat)" and "y < m" and "y' < m"
  shows "x = x' \<and> y = y'"
proof -
  have "(x * m + y) div m = x" "(x' * m + y') div m = x'" using assms(2,3) by simp_all
  with assms(1) show ?thesis by auto
qed

text \<open>Four digits determine three bytes.\<close>

lemma digits_inj:
  fixes a b c a' b' c' :: "8 word"
  assumes "unat a div 4 = unat a' div 4" and "unat a mod 4 * 16 + unat b div 16 = unat a' mod 4 * 16 + unat b' div 16"
    and "unat b mod 16 * 4 + unat c div 64 = unat b' mod 16 * 4 + unat c' div 64" and "unat c mod 64 = unat c' mod 64"
  shows "a = a' \<and> b = b' \<and> c = c'"
proof -
  have "unat b div 16 < 16" "unat b' div 16 < 16" "unat c div 64 < 4" "unat c' div 64 < 4"
    using byte_lt [of b] byte_lt [of b'] byte_lt [of c] byte_lt [of c'] by auto
  with digit_split [OF assms(2)] digit_split [OF assms(3)]
  have "unat a mod 4 = unat a' mod 4" "unat b div 16 = unat b' div 16" "unat b mod 16 = unat b' mod 16"
    "unat c div 64 = unat c' div 64" by simp_all
  with assms have "unat a = unat a'" "unat b = unat b'" "unat c = unat c'" by (metis div_mod_decomp)+
  then show ?thesis by (simp add: word_unat_eq_iff)
qed

lemma EncodeToString_length: "length bs \<le> length (EncodeToString bs)"
  by (induction bs rule: EncodeToString.induct) auto

lemma EncodeToString_prefix:
  assumes "3 * k \<le> length bs" and "3 * k \<le> length bs'"
  shows "take (4 * k) (EncodeToString bs) = take (4 * k) (EncodeToString bs') \<longleftrightarrow> take (3 * k) bs = take (3 * k) bs'"
  using assms
proof (induction k arbitrary: bs bs')
  case (Suc k)
  obtain a b c cs where bs: "bs = a # b # c # cs" "3 * k \<le> length cs" using Suc.prems(1)
    by (cases bs; cases "tl bs"; cases "tl (tl bs)") auto
  obtain a' b' c' cs' where bs': "bs' = a' # b' # c' # cs'" "3 * k \<le> length cs'" using Suc.prems(2)
    by (cases bs'; cases "tl bs'"; cases "tl (tl bs')") auto
  have lt: "unat x div 4 < 64" "unat x mod 4 * 16 + unat y div 16 < 64" "unat y mod 16 * 4 + unat z div 64 < 64"
    "unat z mod 64 < 64" for x y z :: "8 word"
    using byte_lt [of x] byte_lt [of y] byte_lt [of z] by auto
  have four: "4 * Suc k = Suc (Suc (Suc (Suc (4 * k))))" "3 * Suc k = Suc (Suc (Suc (3 * k)))" by simp_all
  show ?case
    using Suc.IH [OF bs(2) bs'(2)] digits_inj [of a a' b b' c c'] unfolding four
    by (auto simp: bs(1) bs'(1) b64_inj [OF lt(1) lt(1)] b64_inj [OF lt(2) lt(2)] b64_inj [OF lt(3) lt(3)] b64_inj [OF lt(4) lt(4)])
qed simp

text \<open>
  The names of the harnesses.  \<open>randstring\<close> never panics and returns the number of characters asked
  for; for a multiple of four characters, as in every call, two names are equal exactly when the
  first three quarters as many random bytes are: for the twenty characters of an end point, when
  fifteen random bytes coincide.
\<close>

theorem randstring_collides_iff:
  assumes "length b = 2 * n" and "length b' = 2 * n" and "n = 4 * k"
  shows "\<exists>s s'. randstring n b = Inr s \<and> randstring n b' = Inr s' \<and> length s = n
    \<and> (s = s' \<longleftrightarrow> take (3 * k) b = take (3 * k) b')"
proof -
  have "n \<le> length (EncodeToString b)" "n \<le> length (EncodeToString b')"
    using EncodeToString_length [of b] EncodeToString_length [of b'] assms by linarith+
  moreover have "take n (EncodeToString b) = take n (EncodeToString b') \<longleftrightarrow> take (3 * k) b = take (3 * k) b'"
    using EncodeToString_prefix [of k b b'] assms by simp
  ultimately show ?thesis by (simp add: randstring_def go_upto_def)
qed

theorem randstring_collides_iff_witness:
  "\<exists>s s'. randstring 4 [0, 0, 0, 0, 0, 0, 0, 1] = Inr s \<and> randstring 4 [0, 0, 1, 0, 0, 0, 0, 1] = Inr s' \<and> s \<noteq> s'"
  using randstring_collides_iff [of "[0, 0, 0, 0, 0, 0, 0, 1]" 4 "[0, 0, 1, 0, 0, 0, 0, 1]" 1] by (auto simp: numeral_3_eq_3)

text \<open>A seed is the number drawn, without wrapping around.\<close>

lemma seed_nonneg: "x < 2 ^ 62 \<Longrightarrow> makeSeed x = int x \<and> nrand x = int x"
  by (simp add: makeSeed_def nrand_def signed_of_nat signed_take_bit_int_eq_self)

text \<open>A test that has begun reports only what happens after \<open>begin\<close>.\<close>

lemma endTest_after_begin:
  assumes "cfg' = (beginTest cfg)\<lparr>tc_net := net, tc_maxIndex := m\<rparr>" and "elapsed \<le> 120 * 1000000000"
  shows "endTest False elapsed cfg' = Inr (Some \<lparr>rp_npeers = tc_n cfg, rp_nrpc = GetTotalCount net - GetTotalCount (tc_net cfg),
    rp_nbytes = GetTotalBytes net - GetTotalBytes (tc_net cfg), rp_ncmds = m - tc_maxIndex cfg\<rparr>)"
  using assms by (simp add: endTest_def checkTimeout_def beginTest_def rpcTotal_def bytesTotal_def)

end
