(* ===== verification/ShardKV.thy ===== *)
theory ShardKV
  imports ShardCtrler
begin

text \<open>
  One server of the sharded key-value service \<open>a3b-sharding/shardkv\<close>: the replicated operations
  (\<open>apply.go\<close>), the RPC handlers (\<open>server.go\<close>), following the controller and fetching shards
  (\<open>reconf.go\<close>), the messages (\<open>common.go\<close>) and the clerk (\<open>client.go\<close>).

  The channel of an index is the list of the results waiting in it (capacity 1).  \<open>propose\<close> is
  split where it waits: \<open>proposeOp\<close> up to the creation of the channel, \<open>awaitResult\<close> when the
  channel delivers, \<open>awaitTimeout\<close> when the timer does.  The goroutines \<open>applyChange\<close> starts are
  returned as pairs of a group and a shard; \<open>deleteRequest\<close> is the call one of them makes, read
  off the state it finds when it runs.  \<open>getChangeOp\<close> reads its own \<open>kv.config\<close> once; the answers
  of the other groups to \<open>Transfer\<close> are its arguments.
\<close>

subsection \<open>Data\<close>

definition CGET :: string where "CGET = ''get''"

definition CPUT :: string where "CPUT = ''put''"

definition CAPPEND :: string where "CAPPEND = ''append''"

definition CCHANGE :: string where "CCHANGE = ''change''"

definition CDELETE :: string where "CDELETE = ''delete''"

definition OK :: string where "OK = ''OK''"

definition ErrNoKey :: string where "ErrNoKey = ''ErrNoKey''"

definition ErrWrongGroup :: string where "ErrWrongGroup = ''ErrWrongGroup''"

definition ErrTryAgain :: string where "ErrTryAgain = ''ErrTryAgain''"

definition ErrTimeout :: string where "ErrTimeout = ''ErrTimeout''"

type_synonym shard = "(string, string) gomap"

record Op =
  o_Command :: string
  o_ClientId :: int
  o_RequestId :: int
  o_Key :: string
  o_Value :: string
  o_Config :: Config
  o_Store :: "shard list"
  o_PrevReq :: "(int, int) gomap"
  o_ConfigNum :: int
  o_ShardId :: int

definition zero_Op :: Op where
  "zero_Op = \<lparr>o_Command = [], o_ClientId = 0, o_RequestId = 0, o_Key = [], o_Value = [],
     o_Config = zero_config, o_Store = replicate NShards [], o_PrevReq = [], o_ConfigNum = 0, o_ShardId = 0\<rparr>"

record ShardResult =
  r_Command :: string
  r_Err :: string
  r_ClientId :: int
  r_RequestId :: int
  r_Value :: string
  r_ConfigNum :: int

definition zero_ShardResult :: ShardResult where
  "zero_ShardResult = \<lparr>r_Command = [], r_Err = [], r_ClientId = 0, r_RequestId = 0, r_Value = [], r_ConfigNum = 0\<rparr>"

record ShardKV =
  sk_me :: int
  sk_op :: "Op OmniPaxos"
  sk_gid :: int
  sk_config :: Config
  sk_store :: "shard list"
  sk_prevReq :: "(int, int) gomap"
  sk_chans :: "(int, ShardResult list) gomap"
  sk_clerk :: CtrlClerk

record TransferArgs =
  ta_Num :: int
  ta_ShardIds :: "nat list"

record TransferReply =
  tr_Store :: "shard list"
  tr_Prev :: "(int, int) gomap"
  tr_Err :: string

definition zero_TransferReply :: TransferReply where
  "zero_TransferReply = \<lparr>tr_Store = replicate NShards [], tr_Prev = [], tr_Err = []\<rparr>"

record DeleteArgs =
  da_Num :: int
  da_ShardId :: int

text \<open>Why the applier does not reach its next iteration: a panic, or a send on a full channel.\<close>

datatype apply_stop = SPanic go_panic | SBlocked

definition or_panic :: "'a go \<Rightarrow> apply_stop + 'a" where
  "or_panic r = (case r of Inl p \<Rightarrow> Inl (SPanic p) | Inr a \<Rightarrow> Inr a)"

definition key2shard :: "string \<Rightarrow> nat" where
  "key2shard key = (if 0 < length key then of_char (hd key) else 0) mod NShards"

definition emptyStore :: "shard list" where
  "emptyStore = replicate NShards []"

definition copyMapInt :: "(int, int) gomap \<Rightarrow> (int, int) gomap \<Rightarrow> (int, int) gomap" where
  "copyMapInt src dst = fold (\<lambda>(k, v) m. mput k v m) src dst"

definition copyMapStr :: "shard \<Rightarrow> shard \<Rightarrow> shard" where
  "copyMapStr src dst = fold (\<lambda>(k, v) m. mput k v m) src dst"

text \<open>\<open>for c := range src { dst[c] = max(dst[c], src[c]) }\<close>\<close>

definition mergePrev :: "(int, int) gomap \<Rightarrow> (int, int) gomap \<Rightarrow> (int, int) gomap" where
  "mergePrev src dst = fold (\<lambda>(c, _) m. mput c (max (mget0 0 m c) (mget0 0 src c)) m) src dst"

subsection \<open>Applying an operation of the log\<close>

definition isNew :: "ShardKV \<Rightarrow> Op \<Rightarrow> bool" where
  "isNew kv op = (case map_of (sk_prevReq kv) (o_ClientId op) of Some p \<Rightarrow> o_RequestId op > p | None \<Rightarrow> True)"

definition isWrongGroup :: "ShardKV \<Rightarrow> string \<Rightarrow> bool" where
  "isWrongGroup kv key = (cf_Shards (sk_config kv) ! key2shard key \<noteq> sk_gid kv)"

definition shardOf :: "ShardKV \<Rightarrow> string \<Rightarrow> shard" where
  "shardOf kv key = sk_store kv ! key2shard key"

definition setShardOf :: "ShardKV \<Rightarrow> string \<Rightarrow> string \<Rightarrow> ShardKV" where
  "setShardOf kv key v =
     kv\<lparr>sk_store := (sk_store kv)[key2shard key := mput key v (shardOf kv key)]\<rparr>"

definition setPrevReqId :: "ShardKV \<Rightarrow> Op \<Rightarrow> ShardKV" where
  "setPrevReqId kv op = kv\<lparr>sk_prevReq := mput (o_ClientId op) (o_RequestId op) (sk_prevReq kv)\<rparr>"

definition applyPut :: "ShardKV \<Rightarrow> Op \<Rightarrow> ShardResult \<Rightarrow> ShardKV \<times> ShardResult" where
  "applyPut kv op result =
     (if isWrongGroup kv (o_Key op) then (kv, result\<lparr>r_Err := ErrWrongGroup\<rparr>)
      else if \<not> isNew kv op then (kv, result\<lparr>r_Err := OK\<rparr>)
      else (setPrevReqId (setShardOf kv (o_Key op) (o_Value op)) op, result\<lparr>r_Err := OK\<rparr>))"

definition applyAppend :: "ShardKV \<Rightarrow> Op \<Rightarrow> ShardResult \<Rightarrow> ShardKV \<times> ShardResult" where
  "applyAppend kv op result =
     (if isWrongGroup kv (o_Key op) then (kv, result\<lparr>r_Err := ErrWrongGroup\<rparr>)
      else if \<not> isNew kv op then (kv, result\<lparr>r_Err := OK\<rparr>)
      else (setPrevReqId (setShardOf kv (o_Key op) (mget0 [] (shardOf kv (o_Key op)) (o_Key op) @ o_Value op)) op,
            result\<lparr>r_Err := OK\<rparr>))"

definition applyGet :: "ShardKV \<Rightarrow> Op \<Rightarrow> ShardResult \<Rightarrow> ShardKV \<times> ShardResult" where
  "applyGet kv op result =
     (if isWrongGroup kv (o_Key op) then (kv, result\<lparr>r_Err := ErrWrongGroup\<rparr>)
      else
        let kv1 = (if isNew kv op then setPrevReqId kv op else kv)
        in case map_of (shardOf kv1 (o_Key op)) (o_Key op) of
             None \<Rightarrow> (kv1, result\<lparr>r_Err := ErrNoKey\<rparr>)
           | Some v \<Rightarrow> (kv1, result\<lparr>r_Err := OK, r_Value := v\<rparr>))"

definition applyChange :: "ShardKV \<Rightarrow> Op \<Rightarrow> ShardResult \<Rightarrow> ShardKV \<times> ShardResult \<times> (int \<times> nat) list" where
  "applyChange kv op result =
     (let result1 = result\<lparr>r_ConfigNum := cf_Num (o_Config op), r_Err := OK\<rparr>
      in if cf_Num (o_Config op) - cf_Num (sk_config kv) \<noteq> 1 then (kv, result1, [])
         else
           (kv\<lparr>sk_prevReq := mergePrev (o_PrevReq op) (sk_prevReq kv),
               sk_store := map2 copyMapStr (o_Store op) (sk_store kv),
               sk_config := o_Config op\<rparr>,
            result1,
            map (\<lambda>sid. (cf_Shards (sk_config kv) ! sid, sid))
              (filter (\<lambda>sid. 0 < length (o_Store op ! sid)) [0..<NShards])))"

text \<open>The call the goroutine makes for group \<open>gid\<close> and shard \<open>sid\<close>, in the state it runs in.\<close>

definition deleteRequest :: "ShardKV \<Rightarrow> int \<times> nat \<Rightarrow> DeleteArgs \<times> string list" where
  "deleteRequest kv = (\<lambda>(gid, sid).
     (\<lparr>da_Num = cf_Num (sk_config kv), da_ShardId = int sid\<rparr>, mget0 [] (cf_Groups (sk_config kv)) gid))"

definition applyDelete :: "ShardKV \<Rightarrow> Op \<Rightarrow> ShardKV go" where
  "applyDelete kv op =
     (if o_ConfigNum op \<le> cf_Num (sk_config kv)
      then res_bind (go_index (cf_Shards (sk_config kv)) (o_ShardId op)) (\<lambda>owner.
             if sk_gid kv \<noteq> owner
             then res_bind (go_set (sk_store kv) (o_ShardId op) []) (\<lambda>st. Inr (kv\<lparr>sk_store := st\<rparr>))
             else Inr kv)
      else Inr kv)"

definition applySwitchOp :: "ShardKV \<Rightarrow> Op \<Rightarrow> ShardResult \<Rightarrow> (ShardKV \<times> ShardResult \<times> (int \<times> nat) list) go" where
  "applySwitchOp kv op res =
     (if o_Command op = CCHANGE then Inr (applyChange kv op res)
      else if o_Command op = CDELETE then res_bind (applyDelete kv op) (\<lambda>kv1. Inr (kv1, res, []))
      else if o_Command op = CGET then (case applyGet kv op res of (kv1, r) \<Rightarrow> Inr (kv1, r, []))
      else if o_Command op = CPUT then (case applyPut kv op res of (kv1, r) \<Rightarrow> Inr (kv1, r, []))
      else if o_Command op = CAPPEND then (case applyAppend kv op res of (kv1, r) \<Rightarrow> Inr (kv1, r, []))
      else Inr (kv, res, []))"

definition sendResult :: "ShardKV \<Rightarrow> int \<Rightarrow> ShardResult \<Rightarrow> apply_stop + ShardKV" where
  "sendResult kv i res =
     (case map_of (sk_chans kv) i of
        None \<Rightarrow> Inr (kv\<lparr>sk_chans := mput i [res] (sk_chans kv)\<rparr>)
      | Some [] \<Rightarrow> Inr (kv\<lparr>sk_chans := mput i [res] (sk_chans kv)\<rparr>)
      | Some _ \<Rightarrow> Inl SBlocked)"

definition applier :: "ShardKV \<Rightarrow> Op ApplyMsg \<Rightarrow> apply_stop + (ShardKV \<times> (int \<times> nat) list)" where
  "applier kv com =
     (let op = Command com;
          res = zero_ShardResult\<lparr>r_Command := o_Command op, r_Err := OK, r_ClientId := o_ClientId op,
                  r_RequestId := o_RequestId op\<rparr>
      in res_bind (or_panic (applySwitchOp kv op res)) (\<lambda>(kv1, res1, spawned).
           res_bind (sendResult kv1 (CommandIndex com) res1) (\<lambda>kv2. Inr (kv2, spawned))))"

subsection \<open>The handlers\<close>

definition proposeOp :: "ShardKV \<Rightarrow> Op \<Rightarrow> (ShardKV \<times> Op calls \<times> (ShardResult + int)) go" where
  "proposeOp kv op =
     res_bind (Proposal (sk_op kv) op) (\<lambda>((rf, ms), (ind, _, isLeader)).
       if \<not> isLeader then Inr (kv\<lparr>sk_op := rf\<rparr>, ms, Inl (zero_ShardResult\<lparr>r_Err := ErrNotLeader\<rparr>))
       else Inr (kv\<lparr>sk_op := rf, sk_chans := (if map_of (sk_chans kv) ind = None then mput ind [] (sk_chans kv)
                                              else sk_chans kv)\<rparr>, ms, Inr ind))"

definition expected :: "Op \<Rightarrow> ShardResult \<Rightarrow> bool" where
  "expected op result =
     (if o_Command op = CCHANGE then cf_Num (o_Config op) = r_ConfigNum result
      else if o_Command op = CDELETE then o_ConfigNum op = r_ConfigNum result
      else o_ClientId op = r_ClientId result \<and> o_RequestId op = r_RequestId result)"

definition awaitResult :: "ShardKV \<Rightarrow> Op \<Rightarrow> int \<Rightarrow> (ShardKV \<times> ShardResult) option" where
  "awaitResult kv op ind =
     (case map_of (sk_chans kv) ind of
        Some (result # rest) \<Rightarrow>
          Some (kv\<lparr>sk_chans := mput ind rest (sk_chans kv)\<rparr>,
                if expected op result then result else zero_ShardResult\<lparr>r_Err := ErrTryAgain\<rparr>)
      | _ \<Rightarrow> None)"

definition awaitTimeout :: ShardResult where
  "awaitTimeout = zero_ShardResult\<lparr>r_Err := ErrTimeout\<rparr>"

definition getOp :: "string \<Rightarrow> int \<Rightarrow> int \<Rightarrow> Op" where
  "getOp key cid rid = zero_Op\<lparr>o_Command := CGET, o_ClientId := cid, o_RequestId := rid, o_Key := key\<rparr>"

definition putAppendOp :: "string \<Rightarrow> string \<Rightarrow> string \<Rightarrow> int \<Rightarrow> int \<Rightarrow> Op" where
  "putAppendOp opn key val cid rid =
     zero_Op\<lparr>o_Command := opn, o_ClientId := cid, o_RequestId := rid, o_Key := key, o_Value := val\<rparr>"

definition Transfer :: "ShardKV \<Rightarrow> TransferArgs \<Rightarrow> TransferReply" where
  "Transfer kv args =
     (if cf_Num (sk_config kv) < ta_Num args then zero_TransferReply\<lparr>tr_Err := ErrTryAgain\<rparr>
      else \<lparr>tr_Store = map (\<lambda>i. copyMapStr (sk_store kv ! i) []) [0..<NShards],
            tr_Prev = copyMapInt (sk_prevReq kv) [], tr_Err = OK\<rparr>)"

text \<open>\<open>Delete\<close> up to the wait in \<open>propose\<close>, whose result it ignores.\<close>

definition Delete :: "ShardKV \<Rightarrow> DeleteArgs \<Rightarrow> (ShardKV \<times> Op calls \<times> string) go" where
  "Delete kv args =
     (if \<not> snd (GetState (sk_op kv)) then Inr (kv, [], ErrNotLeader)
      else if da_Num args > cf_Num (sk_config kv) then Inr (kv, [], ErrTryAgain)
      else
        let op = zero_Op\<lparr>o_Command := CDELETE, o_ConfigNum := da_Num args, o_ShardId := da_ShardId args\<rparr>
        in res_bind (proposeOp kv op) (\<lambda>(kv1, ms, _). Inr (kv1, ms, OK)))"

definition ShardKill :: "ShardKV \<Rightarrow> ShardKV" where
  "ShardKill kv = kv\<lparr>sk_op := Kill (sk_op kv)\<rparr>"

definition StartShardKV :: "nat \<Rightarrow> int \<Rightarrow> Op gob_msg Persister \<Rightarrow> int \<Rightarrow> int \<Rightarrow> ShardKV go" where
  "StartShardKV n me ps gid rnd =
     res_bind (Make n me ps) (\<lambda>rf.
       Inr \<lparr>sk_me = me, sk_op = rf, sk_gid = gid, sk_config = zero_config, sk_store = emptyStore,
            sk_prevReq = [], sk_chans = [], sk_clerk = MakeCtrlClerk rnd\<rparr>)"

text \<open>
  The RPC handlers \<open>Get\<close> and \<open>PutAppend\<close>: the operation they propose, and the reply made of the
  result that \<open>propose\<close> returns (\<open>Inl\<close> at once, or later by \<open>awaitResult\<close> or \<open>awaitTimeout\<close>).
\<close>

record ShardGetReply =
  sg_Value :: string
  sg_Err :: string

definition ShardGet :: "ShardKV \<Rightarrow> string \<Rightarrow> int \<Rightarrow> int \<Rightarrow> (ShardKV \<times> Op calls \<times> (ShardGetReply + int)) go" where
  "ShardGet kv key cid rid =
     res_bind (proposeOp kv (getOp key cid rid)) (\<lambda>(kv1, ms, r).
       Inr (kv1, ms, case r of Inl result \<Rightarrow> Inl \<lparr>sg_Value = r_Value result, sg_Err = r_Err result\<rparr> | Inr i \<Rightarrow> Inr i))"

definition ShardPutAppend :: "ShardKV \<Rightarrow> string \<Rightarrow> string \<Rightarrow> string \<Rightarrow> int \<Rightarrow> int
    \<Rightarrow> (ShardKV \<times> Op calls \<times> (string + int)) go" where
  "ShardPutAppend kv opn key val cid rid =
     res_bind (proposeOp kv (putAppendOp opn key val cid rid)) (\<lambda>(kv1, ms, r).
       Inr (kv1, ms, case r of Inl result \<Rightarrow> Inl (r_Err result) | Inr i \<Rightarrow> Inr i))"

subsection \<open>Following the controller\<close>

definition shardsToTransfer :: "ShardKV \<Rightarrow> int list \<Rightarrow> (int, nat list) gomap" where
  "shardsToTransfer kv shards =
     fold (\<lambda>i m.
         let gid = cf_Shards (sk_config kv) ! i
         in if gid = sk_gid kv \<or> shards ! i \<noteq> sk_gid kv then m
            else if gid = 0 then m
            else mput gid (mget0 [] m gid @ [i]) m) [0..<NShards] []"

text \<open>
  The caller reuses one reply variable for all servers of a group: decoding leaves a field as it
  is when the message has its zero value, and adds the entries of a map to those that are there.
\<close>

definition decodeInto :: "TransferReply \<Rightarrow> TransferReply \<Rightarrow> TransferReply" where
  "decodeInto reply r =
     \<lparr>tr_Store = map2 copyMapStr (tr_Store r) (tr_Store reply),
      tr_Prev = copyMapInt (tr_Prev r) (tr_Prev reply),
      tr_Err = (if tr_Err r = [] then tr_Err reply else tr_Err r)\<rparr>"

fun askServers :: "(string \<Rightarrow> TransferArgs \<Rightarrow> TransferReply option) \<Rightarrow> TransferArgs \<Rightarrow> string list
    \<Rightarrow> TransferReply \<Rightarrow> bool \<times> TransferReply" where
  "askServers answers args [] reply = (False, reply)"
| "askServers answers args (srv # servers) reply =
     (case answers srv args of
        None \<Rightarrow> askServers answers args servers reply
      | Some r \<Rightarrow>
          let reply1 = decodeInto reply r
          in if tr_Err reply1 = OK then (True, reply1) else askServers answers args servers reply1)"

definition fetchGroup :: "ShardKV \<Rightarrow> Config \<Rightarrow> (string \<Rightarrow> TransferArgs \<Rightarrow> TransferReply option)
    \<Rightarrow> int \<times> nat list \<Rightarrow> Op \<times> bool \<Rightarrow> Op \<times> bool" where
  "fetchGroup kv conf answers = (\<lambda>(gid, shardIds) (op, ok).
     let (sent, reply) = askServers answers \<lparr>ta_Num = cf_Num conf, ta_ShardIds = shardIds\<rparr>
                           (mget0 [] (cf_Groups (sk_config kv)) gid) zero_TransferReply
     in (op\<lparr>o_Store := fold (\<lambda>i st. st[i := copyMapStr (tr_Store reply ! i) (st ! i)]) shardIds (o_Store op),
            o_PrevReq := mergePrev (tr_Prev reply) (o_PrevReq op)\<rparr>, ok \<and> sent))"

definition getChangeOp :: "ShardKV \<Rightarrow> Config \<Rightarrow> ((int \<times> nat list) list \<Rightarrow> (int \<times> nat list) list)
    \<Rightarrow> (string \<Rightarrow> TransferArgs \<Rightarrow> TransferReply option) \<Rightarrow> Op \<times> bool" where
  "getChangeOp kv conf rng answers =
     fold (fetchGroup kv conf answers) (rng (shardsToTransfer kv (cf_Shards conf)))
       (zero_Op\<lparr>o_Command := CCHANGE, o_Config := conf, o_PrevReq := [], o_Store := emptyStore\<rparr>, True)"

definition queryConf :: "ShardKV \<Rightarrow> int \<Rightarrow> (nat \<Rightarrow> CtrlResult option list) \<Rightarrow> (ShardKV \<times> Config) option" where
  "queryConf kv num replies =
     (case clerkQuery (sk_clerk kv) num replies of
        (ck, _, Some c) \<Rightarrow> Some (kv\<lparr>sk_clerk := ck\<rparr>, c)
      | (_, _, None) \<Rightarrow> None)"

text \<open>
  The inner loop of \<open>catchUp\<close>.  \<open>commit\<close> is \<open>propose\<close> as its caller sees it: the state it finds
  when \<open>propose\<close> returns, and the result; \<open>replies\<close> are the answers of the controllers to a query.
  The second component of the result is the list of the operations proposed.
\<close>

partial_function (option) catchUpLoop ::
  "(ShardKV \<Rightarrow> Op \<Rightarrow> ShardKV \<times> ShardResult) \<Rightarrow> (int \<Rightarrow> nat \<Rightarrow> CtrlResult option list)
    \<Rightarrow> ((int \<times> nat list) list \<Rightarrow> (int \<times> nat list) list) \<Rightarrow> (string \<Rightarrow> TransferArgs \<Rightarrow> TransferReply option)
    \<Rightarrow> Config \<Rightarrow> int \<Rightarrow> ShardKV \<Rightarrow> Op list \<Rightarrow> (ShardKV \<times> Op list) option" where
  "catchUpLoop commit replies rng answers latest i kv ops =
     (if i \<le> cf_Num latest - cf_Num (sk_config kv)
      then
        let num = i + cf_Num (sk_config kv)
        in Option.bind (queryConf kv num (replies num)) (\<lambda>(kv1, conf).
             let (op, ok) = getChangeOp kv1 conf rng answers
             in if \<not> ok then Some (kv1, ops)
                else
                  let (kv2, res) = commit kv1 op
                  in if r_Err res \<noteq> OK then Some (kv2, ops @ [op])
                     else catchUpLoop commit replies rng answers latest (i + 1) kv2 (ops @ [op]))
      else Some (kv, ops))"

declare catchUpLoop.simps [code]

definition catchUp :: "(ShardKV \<Rightarrow> Op \<Rightarrow> ShardKV \<times> ShardResult) \<Rightarrow> (int \<Rightarrow> nat \<Rightarrow> CtrlResult option list)
    \<Rightarrow> ((int \<times> nat list) list \<Rightarrow> (int \<times> nat list) list) \<Rightarrow> (string \<Rightarrow> TransferArgs \<Rightarrow> TransferReply option)
    \<Rightarrow> ShardKV \<Rightarrow> (ShardKV \<times> Op list) option" where
  "catchUp commit replies rng answers kv =
     (if \<not> snd (GetState (sk_op kv)) then Some (kv, [])
      else Option.bind (queryConf kv LatestConfigNum (replies LatestConfigNum)) (\<lambda>(kv1, latest).
             catchUpLoop commit replies rng answers latest 1 kv1 []))"

subsection \<open>The clerk\<close>

record ShardClerk =
  ks_sm :: CtrlClerk
  ks_config :: Config
  ks_clientId :: int
  ks_requestId :: int

definition MakeShardClerk :: "int \<Rightarrow> int \<Rightarrow> ShardClerk" where
  "MakeShardClerk rnd1 rnd2 =
     \<lparr>ks_sm = MakeCtrlClerk rnd1, ks_config = zero_config, ks_clientId = rnd2, ks_requestId = 0\<rparr>"

definition newRequestId :: "ShardClerk \<Rightarrow> ShardClerk \<times> int" where
  "newRequestId ck = (let ck1 = ck\<lparr>ks_requestId := ks_requestId ck + 1\<rparr> in (ck1, ks_requestId ck1))"

text \<open>The loop over the servers of a group: \<open>good\<close> replies end the call, \<open>ErrWrongGroup\<close> the loop.\<close>

fun askGroup :: "('r \<Rightarrow> string) \<Rightarrow> ('r \<Rightarrow> bool) \<Rightarrow> (string \<Rightarrow> 'r option) \<Rightarrow> string list \<Rightarrow> 'r option" where
  "askGroup err good call [] = None"
| "askGroup err good call (srv # servers) =
     (case call srv of
        None \<Rightarrow> askGroup err good call servers
      | Some reply \<Rightarrow>
          if good reply then Some reply
          else if err reply = ErrWrongGroup then None
          else askGroup err good call servers)"

text \<open>The outer loop; in round \<open>k\<close> servers answer \<open>call k\<close> and the controllers \<open>replies k\<close>.\<close>

partial_function (option) askForever ::
  "('r \<Rightarrow> string) \<Rightarrow> ('r \<Rightarrow> bool) \<Rightarrow> (nat \<Rightarrow> string \<Rightarrow> 'r option) \<Rightarrow> (nat \<Rightarrow> nat \<Rightarrow> CtrlResult option list)
    \<Rightarrow> string \<Rightarrow> ShardClerk \<Rightarrow> nat \<Rightarrow> (ShardClerk \<times> 'r) option" where
  "askForever err good call replies key ck k =
     (let gid = cf_Shards (ks_config ck) ! key2shard key
      in case (case map_of (cf_Groups (ks_config ck)) gid of
                 Some servers \<Rightarrow> askGroup err good (call k) servers
               | None \<Rightarrow> None) of
           Some reply \<Rightarrow> Some (ck, reply)
         | None \<Rightarrow>
             (case clerkQuery (ks_sm ck) LatestConfigNum (replies k) of
                (sm, _, Some c) \<Rightarrow> askForever err good call replies key (ck\<lparr>ks_sm := sm, ks_config := c\<rparr>) (k + 1)
              | (_, _, None) \<Rightarrow> None))"

definition shardClerkGet :: "ShardClerk \<Rightarrow> string \<Rightarrow> (nat \<Rightarrow> string \<Rightarrow> ShardGetReply option)
    \<Rightarrow> (nat \<Rightarrow> nat \<Rightarrow> CtrlResult option list) \<Rightarrow> Op \<times> (ShardClerk \<times> string) option" where
  "shardClerkGet ck key call replies =
     (let (ck1, rid) = newRequestId ck
      in (getOp key (ks_clientId ck1) rid,
          map_option (\<lambda>(ck2, reply). (ck2, sg_Value reply))
            (askForever sg_Err (\<lambda>r. sg_Err r = OK \<or> sg_Err r = ErrNoKey) call replies key ck1 0)))"

definition shardClerkPutAppend :: "ShardClerk \<Rightarrow> string \<Rightarrow> string \<Rightarrow> string \<Rightarrow> (nat \<Rightarrow> string \<Rightarrow> string option)
    \<Rightarrow> (nat \<Rightarrow> nat \<Rightarrow> CtrlResult option list) \<Rightarrow> Op \<times> ShardClerk option" where
  "shardClerkPutAppend ck key val opn call replies =
     (let (ck1, rid) = newRequestId ck
      in (putAppendOp opn key val (ks_clientId ck1) rid,
          map_option fst (askForever (\<lambda>e. e) (\<lambda>e. e = OK) call replies key ck1 0)))"

definition shardClerkPut :: "ShardClerk \<Rightarrow> string \<Rightarrow> string \<Rightarrow> (nat \<Rightarrow> string \<Rightarrow> string option)
    \<Rightarrow> (nat \<Rightarrow> nat \<Rightarrow> CtrlResult option list) \<Rightarrow> Op \<times> ShardClerk option" where
  "shardClerkPut ck key val = shardClerkPutAppend ck key val CPUT"

definition shardClerkAppend :: "ShardClerk \<Rightarrow> string \<Rightarrow> string \<Rightarrow> (nat \<Rightarrow> string \<Rightarrow> string option)
    \<Rightarrow> (nat \<Rightarrow> nat \<Rightarrow> CtrlResult option list) \<Rightarrow> Op \<times> ShardClerk option" where
  "shardClerkAppend ck key val = shardClerkPutAppend ck key val CAPPEND"

end
