(* ===== verification/ShardReplica.thy ===== *)
theory ShardReplica
  imports ShardKV "HOL-Library.Option_ord"
begin

text \<open>
  What one replica of a shard group does with its log: copying and merging of maps, the type
  invariant of the state (ten shards, maps without duplicate keys), at-most-once execution and the
  refinement of the sharded store to a single map, refusal of keys of other groups, and the
  hand-over of results through the channels.
\<close>

subsection \<open>Copying and merging maps\<close>

lemma map_of_fold_mput:
  "gomap_ok src \<Longrightarrow> map_of (fold (\<lambda>(k, v) m. mput k v m) src dst) = map_of dst ++ map_of src"
proof (induction src arbitrary: dst)
  case (Cons e src)
  obtain k v where e: "e = (k, v)" by (cases e)
  have "map_of src k = None" using Cons.prems e by (simp add: map_of_eq_None_iff)
  then have "map_of (mput k v dst) ++ map_of src = map_of dst ++ (map_of src)(k \<mapsto> v)"
    by (simp add: update_conv' map_add_def fun_eq_iff split: option.split)
  with Cons e show ?case by (simp add: map_add_def fun_eq_iff)
qed simp

lemma gomap_ok_fold_mput: "gomap_ok dst \<Longrightarrow> gomap_ok (fold (\<lambda>(k, v) m. mput k v m) src dst)"
  by (induction src arbitrary: dst) (auto simp: distinct_update)

lemma map_of_copyMapStr [simp]: "gomap_ok src \<Longrightarrow> map_of (copyMapStr src dst) = map_of dst ++ map_of src"
  by (simp add: copyMapStr_def map_of_fold_mput)

lemma gomap_ok_copyMapStr [simp]: "gomap_ok dst \<Longrightarrow> gomap_ok (copyMapStr src dst)"
  by (simp add: copyMapStr_def gomap_ok_fold_mput)

lemma map_of_copyMapInt [simp]: "gomap_ok src \<Longrightarrow> map_of (copyMapInt src dst) = map_of dst ++ map_of src"
  by (simp add: copyMapInt_def map_of_fold_mput)

lemma gomap_ok_copyMapInt [simp]: "gomap_ok dst \<Longrightarrow> gomap_ok (copyMapInt src dst)"
  by (simp add: copyMapInt_def gomap_ok_fold_mput)

text \<open>Merging takes the maximum of the numbers of each client that the source knows.\<close>

lemma map_of_merge_step:
  "gomap_ok cs \<Longrightarrow> map_of (fold (\<lambda>(c, _) m. mput c (max (mget0 0 m c) (mget0 0 src c)) m) cs dst) k =
     (if k \<in> fst ` set cs then Some (max (mget0 0 dst k) (mget0 0 src k)) else map_of dst k)"
proof (induction cs arbitrary: dst)
  case (Cons e cs)
  then show ?case by (cases e) (auto simp: update_conv' mget0_def)
qed simp

lemma map_of_mergePrev:
  "gomap_ok src \<Longrightarrow> map_of (mergePrev src dst) k =
     (case map_of src k of Some v \<Rightarrow> Some (max (mget0 0 dst k) v) | None \<Rightarrow> map_of dst k)"
proof -
  assume "gomap_ok src"
  then have "map_of (mergePrev src dst) k =
      (if map_of src k \<noteq> None then Some (max (mget0 0 dst k) (mget0 0 src k)) else map_of dst k)"
    by (simp add: mergePrev_def map_of_merge_step map_of_eq_None_iff)
  then show ?thesis by (cases "map_of src k") (simp_all add: mget0_def)
qed

lemma gomap_ok_mergePrev [simp]: "gomap_ok dst \<Longrightarrow> gomap_ok (mergePrev src dst)"
proof -
  have "gomap_ok dst \<Longrightarrow> gomap_ok (fold (\<lambda>(c, _) m. mput c (max (mget0 0 m c) (mget0 0 src c)) m) cs dst)" for cs
    by (induction cs arbitrary: dst) (auto simp: distinct_update)
  then show "gomap_ok dst \<Longrightarrow> gomap_ok (mergePrev src dst)" by (simp add: mergePrev_def)
qed

lemma mergePrev_grows: "map_of dst k \<le> map_of (mergePrev src dst) k"
proof -
  have "map_of dst k \<le> map_of (fold (\<lambda>(c, _) m. mput c (max (mget0 0 m c) (mget0 0 src c)) m) cs dst) k" for cs
  proof (induction cs arbitrary: dst)
    case (Cons e cs)
    obtain c v where e: "e = (c, v)" by (cases e)
    have "map_of dst k \<le> map_of (mput c (max (mget0 0 dst c) (mget0 0 src c)) dst) k"
      by (auto simp: update_conv' mget0_def split: option.splits)
    from order_trans [OF this Cons.IH] e show ?case by simp
  qed simp
  then show ?thesis by (simp add: mergePrev_def)
qed

lemma mergePrev_covers:
  "gomap_ok src \<Longrightarrow> map_of src k \<le> map_of (mergePrev src dst) k"
  by (auto simp: map_of_mergePrev split: option.splits)

subsection \<open>The type invariant\<close>

definition store_ok :: "shard list \<Rightarrow> bool" where
  "store_ok st \<longleftrightarrow> length st = NShards \<and> (\<forall>m \<in> set st. gomap_ok m)"

definition sk_ok :: "ShardKV \<Rightarrow> bool" where
  "sk_ok kv \<longleftrightarrow> store_ok (sk_store kv) \<and> gomap_ok (sk_prevReq kv) \<and> length (cf_Shards (sk_config kv)) = NShards"

definition op_ok :: "Op \<Rightarrow> bool" where
  "op_ok op \<longleftrightarrow> store_ok (o_Store op) \<and> gomap_ok (o_PrevReq op) \<and> length (cf_Shards (o_Config op)) = NShards
     \<and> 0 \<le> o_ShardId op \<and> o_ShardId op < int NShards"

lemma key2shard_less [simp]: "key2shard key < NShards"
  by (simp add: key2shard_def NShards_def)

lemma NShards_pos [simp]: "0 < NShards"
  by (simp add: NShards_def)

lemma store_ok_length [simp]: "store_ok st \<Longrightarrow> length st = NShards"
  by (simp add: store_ok_def)

lemma store_ok_nth [simp]: "store_ok st \<Longrightarrow> i < NShards \<Longrightarrow> gomap_ok (st ! i)"
  by (simp add: store_ok_def)

lemma store_ok_update [simp]: "store_ok st \<Longrightarrow> gomap_ok m \<Longrightarrow> store_ok (st[i := m])"
  by (auto simp: store_ok_def dest!: subsetD [OF set_update_subset_insert])

lemma store_ok_empty [simp]: "store_ok emptyStore" "store_ok (replicate NShards [])"
  by (simp_all add: store_ok_def emptyStore_def)

lemma store_ok_map2 [simp]: "store_ok src \<Longrightarrow> store_ok dst \<Longrightarrow> store_ok (map2 copyMapStr src dst)"
  by (auto simp: store_ok_def set_zip)

lemma nth_map2_copy [simp]:
  "store_ok src \<Longrightarrow> store_ok dst \<Longrightarrow> i < NShards \<Longrightarrow> map2 copyMapStr src dst ! i = copyMapStr (src ! i) (dst ! i)"
  by simp

text \<open>The state changes of one operation, without the result and the channel.\<close>

definition sk_effect :: "ShardKV \<Rightarrow> Op \<Rightarrow> ShardKV" where
  "sk_effect kv op = (case applySwitchOp kv op zero_ShardResult of Inl _ \<Rightarrow> kv | Inr (kv1, _) \<Rightarrow> kv1)"

definition sk_step :: "ShardKV \<Rightarrow> Op ApplyMsg \<Rightarrow> apply_stop + ShardKV" where
  "sk_step kv m = res_bind (applier kv m) (\<lambda>(kv1, _). Inr kv1)"

definition is_write :: "Op \<Rightarrow> bool" where
  "is_write op \<longleftrightarrow> o_Command op = CPUT \<or> o_Command op = CAPPEND"

definition client_op :: "Op \<Rightarrow> bool" where
  "client_op op \<longleftrightarrow> is_write op \<or> o_Command op = CGET"

lemma commands_distinct [simp]:
  "CGET \<noteq> CPUT" "CGET \<noteq> CAPPEND" "CGET \<noteq> CCHANGE" "CGET \<noteq> CDELETE"
  "CPUT \<noteq> CGET" "CPUT \<noteq> CAPPEND" "CPUT \<noteq> CCHANGE" "CPUT \<noteq> CDELETE"
  "CAPPEND \<noteq> CGET" "CAPPEND \<noteq> CPUT" "CAPPEND \<noteq> CCHANGE" "CAPPEND \<noteq> CDELETE"
  "CCHANGE \<noteq> CGET" "CCHANGE \<noteq> CPUT" "CCHANGE \<noteq> CAPPEND" "CCHANGE \<noteq> CDELETE"
  "CDELETE \<noteq> CGET" "CDELETE \<noteq> CPUT" "CDELETE \<noteq> CAPPEND" "CDELETE \<noteq> CCHANGE"
  by (simp_all add: CGET_def CPUT_def CAPPEND_def CCHANGE_def CDELETE_def)

lemma sendResult_Inr:
  "sendResult kv i res = Inr kv' \<Longrightarrow> kv' = kv\<lparr>sk_chans := mput i [res] (sk_chans kv)\<rparr>"
  by (auto simp: sendResult_def split: option.splits list.splits)

text \<open>The result an operation is started with has no influence on the state.\<close>

lemma applySwitchOp_effect:
  "applySwitchOp kv op res = Inr (kv1, res1, sp) \<Longrightarrow> kv1 = sk_effect kv op"
  by (auto simp: sk_effect_def applySwitchOp_def applyChange_def applyGet_def applyPut_def applyAppend_def Let_def
      split: if_splits option.splits prod.splits)

lemma sk_step_Inr:
  assumes "sk_step kv m = Inr kv'"
  obtains res where "kv' = (sk_effect kv (Command m))\<lparr>sk_chans := mput (CommandIndex m) [res] (sk_chans (sk_effect kv (Command m)))\<rparr>"
proof -
  from assms obtain kv1 res1 sp where "applySwitchOp kv (Command m) (zero_ShardResult\<lparr>r_Command := o_Command (Command m),
      r_Err := OK, r_ClientId := o_ClientId (Command m), r_RequestId := o_RequestId (Command m)\<rparr>) = Inr (kv1, res1, sp)"
    and "sendResult kv1 (CommandIndex m) res1 = Inr kv'"
    by (auto simp: sk_step_def applier_def Let_def or_panic_def split: sum.splits)
  with applySwitchOp_effect sendResult_Inr that show ?thesis by metis
qed

text \<open>What each kind of operation does to the state.\<close>

lemma sk_effect_change:
  "o_Command op = CCHANGE \<Longrightarrow> sk_effect kv op =
     (if cf_Num (o_Config op) - cf_Num (sk_config kv) \<noteq> 1 then kv
      else kv\<lparr>sk_prevReq := mergePrev (o_PrevReq op) (sk_prevReq kv),
              sk_store := map2 copyMapStr (o_Store op) (sk_store kv), sk_config := o_Config op\<rparr>)"
  by (simp add: sk_effect_def applySwitchOp_def applyChange_def Let_def)

lemma sk_effect_delete:
  "sk_ok kv \<Longrightarrow> op_ok op \<Longrightarrow> o_Command op = CDELETE \<Longrightarrow> sk_effect kv op =
     (if o_ConfigNum op \<le> cf_Num (sk_config kv) \<and> cf_Shards (sk_config kv) ! nat (o_ShardId op) \<noteq> sk_gid kv
      then kv\<lparr>sk_store := (sk_store kv)[nat (o_ShardId op) := []]\<rparr> else kv)"
  by (auto simp: sk_effect_def applySwitchOp_def applyDelete_def sk_ok_def op_ok_def go_index_def go_set_def)

lemma sk_effect_get:
  "o_Command op = CGET \<Longrightarrow> sk_effect kv op =
     (if isWrongGroup kv (o_Key op) \<or> \<not> isNew kv op then kv else setPrevReqId kv op)"
  by (auto simp: sk_effect_def applySwitchOp_def applyGet_def Let_def split: option.splits)

lemma sk_effect_put:
  "o_Command op = CPUT \<Longrightarrow> sk_effect kv op =
     (if isWrongGroup kv (o_Key op) \<or> \<not> isNew kv op then kv
      else setPrevReqId (setShardOf kv (o_Key op) (o_Value op)) op)"
  by (auto simp: sk_effect_def applySwitchOp_def applyPut_def)

lemma sk_effect_append:
  "o_Command op = CAPPEND \<Longrightarrow> sk_effect kv op =
     (if isWrongGroup kv (o_Key op) \<or> \<not> isNew kv op then kv
      else setPrevReqId (setShardOf kv (o_Key op) (mget0 [] (shardOf kv (o_Key op)) (o_Key op) @ o_Value op)) op)"
  by (auto simp: sk_effect_def applySwitchOp_def applyAppend_def)

lemma sk_effect_other:
  "\<not> client_op op \<Longrightarrow> o_Command op \<noteq> CCHANGE \<Longrightarrow> o_Command op \<noteq> CDELETE \<Longrightarrow> sk_effect kv op = kv"
  by (auto simp: sk_effect_def applySwitchOp_def client_op_def is_write_def)

lemmas sk_effects = sk_effect_change sk_effect_delete sk_effect_get sk_effect_put sk_effect_append sk_effect_other

lemma op_cases [case_names Change Delete Get Put Append Other]:
  obtains "o_Command op = CCHANGE" | "o_Command op = CDELETE" | "o_Command op = CGET" | "o_Command op = CPUT"
    | "o_Command op = CAPPEND" | "\<not> client_op op" "o_Command op \<noteq> CCHANGE" "o_Command op \<noteq> CDELETE"
  by (auto simp: client_op_def is_write_def)

lemma sk_effect_delete_cases:
  "o_Command op = CDELETE \<Longrightarrow> \<exists>st. sk_effect kv op = kv\<lparr>sk_store := st\<rparr>"
  by (auto simp: sk_effect_def applySwitchOp_def applyDelete_def split: sum.split intro: exI [of _ "sk_store kv"])

lemma sk_effect_frame [simp]:
  "sk_gid (sk_effect kv op) = sk_gid kv" "sk_chans (sk_effect kv op) = sk_chans kv"
  "sk_op (sk_effect kv op) = sk_op kv" "sk_me (sk_effect kv op) = sk_me kv" "sk_clerk (sk_effect kv op) = sk_clerk kv"
  using sk_effect_delete_cases [of op kv]
  by (cases op rule: op_cases; auto simp: sk_effects setPrevReqId_def setShardOf_def)+

lemma sk_ok_set [simp]:
  "sk_ok kv \<Longrightarrow> sk_ok (setPrevReqId kv op)" "sk_ok kv \<Longrightarrow> sk_ok (setShardOf kv key v)"
  by (auto simp: sk_ok_def setPrevReqId_def setShardOf_def shardOf_def distinct_update)

lemma sk_effect_ok [simp]: "sk_ok kv \<Longrightarrow> op_ok op \<Longrightarrow> sk_ok (sk_effect kv op)"
  by (cases op rule: op_cases) (auto simp: sk_effects, auto simp: sk_ok_def op_ok_def)

lemma applySwitchOp_total:
  assumes "sk_ok kv" and "op_ok op"
  shows "\<exists>res1 sp. applySwitchOp kv op res = Inr (sk_effect kv op, res1, sp)"
proof -
  have "\<exists>p. applySwitchOp kv op res = Inr p"
  proof (cases "o_Command op = CDELETE")
    case True
    with assms show ?thesis
      by (simp add: applySwitchOp_def applyDelete_def sk_ok_def op_ok_def go_index_def go_set_def)
  qed (simp add: applySwitchOp_def split_def del: split_paired_Ex)
  then show ?thesis using applySwitchOp_effect by (metis prod_cases3)
qed

text \<open>Configuration numbers only grow, by one at a time, and only by a change.\<close>

lemma sk_effect_config:
  "sk_config (sk_effect kv op) = sk_config kv
   \<or> o_Command op = CCHANGE \<and> cf_Num (o_Config op) = cf_Num (sk_config kv) + 1
      \<and> sk_config (sk_effect kv op) = o_Config op"
  using sk_effect_delete_cases [of op kv]
  by (cases op rule: op_cases) (auto simp: sk_effects setPrevReqId_def setShardOf_def)

lemma sk_effect_num_mono: "cf_Num (sk_config kv) \<le> cf_Num (sk_config (sk_effect kv op))"
  using sk_effect_config [of kv op] by auto

subsection \<open>At most once\<close>

definition sk_last :: "ShardKV \<Rightarrow> int \<Rightarrow> int option" where
  "sk_last kv = map_of (sk_prevReq kv)"

definition executes :: "ShardKV \<Rightarrow> Op ApplyMsg \<Rightarrow> bool" where
  "executes kv m \<longleftrightarrow> is_write (Command m) \<and> \<not> isWrongGroup kv (o_Key (Command m)) \<and> isNew kv (Command m)"

lemma isNew_iff: "isNew kv op \<longleftrightarrow> sk_last kv (o_ClientId op) < Some (o_RequestId op)"
  by (auto simp: isNew_def sk_last_def split: option.splits)

lemma sk_last_setPrevReqId [simp]:
  "sk_last (setPrevReqId kv op) = (sk_last kv)(o_ClientId op \<mapsto> o_RequestId op)"
  by (simp add: sk_last_def setPrevReqId_def update_conv')

lemma sk_last_setShardOf [simp]: "sk_last (setShardOf kv key v) = sk_last kv"
  by (simp add: sk_last_def setShardOf_def)

lemma sk_effect_grows: "sk_last kv k \<le> sk_last (sk_effect kv op) k"
proof (cases op rule: op_cases)
  case Change
  then show ?thesis by (simp add: sk_effect_change) (simp add: sk_last_def mergePrev_grows)
next
  case Delete
  then have "sk_last (sk_effect kv op) = sk_last kv"
    using sk_effect_delete_cases [of op kv] by (auto simp: sk_last_def)
  then show ?thesis by simp
qed (auto simp: sk_effects isNew_iff)

interpretation writes: at_most_once sk_step "\<lambda>m. o_ClientId (Command m)" "\<lambda>m. Some (o_RequestId (Command m))"
    sk_last executes
proof
  fix kv m kv' k
  assume st: "sk_step kv m = Inr kv'"
  then have "sk_last kv' = sk_last (sk_effect kv (Command m))"
    by (rule sk_step_Inr) (simp add: sk_last_def)
  then show "sk_last kv k \<le> sk_last kv' k" by (simp add: sk_effect_grows)
  assume "executes kv m"
  with \<open>sk_last kv' = _\<close> show "Some (o_RequestId (Command m)) \<le> sk_last kv' (o_ClientId (Command m))"
    by (auto simp: executes_def is_write_def sk_effect_put sk_effect_append)
qed (simp add: executes_def isNew_iff)

text \<open>The sharded store as one map, and the effect of a write on it.\<close>

definition sk_view :: "ShardKV \<Rightarrow> string \<Rightarrow> string option" where
  "sk_view kv key = map_of (shardOf kv key) key"

definition sk_write :: "(string \<Rightarrow> string option) \<Rightarrow> Op \<Rightarrow> string \<Rightarrow> string option" where
  "sk_write v op =
     v(o_Key op \<mapsto> (if o_Command op = CPUT then o_Value op
                     else (case v (o_Key op) of None \<Rightarrow> [] | Some old \<Rightarrow> old) @ o_Value op))"

lemma sk_view_setShardOf [simp]:
  "sk_ok kv \<Longrightarrow> sk_view (setShardOf kv key v) = (sk_view kv)(key \<mapsto> v)"
  by (auto simp: fun_eq_iff sk_view_def shardOf_def setShardOf_def update_conv' sk_ok_def nth_list_update)

lemma sk_view_setPrevReqId [simp]: "sk_view (setPrevReqId kv op) = sk_view kv"
  by (simp add: fun_eq_iff sk_view_def shardOf_def setPrevReqId_def)

lemma sk_view_chans [simp]: "sk_view (kv\<lparr>sk_chans := ch\<rparr>) = sk_view kv"
  by (simp add: fun_eq_iff sk_view_def shardOf_def)

lemma sk_ok_chans [simp]: "sk_ok (kv\<lparr>sk_chans := ch\<rparr>) = sk_ok kv"
  by (simp add: sk_ok_def)

lemma client_op_effect:
  assumes "sk_ok kv" and "client_op (Command m)"
  shows "sk_ok (sk_effect kv (Command m))
    \<and> sk_view (sk_effect kv (Command m)) = (if executes kv m then sk_write (sk_view kv) (Command m) else sk_view kv)"
  using assms
  by (auto simp: client_op_def is_write_def executes_def sk_effect_get sk_effect_put sk_effect_append sk_write_def
      mget0_def fun_eq_iff)
    (auto simp: sk_view_def)

lemma client_log_view:
  assumes "go_foldM sk_step kv log = Inr kv'" and "sk_ok kv" and "\<forall>m \<in> set log. client_op (Command m)"
  shows "sk_view kv' = foldl sk_write (sk_view kv) (map Command (executed_cmds sk_step executes kv log))"
  using assms
proof (induction log arbitrary: kv)
  case (Cons m log)
  then obtain kv1 where st: "sk_step kv m = Inr kv1" "go_foldM sk_step kv1 log = Inr kv'" by auto
  from client_op_effect [of kv m] Cons.prems
  have "sk_ok kv1 \<and> sk_view kv1 = (if executes kv m then sk_write (sk_view kv) (Command m) else sk_view kv)"
    by (auto intro: sk_step_Inr [OF st(1)])
  with Cons.IH [OF st(2)] Cons.prems(3) st(1) show ?case by simp
qed simp

subsection \<open>Results and channels\<close>

text \<open>
  The operations the code itself puts into the log: requests of clerks, and changes and deletions,
  which carry no request number.
\<close>

definition op_wf :: "Op \<Rightarrow> bool" where
  "op_wf op \<longleftrightarrow> op_ok op \<and> (client_op op \<or> (o_Command op = CCHANGE \<or> o_Command op = CDELETE) \<and> o_RequestId op = 0)"

text \<open>
  The goroutines of one server, interleaved: the applier reads message \<open>k\<close>, handlers propose,
  receive a result, or are asked to delete a shard, \<open>catchUp\<close> queries the controller, and the
  embedded OmniPaxos server changes as it likes.
\<close>

inductive replica_step :: "ShardKV \<times> int \<Rightarrow> ShardKV \<times> int \<Rightarrow> bool" where
  rs_apply: "op_wf (Command m) \<Longrightarrow> CommandIndex m = k \<Longrightarrow> applier kv m = Inr (kv', sp) \<Longrightarrow>
    replica_step (kv, k) (kv', k + 1)"
| rs_propose: "proposeOp kv op = Inr (kv', ms, r) \<Longrightarrow> replica_step (kv, k) (kv', k)"
| rs_receive: "awaitResult kv op i = Some (kv', r) \<Longrightarrow> replica_step (kv, k) (kv', k)"
| rs_delete: "Delete kv args = Inr (kv', ms, e) \<Longrightarrow> replica_step (kv, k) (kv', k)"
| rs_query: "queryConf kv num replies = Some (kv', c) \<Longrightarrow> replica_step (kv, k) (kv', k)"
| rs_rpc: "replica_step (kv, k) (kv\<lparr>sk_op := rf\<rparr>, k)"

definition replica_init :: "int \<Rightarrow> ShardKV \<times> int \<Rightarrow> bool" where
  "replica_init gid s \<longleftrightarrow> (\<exists>n me ps rnd. StartShardKV n me ps gid rnd = Inr (fst s)) \<and> snd s = 0"

definition chan :: "ShardKV \<Rightarrow> int \<Rightarrow> ShardResult list" where
  "chan kv i = mget0 [] (sk_chans kv) i"

text \<open>A waiting success of a client's request is backed by the table of executed requests.\<close>

definition backed :: "ShardKV \<Rightarrow> ShardResult \<Rightarrow> bool" where
  "backed kv res \<longleftrightarrow> (r_Err res = OK \<longrightarrow> r_RequestId res \<noteq> 0 \<longrightarrow> Some (r_RequestId res) \<le> sk_last kv (r_ClientId res))"

definition replica_ok :: "ShardKV \<times> int \<Rightarrow> bool" where
  "replica_ok = (\<lambda>(kv, k). sk_ok kv \<and> (\<forall>i \<ge> k. chan kv i = []) \<and> (\<forall>i. length (chan kv i) \<le> 1)
     \<and> (\<forall>i. \<forall>res \<in> set (chan kv i). backed kv res))"

lemma chan_mput [simp]: "chan (kv\<lparr>sk_chans := mput i q (sk_chans kv)\<rparr>) = (chan kv)(i := q)"
  by (auto simp: fun_eq_iff chan_def mget0_def update_conv')

lemma sendResult_chan:
  "sendResult kv i res = (if chan kv i = [] then Inr (kv\<lparr>sk_chans := mput i [res] (sk_chans kv)\<rparr>) else Inl SBlocked)"
  by (auto simp: sendResult_def chan_def mget0_def split: option.splits list.splits)

lemma chan_frame [simp]: "chan (sk_effect kv op) = chan kv"
  by (simp add: chan_def fun_eq_iff)

lemma errs_distinct [simp]:
  "ErrWrongGroup \<noteq> OK" "ErrNoKey \<noteq> OK" "ErrTryAgain \<noteq> OK" "ErrTimeout \<noteq> OK" "ErrNotLeader \<noteq> OK"
  "ErrWrongGroup \<noteq> ErrNoKey" "OK \<noteq> []"
  by (simp_all add: ErrWrongGroup_def ErrNoKey_def ErrTryAgain_def ErrTimeout_def ErrNotLeader_def OK_def)

text \<open>The result of an operation names its request; a success of a client means it is recorded.\<close>

lemma applySwitchOp_result:
  assumes "applySwitchOp kv op res = Inr (kv1, res1, sp)" and "op_wf op"
    and "r_ClientId res = o_ClientId op" "r_RequestId res = o_RequestId op"
  shows "backed kv1 res1" and "r_ClientId res1 = o_ClientId op" and "r_RequestId res1 = o_RequestId op"
proof -
  have kv1: "kv1 = sk_effect kv op" using assms(1) by (rule applySwitchOp_effect)
  have ids: "r_ClientId res1 = o_ClientId op \<and> r_RequestId res1 = o_RequestId op"
    using assms(1,3,4)
    by (auto simp: applySwitchOp_def applyChange_def applyGet_def applyPut_def applyAppend_def Let_def
        split: if_splits option.splits)
  then show "r_ClientId res1 = o_ClientId op" "r_RequestId res1 = o_RequestId op" by auto
  show "backed kv1 res1"
  proof (cases "client_op op \<and> r_Err res1 = OK")
    case True
    then have "\<not> isWrongGroup kv (o_Key op)"
      using assms(1) by (auto simp: applySwitchOp_def applyGet_def applyPut_def applyAppend_def client_op_def is_write_def
          split: if_splits)
    with True have "Some (o_RequestId op) \<le> sk_last kv1 (o_ClientId op)"
      by (auto simp: kv1 client_op_def is_write_def sk_effect_get sk_effect_put sk_effect_append isNew_iff)
    with ids show ?thesis by (simp add: backed_def)
  qed (use assms(2) ids in \<open>auto simp: backed_def op_wf_def\<close>)
qed

lemma backed_mono: "backed kv res \<Longrightarrow> (\<And>c. sk_last kv c \<le> sk_last kv' c) \<Longrightarrow> backed kv' res"
  by (auto simp: backed_def intro: order_trans)

lemma backed_eq: "sk_prevReq kv' = sk_prevReq kv \<Longrightarrow> backed kv' = backed kv"
  by (simp add: backed_def sk_last_def fun_eq_iff)

text \<open>Message \<open>k\<close> is applied: its result is the first one for its channel.\<close>

lemma applier_next:
  assumes "replica_ok (kv, k)" and "op_wf (Command m)" and "CommandIndex m = k"
  obtains res sp where
    "applier kv m = Inr ((sk_effect kv (Command m))\<lparr>sk_chans := mput k [res] (sk_chans (sk_effect kv (Command m)))\<rparr>, sp)"
    "backed (sk_effect kv (Command m)) res" "r_ClientId res = o_ClientId (Command m)"
    "r_RequestId res = o_RequestId (Command m)"
proof -
  let ?res = "zero_ShardResult\<lparr>r_Command := o_Command (Command m), r_Err := OK, r_ClientId := o_ClientId (Command m),
      r_RequestId := o_RequestId (Command m)\<rparr>"
  from assms have "sk_ok kv" "op_ok (Command m)" "chan kv k = []" by (auto simp: replica_ok_def op_wf_def)
  from applySwitchOp_total [OF this(1,2)] obtain res sp
    where sw: "applySwitchOp kv (Command m) ?res = Inr (sk_effect kv (Command m), res, sp)" by blast
  from applySwitchOp_result [OF sw assms(2)] that [of res sp] sw \<open>chan kv k = []\<close> assms(3) show ?thesis
    by (simp add: applier_def or_panic_def sendResult_chan)
qed

lemma replica_ok_apply:
  assumes "replica_ok (kv, k)" and "op_wf (Command m)" and "CommandIndex m = k" and "applier kv m = Inr (kv', sp)"
  shows "replica_ok (kv', k + 1)"
proof -
  from applier_next [OF assms(1-3)] assms(4) obtain res where
    kv': "kv' = (sk_effect kv (Command m))\<lparr>sk_chans := mput k [res] (sk_chans (sk_effect kv (Command m)))\<rparr>"
    and b: "backed (sk_effect kv (Command m)) res" by (metis Inr_inject Pair_inject)
  have "backed kv' = backed (sk_effect kv (Command m))" by (rule backed_eq) (simp add: kv')
  moreover have "backed kv r \<Longrightarrow> backed (sk_effect kv (Command m)) r" for r
    by (rule backed_mono, assumption, rule sk_effect_grows)
  ultimately show ?thesis using assms(1,2) b
    by (auto simp: replica_ok_def kv' op_wf_def simp del: sk_effect_frame)
qed

text \<open>A step that only takes results out of channels or creates empty ones keeps the invariant.\<close>

lemma replica_ok_shrink:
  assumes "replica_ok (kv, k)" and "\<And>i. chan kv' i = chan kv i \<or> chan kv' i = tl (chan kv i)"
    and "sk_store kv' = sk_store kv" "sk_prevReq kv' = sk_prevReq kv" "sk_config kv' = sk_config kv"
  shows "replica_ok (kv', k)"
proof -
  have sub: "set (chan kv' i) \<subseteq> set (chan kv i)" "length (chan kv' i) \<le> length (chan kv i)"
    and emp: "chan kv i = [] \<Longrightarrow> chan kv' i = []" for i
    using assms(2) [of i] by (cases "chan kv i"; auto)+
  have "backed kv' = backed kv" using assms(4) by (rule backed_eq)
  with assms(1,3-5) sub emp show ?thesis
    unfolding replica_ok_def sk_ok_def by (fastforce intro: le_trans)
qed

lemma proposeOp_Inr:
  assumes "proposeOp kv op = Inr (kv', ms, r)"
  obtains rf chs where "kv' = kv\<lparr>sk_op := rf, sk_chans := chs\<rparr>" "\<And>i. mget0 [] chs i = mget0 [] (sk_chans kv) i"
proof -
  have empty: "mget0 [] (if map_of (sk_chans kv) ind = None then mput ind [] (sk_chans kv) else sk_chans kv) i
      = mget0 [] (sk_chans kv) i" for ind i
    by (auto simp: mget0_def update_conv')
  from assms obtain rf ind x l where pr: "Proposal (sk_op kv) op = Inr ((rf, ms), (ind, x, l))"
    unfolding proposeOp_def by (auto split: if_splits)
  show ?thesis
  proof (cases l)
    case True
    with assms pr have "kv' = kv\<lparr>sk_op := rf,
        sk_chans := (if map_of (sk_chans kv) ind = None then mput ind [] (sk_chans kv) else sk_chans kv)\<rparr>"
      by (simp add: proposeOp_def del: if_split)
    then show ?thesis by (rule that [OF _ empty [of ind]])
  next
    case False
    with assms pr show ?thesis by (intro that [of "sk_chans kv" rf]) (auto simp: proposeOp_def)
  qed
qed

lemma replica_ok_propose: "replica_ok (kv, k) \<Longrightarrow> proposeOp kv op = Inr (kv', ms, r) \<Longrightarrow> replica_ok (kv', k)"
  by (erule proposeOp_Inr, erule replica_ok_shrink) (auto simp: chan_def)

lemma replica_ok_receive:
  assumes "replica_ok (kv, k)" and "awaitResult kv op i = Some (kv', r)"
  shows "replica_ok (kv', k)"
proof -
  from assms(2) obtain res rest where "map_of (sk_chans kv) i = Some (res # rest)"
    "kv' = kv\<lparr>sk_chans := mput i rest (sk_chans kv)\<rparr>"
    by (auto simp: awaitResult_def split: option.splits list.splits)
  then have "chan kv' j = chan kv j \<or> chan kv' j = tl (chan kv j)" for j
    by (auto simp: chan_def mget0_def update_conv')
  then show ?thesis using \<open>kv' = _\<close> by (intro replica_ok_shrink [OF assms(1)]) auto
qed

lemma Delete_Inr:
  assumes "Delete kv args = Inr (kv', ms, e)"
  obtains "kv' = kv" | op r where "proposeOp kv op = Inr (kv', ms, r)"
  using assms by (auto simp: Delete_def Let_def split: if_splits)

lemma replica_ok_delete: "replica_ok (kv, k) \<Longrightarrow> Delete kv args = Inr (kv', ms, e) \<Longrightarrow> replica_ok (kv', k)"
  by (erule Delete_Inr) (simp, erule (1) replica_ok_propose)

lemma queryConf_Some: "queryConf kv num replies = Some (kv', c) \<Longrightarrow> \<exists>ck. kv' = kv\<lparr>sk_clerk := ck\<rparr>"
  by (auto simp: queryConf_def split: prod.splits option.splits)

lemma replica_ok_step: "replica_step s t \<Longrightarrow> replica_ok s \<Longrightarrow> replica_ok t"
proof (induction rule: replica_step.induct)
  case (rs_query kv num replies kv' c k)
  then obtain ck where "kv' = kv\<lparr>sk_clerk := ck\<rparr>" using queryConf_Some by blast
  then show ?case using replica_ok_shrink [OF rs_query.prems, of kv'] by (simp add: chan_def)
next
  case (rs_rpc kv k rf)
  then show ?case by (rule replica_ok_shrink) (auto simp: chan_def)
qed (auto intro: replica_ok_apply replica_ok_propose replica_ok_receive replica_ok_delete)

lemma replica_ok_init: "replica_init gid s \<Longrightarrow> replica_ok s"
  by (cases s) (auto simp: replica_init_def StartShardKV_def replica_ok_def sk_ok_def chan_def mget0_def zero_config_def)

interpretation replica: inductive_invariant "replica_init gid" replica_step replica_ok for gid
  by unfold_locales (auto intro: replica_ok_init replica_ok_step)

subsection \<open>Properties of a replica\<close>

text \<open>
  C11: writes are executed at most once.  In the run of a replica over any log, reconfigurations
  included, no client's request is executed twice, and none that the replica had already recorded,
  itself or by a transfer, when the run began; and between reconfigurations the ten shards,
  read as one map, are the result of executing exactly these writes in log order.
\<close>
theorem shard_writes_at_most_once:
  assumes "go_foldM sk_step kv log = Inr kv'" and "sk_ok kv"
  shows "let ws = executed_cmds sk_step executes kv log
    in distinct (map (\<lambda>m. (o_ClientId (Command m), o_RequestId (Command m))) ws)
       \<and> (\<forall>m \<in> set ws. sk_last kv (o_ClientId (Command m)) < Some (o_RequestId (Command m))
             \<and> Some (o_RequestId (Command m)) \<le> sk_last kv' (o_ClientId (Command m)))
       \<and> ((\<forall>m \<in> set log. client_op (Command m)) \<longrightarrow> sk_view kv' = foldl sk_write (sk_view kv) (map Command ws))"
proof -
  let ?ws = "executed_cmds sk_step executes kv log"
  have "distinct (map (\<lambda>m. (o_ClientId (Command m), Some (o_RequestId (Command m)))) ?ws)"
    by (rule writes.executed_distinct)
  then have "distinct (map (\<lambda>m. (o_ClientId (Command m), o_RequestId (Command m))) ?ws)"
    by (auto simp: distinct_map inj_on_def)
  moreover have "\<forall>m \<in> set ?ws. sk_last kv (o_ClientId (Command m)) < Some (o_RequestId (Command m))
             \<and> Some (o_RequestId (Command m)) \<le> sk_last kv' (o_ClientId (Command m))"
    using writes.executed_above writes.executed_recorded [OF assms(1)] by blast
  ultimately show ?thesis
    using client_log_view [OF assms] unfolding Let_def by blast
qed

text \<open>
  C13: the applier never waits for ever on a channel.  Whatever proposals, receivers, deletions,
  queries and protocol messages are interleaved with it, the next message of the log is applied
  without a panic, its result goes into an empty channel, and it names the request it answers.
\<close>
theorem applier_never_blocks:
  assumes "reach (replica_init gid) replica_step (kv, k)" and "op_wf (Command m)" and "CommandIndex m = k"
  shows "\<exists>kv' sp res. applier kv m = Inr (kv', sp) \<and> chan kv' k = [res] \<and> sk_ok kv'
    \<and> r_ClientId res = o_ClientId (Command m) \<and> r_RequestId res = o_RequestId (Command m)"
proof -
  have "replica_ok (kv, k)" using assms(1) by (rule replica.reach_inv)
  from applier_next [OF this assms(2,3)] obtain res sp where
    "applier kv m = Inr ((sk_effect kv (Command m))\<lparr>sk_chans := mput k [res] (sk_chans (sk_effect kv (Command m)))\<rparr>, sp)"
    "r_ClientId res = o_ClientId (Command m)" "r_RequestId res = o_RequestId (Command m)" by metis
  moreover from \<open>replica_ok (kv, k)\<close> assms(2) have "sk_ok (sk_effect kv (Command m))"
    by (simp add: replica_ok_def op_wf_def)
  ultimately show ?thesis by (simp del: sk_effect_frame)
qed

text \<open>
  C12: an acknowledged write has been executed.  When a handler that proposed a write receives a
  successful result, at whatever index it was told to wait, the table of executed requests of the
  replica contains the request.
\<close>
theorem acknowledged_write_is_recorded:
  assumes "reach (replica_init gid) replica_step (kv, k)" and "awaitResult kv op i = Some (kv', res)"
    and "client_op op" and "o_RequestId op \<noteq> 0" and "r_Err res = OK"
  shows "Some (o_RequestId op) \<le> sk_last kv' (o_ClientId op)"
proof -
  have "replica_ok (kv, k)" using assms(1) by (rule replica.reach_inv)
  from assms(2) obtain got rest where "chan kv i = got # rest" and kv': "sk_prevReq kv' = sk_prevReq kv"
    and res: "res = (if expected op got then got else zero_ShardResult\<lparr>r_Err := ErrTryAgain\<rparr>)"
    by (auto simp: awaitResult_def chan_def mget0_def split: option.splits list.splits)
  with \<open>replica_ok (kv, k)\<close> have "backed kv got"
    by (auto simp: replica_ok_def dest!: spec [of _ i])
  moreover have "got = res" "o_ClientId op = r_ClientId got" "o_RequestId op = r_RequestId got"
    using res assms(3-5) by (auto simp: expected_def client_op_def is_write_def split: if_splits)
  ultimately show ?thesis using assms(4,5) kv' by (simp add: backed_def sk_last_def)
qed

text \<open>A group 1 that takes all shards in configuration 1 and then reads a log with a repeated write.\<close>

definition sk_started :: "int \<Rightarrow> ShardKV" where
  "sk_started gid = \<lparr>sk_me = 0, sk_op = freshServer 3 0 MakePersister zero_os, sk_gid = gid, sk_config = zero_config,
     sk_store = emptyStore, sk_prevReq = [], sk_chans = [], sk_clerk = MakeCtrlClerk 0\<rparr>"

definition all_to :: "int \<Rightarrow> Config" where
  "all_to gid = \<lparr>cf_Num = 1, cf_Shards = replicate NShards gid, cf_Groups = [(gid, [''srv''])]\<rparr>"

definition op_msg :: "int \<Rightarrow> Op \<Rightarrow> Op ApplyMsg" where
  "op_msg i op = \<lparr>CommandValid = True, Command = op, CommandIndex = i\<rparr>"

definition change_op :: "Config \<Rightarrow> Op" where
  "change_op conf = zero_Op\<lparr>o_Command := CCHANGE, o_Config := conf\<rparr>"

definition sk_log :: "Op ApplyMsg list" where
  "sk_log = [op_msg 0 (change_op (all_to 1)), op_msg 1 (putAppendOp CAPPEND ''x'' ''a'' 7 1),
     op_msg 2 (putAppendOp CAPPEND ''x'' ''a'' 7 1), op_msg 3 (putAppendOp CAPPEND ''x'' ''b'' 7 2)]"

lemma start_sk: "replica_init gid (sk_started gid, 0)"
proof -
  have "StartShardKV 3 0 MakePersister gid 0 = Inr (sk_started gid)"
    by (simp add: StartShardKV_def Make_fresh sk_started_def)
  then show ?thesis by (auto simp: replica_init_def)
qed

lemma sk_log_wf: "m \<in> set sk_log \<Longrightarrow> op_wf (Command m)"
  by (auto simp: sk_log_def op_msg_def change_op_def all_to_def putAppendOp_def op_wf_def op_ok_def client_op_def
      is_write_def zero_Op_def zero_config_def NShards_def store_ok_def)

lemma sk_log_run:
  "(case go_foldM sk_step (sk_started 1) sk_log of
      Inr kv \<Rightarrow> Some (sk_view kv ''x'', length (executed_cmds sk_step executes (sk_started 1) sk_log)) | Inl _ \<Rightarrow> None)
   = Some (Some ''ab'', 2)"
  by code_simp

lemma reach_log:
  assumes "reach (replica_init gid) replica_step (kv, k)" and "go_foldM sk_step kv log = Inr kv'"
    and "\<forall>i < length log. op_wf (Command (log ! i)) \<and> CommandIndex (log ! i) = k + int i"
  shows "reach (replica_init gid) replica_step (kv', k + int (length log))"
  using assms
proof (induction log arbitrary: kv k)
  case (Cons m log)
  then obtain kv1 where kv1: "sk_step kv m = Inr kv1" "go_foldM sk_step kv1 log = Inr kv'" by auto
  then obtain sp where st: "applier kv m = Inr (kv1, sp)" by (auto simp: sk_step_def)
  have "op_wf (Command m)" "CommandIndex m = k" using Cons.prems(3) by auto
  then have "replica_step (kv, k) (kv1, k + 1)" using st by (rule rs_apply)
  with Cons.prems(1) have "reach (replica_init gid) replica_step (kv1, k + 1)" by (rule reach_step)
  moreover have "\<forall>i < length log. op_wf (Command (log ! i)) \<and> CommandIndex (log ! i) = k + 1 + int i"
    using Cons.prems(3) by (fastforce simp: All_less_Suc2)
  ultimately have "reach (replica_init gid) replica_step (kv', k + 1 + int (length log))"
    by (rule Cons.IH [OF _ kv1(2)])
  then show ?case by (simp add: algebra_simps)
qed simp

text \<open>A whole log is read to its end.\<close>

lemma sk_log_total:
  assumes "reach (replica_init gid) replica_step (kv, k)"
    and "\<forall>i < length log. op_wf (Command (log ! i)) \<and> CommandIndex (log ! i) = k + int i"
  shows "\<exists>kv'. go_foldM sk_step kv log = Inr kv' \<and> reach (replica_init gid) replica_step (kv', k + int (length log))"
proof -
  have "\<exists>kv'. go_foldM sk_step kv log = Inr kv'"
    using assms
  proof (induction log arbitrary: kv k)
    case (Cons m log)
    then have m: "op_wf (Command m)" "CommandIndex m = k" by auto
    from applier_next [OF replica.reach_inv [OF Cons.prems(1)] m] obtain kv1 sp
      where ap: "applier kv m = Inr (kv1, sp)" by metis
    have "reach (replica_init gid) replica_step (kv1, k + 1)"
      by (rule reach_step [OF Cons.prems(1) rs_apply [OF m ap]])
    moreover have "\<forall>i < length log. op_wf (Command (log ! i)) \<and> CommandIndex (log ! i) = k + 1 + int i"
      using Cons.prems(2) by (fastforce simp: All_less_Suc2)
    ultimately obtain kv' where "go_foldM sk_step kv1 log = Inr kv'" using Cons.IH by blast
    moreover have "sk_step kv m = Inr kv1" using ap by (simp add: sk_step_def)
    ultimately show ?case by simp
  qed simp
  then show ?thesis using reach_log [OF assms(1) _ assms(2)] by blast
qed

theorem shard_writes_at_most_once_witness:
  "\<exists>kv'. go_foldM sk_step (sk_started 1) sk_log = Inr kv' \<and> sk_view kv' ''x'' = Some ''ab''
     \<and> distinct (map (\<lambda>m. (o_ClientId (Command m), o_RequestId (Command m))) (executed_cmds sk_step executes (sk_started 1) sk_log))
     \<and> length (executed_cmds sk_step executes (sk_started 1) sk_log) = 2"
proof -
  from sk_log_run obtain kv' where r: "go_foldM sk_step (sk_started 1) sk_log = Inr kv'" "sk_view kv' ''x'' = Some ''ab''"
    "length (executed_cmds sk_step executes (sk_started 1) sk_log) = 2"
    by (cases "go_foldM sk_step (sk_started 1) sk_log") auto
  have "sk_ok (sk_started 1)" using replica_ok_init [OF start_sk] by (simp add: replica_ok_def)
  from shard_writes_at_most_once [OF r(1) this] r show ?thesis by (auto simp: Let_def)
qed

theorem applier_never_blocks_witness:
  "\<exists>kv' sp res. applier (sk_started 1) (op_msg 0 (change_op (all_to 1))) = Inr (kv', sp) \<and> chan kv' 0 = [res]"
proof -
  have "op_wf (Command (op_msg 0 (change_op (all_to 1))))" by (rule sk_log_wf) (simp add: sk_log_def)
  from applier_never_blocks [OF reach_init [of "replica_init 1", OF start_sk] this] show ?thesis
    by (auto simp: op_msg_def)
qed

lemma sk_log_answer:
  "(case go_foldM sk_step (sk_started 1) sk_log of
      Inr kv \<Rightarrow> map_option (\<lambda>(_, res). r_Err res) (awaitResult kv (putAppendOp CAPPEND ''x'' ''b'' 7 2) 3) | Inl _ \<Rightarrow> None)
   = Some OK"
  by code_simp

theorem acknowledged_write_is_recorded_witness:
  "\<exists>kv kv' res. go_foldM sk_step (sk_started 1) sk_log = Inr kv
     \<and> awaitResult kv (putAppendOp CAPPEND ''x'' ''b'' 7 2) 3 = Some (kv', res) \<and> Some 2 \<le> sk_last kv' 7"
proof -
  from sk_log_answer obtain kv kv' res where r: "go_foldM sk_step (sk_started 1) sk_log = Inr kv"
    "awaitResult kv (putAppendOp CAPPEND ''x'' ''b'' 7 2) 3 = Some (kv', res)" "r_Err res = OK"
    by (cases "go_foldM sk_step (sk_started 1) sk_log") auto
  have "map CommandIndex sk_log = map int [0..<length sk_log]" by code_simp
  then have "\<forall>i < length sk_log. CommandIndex (sk_log ! i) = int i"
    by (metis add_0 diff_zero length_upt nth_map nth_upt)
  then have idx: "\<forall>i < length sk_log. op_wf (Command (sk_log ! i)) \<and> CommandIndex (sk_log ! i) = 0 + int i"
    using sk_log_wf by simp
  have "client_op (putAppendOp CAPPEND ''x'' ''b'' 7 2)" "o_ClientId (putAppendOp CAPPEND ''x'' ''b'' 7 2) = 7"
    "o_RequestId (putAppendOp CAPPEND ''x'' ''b'' 7 2) = 2"
    by (simp_all add: putAppendOp_def client_op_def is_write_def)
  with acknowledged_write_is_recorded
      [OF reach_log [OF reach_init [of "replica_init 1", OF start_sk] r(1) idx] r(2) _ _ r(3)] r(1,2)
  show ?thesis by simp
qed

end
