(* ===== verification/Migration.thy ===== *)
theory Migration
  imports ShardReplica
begin

text \<open>
  Moving shards between groups: what \<open>getChangeOp\<close> collects from the groups that lose shards, what
  the resulting operation does to the group that receives them, who serves a shard in a system of
  groups that follow the controller one configuration at a time, and the loop of \<open>catchUp\<close>.
\<close>

subsection \<open>The shards to fetch\<close>

definition moves :: "ShardKV \<Rightarrow> int list \<Rightarrow> int \<Rightarrow> nat \<Rightarrow> bool" where
  "moves kv shards g i \<longleftrightarrow>
     cf_Shards (sk_config kv) ! i = g \<and> g \<noteq> sk_gid kv \<and> g \<noteq> 0 \<and> shards ! i = sk_gid kv"

abbreviation wanted :: "ShardKV \<Rightarrow> int list \<Rightarrow> nat list \<Rightarrow> int \<Rightarrow> nat list" where
  "wanted kv shards xs g \<equiv> filter (moves kv shards g) xs"

definition add_shard :: "ShardKV \<Rightarrow> int list \<Rightarrow> nat \<Rightarrow> (int, nat list) gomap \<Rightarrow> (int, nat list) gomap" where
  "add_shard kv shards i m =
     (let gid = cf_Shards (sk_config kv) ! i
      in if moves kv shards gid i then mput gid (mget0 [] m gid @ [i]) m else m)"

lemma shardsToTransfer_fold: "shardsToTransfer kv shards = fold (add_shard kv shards) [0..<NShards] []"
  unfolding shardsToTransfer_def
  by (rule arg_cong [of _ _ "\<lambda>f. fold f [0..<NShards] []"]) (auto simp: fun_eq_iff add_shard_def moves_def Let_def)

lemma add_shard_fold:
  "mget0 [] (fold (add_shard kv shards) xs []) g = wanted kv shards xs g
   \<and> gomap_ok (fold (add_shard kv shards) xs [])
   \<and> (map_of (fold (add_shard kv shards) xs []) g = None \<longleftrightarrow> wanted kv shards xs g = [])"
proof (induction xs arbitrary: g rule: rev_induct)
  case Nil
  show ?case by (simp add: mget0_def)
next
  case (snoc i xs)
  define m where "m = fold (add_shard kv shards) xs []"
  from snoc.IH have m: "mget0 [] m g = wanted kv shards xs g" "gomap_ok m"
    "map_of m g = None \<longleftrightarrow> wanted kv shards xs g = []" for g
    by (simp_all add: m_def)
  have "mget0 [] (add_shard kv shards i m) g = wanted kv shards (xs @ [i]) g"
    using m(1) by (auto simp: add_shard_def Let_def mget0_def update_conv' moves_def)
  moreover have "gomap_ok (add_shard kv shards i m)"
    using m(2) by (simp add: add_shard_def Let_def distinct_update)
  moreover have "map_of (add_shard kv shards i m) g = None \<longleftrightarrow> wanted kv shards (xs @ [i]) g = []"
    using m(3) by (auto simp: add_shard_def Let_def update_conv' moves_def)
  ultimately show ?case by (simp add: m_def)
qed

lemma shardsToTransfer_spec:
  "map_of (shardsToTransfer kv shards) g =
     (if wanted kv shards [0..<NShards] g = [] then None else Some (wanted kv shards [0..<NShards] g))"
  "gomap_ok (shardsToTransfer kv shards)"
  using add_shard_fold [of kv shards "[0..<NShards]" g]
  by (auto simp: shardsToTransfer_fold mget0_def split: option.splits)

lemma shardsToTransfer_mem:
  "(g, ids) \<in> set (shardsToTransfer kv shards) \<longleftrightarrow> ids = wanted kv shards [0..<NShards] g \<and> ids \<noteq> []"
proof -
  have "(g, ids) \<in> set (shardsToTransfer kv shards) \<longleftrightarrow> map_of (shardsToTransfer kv shards) g = Some ids"
    using shardsToTransfer_spec(2) by (metis map_of_eq_Some_iff)
  then show ?thesis by (auto simp: shardsToTransfer_spec)
qed

subsection \<open>Asking a group\<close>

text \<open>A server that answers does so with \<open>Transfer\<close> in the state it is in; others do not answer.\<close>

abbreviation served_by :: "(string \<Rightarrow> ShardKV option) \<Rightarrow> string \<Rightarrow> TransferArgs \<Rightarrow> TransferReply option" where
  "served_by state srv args \<equiv> map_option (\<lambda>d. Transfer d args) (state srv)"

definition states_ok :: "(string \<Rightarrow> ShardKV option) \<Rightarrow> bool" where
  "states_ok state \<longleftrightarrow> (\<forall>srv d. state srv = Some d \<longrightarrow> sk_ok d)"

text \<open>What a fetched reply holds of the state \<open>d\<close> of the server that answered.\<close>

definition reply_of :: "ShardKV \<Rightarrow> TransferReply \<Rightarrow> bool" where
  "reply_of d reply \<longleftrightarrow> store_ok (tr_Store reply) \<and> gomap_ok (tr_Prev reply)
     \<and> (\<forall>i < NShards. map_of (tr_Store reply ! i) = map_of (sk_store d ! i))
     \<and> map_of (tr_Prev reply) = map_of (sk_prevReq d)"

lemma copyMapStr_nil [simp]: "copyMapStr [] m = m"
  by (simp add: copyMapStr_def)

lemma copyMapInt_nil [simp]: "copyMapInt [] m = m"
  by (simp add: copyMapInt_def)

lemma map2_copy_nil [simp]: "length st = NShards \<Longrightarrow> map2 copyMapStr (replicate NShards []) st = st"
  by (rule nth_equalityI) simp_all

lemma decodeInto_refused:
  "length (tr_Store reply) = NShards \<Longrightarrow>
     decodeInto reply (zero_TransferReply\<lparr>tr_Err := ErrTryAgain\<rparr>) = reply\<lparr>tr_Err := ErrTryAgain\<rparr>"
  by (simp add: decodeInto_def zero_TransferReply_def ErrTryAgain_def)

lemma decodeInto_served:
  assumes "sk_ok d" and "ta_Num args \<le> cf_Num (sk_config d)"
    and "tr_Store reply = replicate NShards []" "tr_Prev reply = []"
  shows "reply_of d (decodeInto reply (Transfer d args))" and "tr_Err (decodeInto reply (Transfer d args)) = OK"
proof -
  let ?st = "map (\<lambda>i. copyMapStr (sk_store d ! i) []) [0..<NShards]"
  have "store_ok ?st" using assms(1) by (auto simp: store_ok_def sk_ok_def)
  moreover have "\<forall>i < NShards. map_of (?st ! i) = map_of (sk_store d ! i)"
    using assms(1) by (simp add: sk_ok_def)
  moreover have "gomap_ok (sk_prevReq d)" using assms(1) by (simp add: sk_ok_def)
  ultimately show "reply_of d (decodeInto reply (Transfer d args))"
    using assms by (simp add: reply_of_def decodeInto_def Transfer_def)
  show "tr_Err (decodeInto reply (Transfer d args)) = OK"
    using assms by (simp add: decodeInto_def Transfer_def)
qed

lemma askServers_result:
  assumes "askServers (served_by state) args servers reply = (sent, reply')"
    and "states_ok state" and "tr_Store reply = replicate NShards []" "tr_Prev reply = []"
  shows "(if sent then \<exists>srv \<in> set servers. \<exists>d. state srv = Some d \<and> ta_Num args \<le> cf_Num (sk_config d) \<and> reply_of d reply'
          else tr_Store reply' = replicate NShards [] \<and> tr_Prev reply' = [])"
  using assms
proof (induction servers arbitrary: reply)
  case (Cons srv servers)
  show ?case
  proof (cases "state srv")
    case None
    with Cons show ?thesis by fastforce
  next
    case (Some d)
    with Cons.prems(2) have "sk_ok d" by (auto simp: states_ok_def)
    show ?thesis
    proof (cases "ta_Num args \<le> cf_Num (sk_config d)")
      case True
      note served = decodeInto_served [OF \<open>sk_ok d\<close> True Cons.prems(3,4)]
      with Cons.prems(1) Some have "sent" "reply' = decodeInto reply (Transfer d args)" by (auto simp: Let_def)
      with served Some True show ?thesis by auto
    next
      case False
      with Cons.prems Some have "askServers (served_by state) args servers (reply\<lparr>tr_Err := ErrTryAgain\<rparr>) = (sent, reply')"
        by (simp add: Transfer_def decodeInto_refused)
      from Cons.IH [OF this] Cons.prems(2-4) show ?thesis by (auto split: if_splits)
    qed
  qed
qed auto

subsection \<open>Collecting from all groups\<close>

text \<open>The answer of group \<open>g\<close>, as the goroutine for \<open>g\<close> obtains it.\<close>

definition fetched :: "ShardKV \<Rightarrow> Config \<Rightarrow> (string \<Rightarrow> TransferArgs \<Rightarrow> TransferReply option) \<Rightarrow> int \<times> nat list
    \<Rightarrow> bool \<times> TransferReply" where
  "fetched kv conf answers = (\<lambda>(gid, shardIds).
     askServers answers \<lparr>ta_Num = cf_Num conf, ta_ShardIds = shardIds\<rparr>
       (mget0 [] (cf_Groups (sk_config kv)) gid) zero_TransferReply)"

lemma fetchGroup_fetched:
  "fetchGroup kv conf answers x (op, ok) =
     (op\<lparr>o_Store := fold (\<lambda>i st. st[i := copyMapStr (tr_Store (snd (fetched kv conf answers x)) ! i) (st ! i)]) (snd x) (o_Store op),
         o_PrevReq := mergePrev (tr_Prev (snd (fetched kv conf answers x))) (o_PrevReq op)\<rparr>,
      ok \<and> fst (fetched kv conf answers x))"
  by (simp add: fetchGroup_def fetched_def split_def Let_def)

lemma fold_copy_nth:
  assumes "distinct ids" and "i < length st"
  shows "fold (\<lambda>i st. st[i := copyMapStr (r ! i) (st ! i)]) ids st ! i =
     (if i \<in> set ids then copyMapStr (r ! i) (st ! i) else st ! i)"
  using assms by (induction ids arbitrary: st) (auto simp: nth_list_update, metis nth_list_update_neq)

lemma fold_copy_ok:
  "store_ok st \<Longrightarrow> set ids \<subseteq> {..<NShards} \<Longrightarrow> store_ok (fold (\<lambda>i st. st[i := copyMapStr (r ! i) (st ! i)]) ids st)"
  by (induction ids arbitrary: st) auto

text \<open>
  The operation built from a list \<open>gs\<close> of groups with disjoint shards, whatever its order: every
  requested shard holds what its group answered, no other shard holds anything, and the table of
  executed requests covers all the answers.
\<close>

definition collected :: "(int \<times> nat list \<Rightarrow> bool \<times> TransferReply) \<Rightarrow> (int \<times> nat list) list \<Rightarrow> Op \<Rightarrow> bool" where
  "collected f gs op \<longleftrightarrow> store_ok (o_Store op) \<and> gomap_ok (o_PrevReq op)
     \<and> (\<forall>i < NShards. (\<forall>x \<in> set gs. i \<notin> set (snd x)) \<longrightarrow> o_Store op ! i = [])
     \<and> (\<forall>x \<in> set gs. \<forall>i \<in> set (snd x). o_Store op ! i = copyMapStr (tr_Store (snd (f x)) ! i) [])
     \<and> (\<forall>x \<in> set gs. \<forall>c. map_of (tr_Prev (snd (f x))) c \<le> map_of (o_PrevReq op) c)"

definition groups_ok :: "(int \<times> nat list) list \<Rightarrow> bool" where
  "groups_ok gs \<longleftrightarrow> (\<forall>x \<in> set gs. distinct (snd x) \<and> set (snd x) \<subseteq> {..<NShards})
     \<and> (\<forall>x \<in> set gs. \<forall>y \<in> set gs. x \<noteq> y \<longrightarrow> set (snd x) \<inter> set (snd y) = {}) \<and> distinct gs"

lemma collected_step:
  assumes "collected f gs op" and "groups_ok (x # gs)" and "gomap_ok (tr_Prev (snd (f x)))"
    and op': "op' = op\<lparr>o_Store := fold (\<lambda>i st. st[i := copyMapStr (tr_Store (snd (f x)) ! i) (st ! i)]) (snd x) (o_Store op),
         o_PrevReq := mergePrev (tr_Prev (snd (f x))) (o_PrevReq op)\<rparr>"
  shows "collected f (x # gs) op'"
proof -
  note old = assms(1) [unfolded collected_def]
  have ids: "distinct (snd x)" "set (snd x) \<subseteq> {..<NShards}" using assms(2) by (auto simp: groups_ok_def)
  have disj: "i \<in> set (snd x) \<Longrightarrow> y \<in> set gs \<Longrightarrow> i \<notin> set (snd y)" for i y
    using assms(2) by (auto simp: groups_ok_def)
  have nth: "o_Store op' ! i = (if i \<in> set (snd x) then copyMapStr (tr_Store (snd (f x)) ! i) (o_Store op ! i) else o_Store op ! i)"
    if "i < NShards" for i
    using that old fold_copy_nth [OF ids(1)] by (simp add: op')
  have "store_ok (o_Store op')" using old ids(2) by (simp add: op' fold_copy_ok)
  moreover have "gomap_ok (o_PrevReq op')" using old by (simp add: op')
  moreover have "o_Store op' ! i = []" if "i < NShards" "\<forall>y \<in> set (x # gs). i \<notin> set (snd y)" for i
    using that old nth by simp
  moreover have "o_Store op' ! i = copyMapStr (tr_Store (snd (f y)) ! i) []" if "y \<in> set (x # gs)" "i \<in> set (snd y)" for y i
  proof -
    have i: "i < NShards" using that assms(2) by (auto simp: groups_ok_def)
    show ?thesis
    proof (cases "i \<in> set (snd x)")
      case True
      with disj have "\<forall>y \<in> set gs. i \<notin> set (snd y)" by blast
      moreover from this have "y = x" using that by auto
      ultimately show ?thesis using True i old nth by simp
    qed (use that i old nth in auto)
  qed
  moreover have "map_of (tr_Prev (snd (f y))) c \<le> map_of (o_PrevReq op') c" if "y \<in> set (x # gs)" for y c
  proof (cases "y = x")
    case True
    then show ?thesis using assms(3) by (simp add: op' mergePrev_covers)
  next
    case False
    with that old have "map_of (tr_Prev (snd (f y))) c \<le> map_of (o_PrevReq op) c" by auto
    then show ?thesis by (rule order_trans) (simp add: op' mergePrev_grows)
  qed
  ultimately show ?thesis unfolding collected_def by blast
qed

lemma collectedD:
  "collected f gs op \<Longrightarrow> x \<in> set gs \<Longrightarrow> i \<in> set (snd x) \<Longrightarrow> o_Store op ! i = copyMapStr (tr_Store (snd (f x)) ! i) []"
  "collected f gs op \<Longrightarrow> x \<in> set gs \<Longrightarrow> map_of (tr_Prev (snd (f x))) c \<le> map_of (o_PrevReq op) c"
  by (simp_all only: collected_def)

lemma collected_set: "set gs = set hs \<Longrightarrow> collected f gs = collected f hs"
  by (simp add: collected_def fun_eq_iff)

lemma groups_ok_snoc: "groups_ok (gs @ [x]) \<Longrightarrow> groups_ok gs \<and> groups_ok (x # gs)"
  by (auto simp: groups_ok_def)

definition same_request :: "Op \<Rightarrow> Op \<Rightarrow> bool" where
  "same_request op op' \<longleftrightarrow> o_Command op' = o_Command op \<and> o_Config op' = o_Config op
     \<and> o_RequestId op' = o_RequestId op \<and> o_ShardId op' = o_ShardId op"

lemma collected_fold:
  assumes "groups_ok gs" and "\<forall>x. gomap_ok (tr_Prev (snd (fetched kv conf answers x)))"
    and "o_Store op = emptyStore" "o_PrevReq op = []"
    and "fold (fetchGroup kv conf answers) gs (op, True) = (op', ok)"
  shows "collected (fetched kv conf answers) gs op' \<and> ok = (\<forall>x \<in> set gs. fst (fetched kv conf answers x))
     \<and> same_request op op'"
  using assms(1,5)
proof (induction gs arbitrary: op' ok rule: rev_induct)
  case Nil
  with assms(3,4) show ?case
    by (auto simp: collected_def emptyStore_def same_request_def)
next
  case (snoc x gs)
  obtain op1 ok1 where f1: "fold (fetchGroup kv conf answers) gs (op, True) = (op1, ok1)" by fastforce
  with snoc.prems(2) have
    f2: "op' = op1\<lparr>o_Store := fold (\<lambda>i st. st[i := copyMapStr (tr_Store (snd (fetched kv conf answers x)) ! i) (st ! i)]) (snd x) (o_Store op1),
         o_PrevReq := mergePrev (tr_Prev (snd (fetched kv conf answers x))) (o_PrevReq op1)\<rparr>"
      "ok = (ok1 \<and> fst (fetched kv conf answers x))"
    by (simp_all add: fetchGroup_fetched)
  from snoc.IH [OF _ f1] groups_ok_snoc [OF snoc.prems(1)]
  have IH: "collected (fetched kv conf answers) gs op1" "ok1 = (\<forall>x \<in> set gs. fst (fetched kv conf answers x))"
    "same_request op op1" by auto
  have "collected (fetched kv conf answers) (x # gs) op'"
    using groups_ok_snoc [OF snoc.prems(1)] assms(2) by (intro collected_step [OF IH(1) _ _ f2(1)]) blast+
  then have "collected (fetched kv conf answers) (gs @ [x]) op'"
    using collected_set [of "x # gs" "gs @ [x]"] by simp
  moreover have "same_request op op'" using IH(3) f2(1) by (simp add: same_request_def)
  ultimately show ?case using IH(2) f2(2) by auto
qed

lemma groups_ok_transfer:
  assumes "mset gs = mset (shardsToTransfer kv shards)"
  shows "groups_ok gs"
proof -
  have "set gs = set (shardsToTransfer kv shards)" using assms by (rule mset_eq_setD)
  moreover have "distinct gs"
    using assms shardsToTransfer_spec(2) by (metis distinct_map mset_eq_imp_distinct_iff)
  ultimately show ?thesis by (auto simp: groups_ok_def shardsToTransfer_mem moves_def)
qed

lemma fetched_result:
  assumes "states_ok state" and "fetched kv conf (served_by state) (g, ids) = (sent, reply)"
  shows "gomap_ok (tr_Prev reply)"
    and "sent \<Longrightarrow> \<exists>srv \<in> set (mget0 [] (cf_Groups (sk_config kv)) g). \<exists>d. state srv = Some d
           \<and> cf_Num conf \<le> cf_Num (sk_config d) \<and> reply_of d reply"
  using askServers_result [of state "\<lparr>ta_Num = cf_Num conf, ta_ShardIds = ids\<rparr>"
      "mget0 [] (cf_Groups (sk_config kv)) g" zero_TransferReply sent reply] assms
  by (auto simp: fetched_def zero_TransferReply_def reply_of_def split: if_splits)

text \<open>The operation \<open>getChangeOp\<close> builds.\<close>

lemma getChangeOp_spec:
  assumes "states_ok state" and "range_order rng" and "getChangeOp kv conf rng (served_by state) = (op, ok)"
  shows "o_Command op = CCHANGE" and "o_Config op = conf" and "o_RequestId op = 0" and "o_ShardId op = 0"
    and "store_ok (o_Store op)" and "gomap_ok (o_PrevReq op)"
    and "\<And>i. i < NShards \<Longrightarrow> \<forall>g. \<not> moves kv (cf_Shards conf) g i \<Longrightarrow> o_Store op ! i = []"
    and "\<And>i g. ok \<Longrightarrow> i < NShards \<Longrightarrow> moves kv (cf_Shards conf) g i \<Longrightarrow>
      \<exists>srv \<in> set (mget0 [] (cf_Groups (sk_config kv)) g). \<exists>d. state srv = Some d \<and> cf_Num conf \<le> cf_Num (sk_config d)
        \<and> map_of (o_Store op ! i) = map_of (sk_store d ! i) \<and> (\<forall>c. sk_last d c \<le> map_of (o_PrevReq op) c)"
proof -
  let ?tab = "shardsToTransfer kv (cf_Shards conf)" and ?f = "fetched kv conf (served_by state)"
  let ?op = "zero_Op\<lparr>o_Command := CCHANGE, o_Config := conf, o_PrevReq := [], o_Store := emptyStore\<rparr>"
  have perm: "mset (rng ?tab) = mset ?tab" using assms(2) by (simp add: range_order_def)
  then have tab: "set (rng ?tab) = set ?tab" by (rule mset_eq_setD)
  have prev: "\<forall>x. gomap_ok (tr_Prev (snd (?f x)))"
    using fetched_result(1) [OF assms(1)] by (metis prod.collapse)
  from collected_fold [OF groups_ok_transfer [OF perm] prev, of ?op] assms(3)
  have col: "collected ?f (rng ?tab) op" and ok: "ok = (\<forall>x \<in> set ?tab. fst (?f x))"
    and op: "same_request ?op op"
    by (auto simp: getChangeOp_def tab)
  from op show "o_Command op = CCHANGE" "o_Config op = conf" "o_RequestId op = 0" "o_ShardId op = 0"
    by (auto simp: same_request_def zero_Op_def)
  from col show "store_ok (o_Store op)" "gomap_ok (o_PrevReq op)" by (simp_all add: collected_def)
  show "o_Store op ! i = []" if "i < NShards" "\<forall>g. \<not> moves kv (cf_Shards conf) g i" for i
    using col that by (auto simp: collected_def tab shardsToTransfer_mem)
  show "\<exists>srv \<in> set (mget0 [] (cf_Groups (sk_config kv)) g). \<exists>d. state srv = Some d \<and> cf_Num conf \<le> cf_Num (sk_config d)
        \<and> map_of (o_Store op ! i) = map_of (sk_store d ! i) \<and> (\<forall>c. sk_last d c \<le> map_of (o_PrevReq op) c)"
    if "ok" "i < NShards" "moves kv (cf_Shards conf) g i" for i g
  proof -
    let ?x = "(g, wanted kv (cf_Shards conf) [0..<NShards] g)"
    have i: "i \<in> set (snd ?x)" using that by simp
    then have x: "?x \<in> set ?tab" by (auto simp: shardsToTransfer_mem filter_empty_conv)
    have "fst (?f ?x)" using ok that(1) x by blast
    then obtain reply where r: "?f ?x = (True, reply)" by (cases "?f ?x") simp
    from fetched_result(2) [OF assms(1) r] obtain srv d where
      srv: "srv \<in> set (mget0 [] (cf_Groups (sk_config kv)) g)" "state srv = Some d"
        "cf_Num conf \<le> cf_Num (sk_config d)" "reply_of d reply" by blast
    have "o_Store op ! i = copyMapStr (tr_Store (snd (?f ?x)) ! i) []"
      and prv: "\<And>c. map_of (tr_Prev (snd (?f ?x))) c \<le> map_of (o_PrevReq op) c"
      using collectedD [OF col, of ?x] x i by (simp_all only: tab)
    then have "o_Store op ! i = copyMapStr (tr_Store reply ! i) []" by (simp only: r snd_conv)
    with srv(4) that(2) have "map_of (o_Store op ! i) = map_of (sk_store d ! i)" by (simp add: reply_of_def)
    moreover have "sk_last d c \<le> map_of (o_PrevReq op) c" for c
      using prv [of c] srv(4) unfolding r reply_of_def sk_last_def by simp
    ultimately show ?thesis using srv by blast
  qed
qed

lemma getChangeOp_wf:
  assumes "states_ok state" and "range_order rng" and "getChangeOp kv conf rng (served_by state) = (op, ok)"
    and "length (cf_Shards conf) = NShards"
  shows "op_wf op"
  using getChangeOp_spec [OF assms(1-3)] assms(4) by (simp add: op_wf_def op_ok_def)

subsection \<open>The receiving group\<close>

text \<open>
  C10: a reconfiguration moves the data and the record of what was executed.  When the operation
  \<open>getChangeOp\<close> built is applied, whatever order the groups answered in, every shard the group
  gains holds the entries of a server of the old owner that had itself reached the new
  configuration, every other shard is unchanged, and a request is new to the group only if it was
  new to that server.
\<close>
theorem migration_carries_shard:
  assumes "getChangeOp kv conf rng (served_by state) = (op, True)" and "states_ok state" and "range_order rng"
    and "length (cf_Shards conf) = NShards" and "sk_ok kv1" and "cf_Num conf = cf_Num (sk_config kv1) + 1"
    and "applySwitchOp kv1 op res = Inr (kv2, res2, sp)"
  shows "sk_config kv2 = conf \<and> sk_ok kv2
    \<and> (\<forall>i < NShards. (\<forall>g. \<not> moves kv (cf_Shards conf) g i) \<longrightarrow> sk_store kv2 ! i = sk_store kv1 ! i)
    \<and> (\<forall>i < NShards. \<forall>g. moves kv (cf_Shards conf) g i \<longrightarrow>
         (\<exists>srv \<in> set (mget0 [] (cf_Groups (sk_config kv)) g). \<exists>d. state srv = Some d \<and> cf_Num conf \<le> cf_Num (sk_config d)
            \<and> map_of (sk_store kv2 ! i) = map_of (sk_store kv1 ! i) ++ map_of (sk_store d ! i)
            \<and> (\<forall>req. isNew kv2 req \<longrightarrow> isNew d req)))"
proof -
  note spec = getChangeOp_spec [OF assms(2,3,1)]
  have kv2: "kv2 = kv1\<lparr>sk_prevReq := mergePrev (o_PrevReq op) (sk_prevReq kv1),
      sk_store := map2 copyMapStr (o_Store op) (sk_store kv1), sk_config := o_Config op\<rparr>"
    using applySwitchOp_effect [OF assms(7)] assms(6) spec(1,2) by (simp add: sk_effect_change)
  have st: "store_ok (sk_store kv1)" using assms(5) by (simp add: sk_ok_def)
  have "sk_ok kv2"
    using applySwitchOp_effect [OF assms(7)] assms(5) getChangeOp_wf [OF assms(2,3,1,4)] by (simp add: op_wf_def)
  moreover have "sk_store kv2 ! i = sk_store kv1 ! i" if "i < NShards" "\<forall>g. \<not> moves kv (cf_Shards conf) g i" for i
    using that spec(5) spec(7) [OF that] st by (simp add: kv2)
  moreover have "\<exists>srv \<in> set (mget0 [] (cf_Groups (sk_config kv)) g). \<exists>d. state srv = Some d \<and> cf_Num conf \<le> cf_Num (sk_config d)
            \<and> map_of (sk_store kv2 ! i) = map_of (sk_store kv1 ! i) ++ map_of (sk_store d ! i)
            \<and> (\<forall>req. isNew kv2 req \<longrightarrow> isNew d req)"
    if i: "i < NShards" and mv: "moves kv (cf_Shards conf) g i" for i g
  proof -
    from spec(8) [OF _ i mv] obtain srv d where srv: "srv \<in> set (mget0 [] (cf_Groups (sk_config kv)) g)"
      "state srv = Some d" "cf_Num conf \<le> cf_Num (sk_config d)" "map_of (o_Store op ! i) = map_of (sk_store d ! i)"
      "\<And>c. sk_last d c \<le> map_of (o_PrevReq op) c" by blast
    have "map_of (sk_store kv2 ! i) = map_of (sk_store kv1 ! i) ++ map_of (sk_store d ! i)"
      using i spec(5) st srv(4) by (simp add: kv2)
    moreover have "sk_last d c \<le> sk_last kv2 c" for c
      using order_trans [OF srv(5) mergePrev_covers [OF spec(6)]] by (simp add: kv2 sk_last_def)
    then have "isNew kv2 req \<Longrightarrow> isNew d req" for req
      using le_less_trans [of "sk_last d (o_ClientId req)"] by (auto simp: isNew_iff)
    ultimately show ?thesis using srv by blast
  qed
  ultimately show ?thesis using spec(2) by (simp add: kv2)
qed

text \<open>Group 2 takes over the shards of group 1, which has read \<open>sk_log\<close>.\<close>

definition all_to_2 :: Config where
  "all_to_2 = \<lparr>cf_Num = 2, cf_Shards = replicate NShards 2, cf_Groups = [(1, [''srv'']), (2, [''new''])]\<rparr>"

definition donor :: ShardKV where
  "donor = foldl sk_effect (sk_started 1) (map Command sk_log @ [change_op all_to_2])"

definition receiver :: ShardKV where
  "receiver = sk_effect (sk_started 2) (change_op (all_to 1))"

definition donor_at :: "string \<Rightarrow> ShardKV option" where
  "donor_at srv = (if srv = ''srv'' then Some donor else None)"

lemma donor_facts: "sk_ok donor" "cf_Num (sk_config donor) = 2" "sk_ok receiver" "cf_Num (sk_config receiver) = 1"
  by code_simp+

lemma donor_at_ok: "states_ok donor_at"
  by (simp add: states_ok_def donor_at_def donor_facts)

lemma receiver_fetch: "snd (getChangeOp receiver all_to_2 (\<lambda>xs. xs) (served_by donor_at))"
  by code_simp

theorem migration_carries_shard_witness:
  "\<exists>kv2. applySwitchOp receiver (fst (getChangeOp receiver all_to_2 (\<lambda>xs. xs) (served_by donor_at))) zero_ShardResult
       = Inr kv2 \<and> map_of (sk_store (fst kv2) ! 0) ''x'' = Some ''ab''
     \<and> \<not> isNew (fst kv2) (putAppendOp CAPPEND ''x'' ''b'' 7 2)"
proof -
  obtain op where op: "getChangeOp receiver all_to_2 (\<lambda>xs. xs) (served_by donor_at) = (op, True)"
    using receiver_fetch by (metis prod.collapse)
  have len: "length (cf_Shards all_to_2) = NShards" "cf_Num all_to_2 = cf_Num (sk_config receiver) + 1"
    by (simp_all add: all_to_2_def donor_facts)
  have rng: "range_order (\<lambda>xs. xs)" by (simp add: range_order_def)
  have "op_ok op" using getChangeOp_wf [OF donor_at_ok rng op len(1)] by (simp add: op_wf_def)
  from applySwitchOp_total [OF donor_facts(3) this, of zero_ShardResult]
  obtain kv2 res2 sp where sw: "applySwitchOp receiver op zero_ShardResult = Inr (kv2, res2, sp)" by blast
  have mv: "moves receiver (cf_Shards all_to_2) 1 0" by code_simp
  have old: "sk_store receiver ! 0 = []" "map_of (sk_store donor ! 0) ''x'' = Some ''ab''"
    "isNew donor (putAppendOp CAPPEND ''x'' ''b'' 7 2) = False" by code_simp+
  from migration_carries_shard [OF op donor_at_ok rng len(1) donor_facts(3) len(2) sw] mv
  obtain srv d where "donor_at srv = Some d" "map_of (sk_store kv2 ! 0) = map_of (sk_store receiver ! 0) ++ map_of (sk_store d ! 0)"
    "\<forall>req. isNew kv2 req \<longrightarrow> isNew d req" using NShards_pos by blast
  with old have "map_of (sk_store kv2 ! 0) ''x'' = Some ''ab''" "\<not> isNew kv2 (putAppendOp CAPPEND ''x'' ''b'' 7 2)"
    by (auto simp: donor_at_def split: if_splits)
  then show ?thesis by (simp add: op sw)
qed

text \<open>
  A late deletion destroys a shard that is still to be moved.  \<open>applyDelete\<close> accepts a
  deletion of any earlier configuration, so one that was sent after an earlier move of the same
  shard, and that the network delayed or a restarted replica sent again while replaying its log,
  empties the shard after the group has given it up once more; the next \<open>Transfer\<close> then
  reports success and hands an empty shard to the new owner.
\<close>
lemma stale_delete_loses_shard:
  assumes "sk_ok kv" and "op_ok op" and "o_Command op = CDELETE" and "o_ConfigNum op \<le> cf_Num (sk_config kv)"
    and "cf_Shards (sk_config kv) ! nat (o_ShardId op) \<noteq> sk_gid kv"
    and "applySwitchOp kv op res = Inr (kv', res', sp)" and "ta_Num args \<le> cf_Num (sk_config kv)"
  shows "tr_Err (Transfer kv' args) = OK \<and> tr_Store (Transfer kv' args) ! nat (o_ShardId op) = []"
proof -
  have "kv' = kv\<lparr>sk_store := (sk_store kv)[nat (o_ShardId op) := []]\<rparr>"
    using applySwitchOp_effect [OF assms(6)] assms(1-5) by (simp add: sk_effect_delete)
  moreover have "nat (o_ShardId op) < NShards" "length (sk_store kv) = NShards"
    using assms(1,2) by (auto simp: op_ok_def sk_ok_def)
  ultimately show ?thesis using assms(7) by (simp add: Transfer_def copyMapStr_def)
qed

lemma stale_delete_loses_shard_witness:
  "map_of (tr_Store (Transfer donor \<lparr>ta_Num = 2, ta_ShardIds = [0]\<rparr>) ! 0) ''x'' = Some ''ab''
   \<and> (\<exists>kv' res' sp. applySwitchOp donor (zero_Op\<lparr>o_Command := CDELETE, o_ConfigNum := 1, o_ShardId := 0\<rparr>) zero_ShardResult
        = Inr (kv', res', sp)
      \<and> tr_Err (Transfer kv' \<lparr>ta_Num = 2, ta_ShardIds = [0]\<rparr>) = OK
      \<and> tr_Store (Transfer kv' \<lparr>ta_Num = 2, ta_ShardIds = [0]\<rparr>) ! 0 = [])"
proof -
  let ?op = "zero_Op\<lparr>o_Command := CDELETE, o_ConfigNum := 1, o_ShardId := 0\<rparr>"
  have op: "op_ok ?op" by code_simp
  from applySwitchOp_total [OF donor_facts(1) op] obtain res' sp
    where sw: "applySwitchOp donor ?op zero_ShardResult = Inr (sk_effect donor ?op, res', sp)" by blast
  have "cf_Shards (sk_config donor) ! nat (o_ShardId ?op) \<noteq> sk_gid donor" by code_simp
  from stale_delete_loses_shard [OF donor_facts(1) op _ _ this sw, of "\<lparr>ta_Num = 2, ta_ShardIds = [0]\<rparr>"] sw
  have "\<exists>kv' res' sp. applySwitchOp donor ?op zero_ShardResult = Inr (kv', res', sp)
      \<and> tr_Err (Transfer kv' \<lparr>ta_Num = 2, ta_ShardIds = [0]\<rparr>) = OK
      \<and> tr_Store (Transfer kv' \<lparr>ta_Num = 2, ta_ShardIds = [0]\<rparr>) ! 0 = []"
    by (simp add: donor_facts)
  moreover have "map_of (tr_Store (Transfer donor \<lparr>ta_Num = 2, ta_ShardIds = [0]\<rparr>) ! 0) ''x'' = Some ''ab''"
    by code_simp
  ultimately show ?thesis by blast
qed

subsection \<open>Groups that follow the controller\<close>

text \<open>
  A system of groups is the log of each group.  A replica of group \<open>g\<close> is in a state
  \<open>replica_state g ops\<close> for a prefix \<open>ops\<close> of the log of \<open>g\<close>.  Logs grow by requests of clerks,
  by deletions, and by changes that a replica of the group built for a configuration \<open>m\<close>, from the
  answers of replicas of other groups (\<open>group_of\<close> names the group of a server), at that moment or
  earlier: logs only grow, so an earlier state is still a prefix.  \<open>catchUp\<close> asks for the
  configuration after the replica's own first and for later ones in the same pass, so \<open>m\<close> is any
  number.  \<open>skip\<close> says whether a change that was not built in the configuration before \<open>m\<close> may get
  into the log exactly when the group is in that configuration, and so take effect.
\<close>

definition replica_state :: "int \<Rightarrow> Op list \<Rightarrow> ShardKV" where
  "replica_state g ops = foldl sk_effect (sk_started g) ops"

definition num_of :: "int \<Rightarrow> Op list \<Rightarrow> int" where
  "num_of g ops = cf_Num (sk_config (replica_state g ops))"

inductive system_step :: "bool \<Rightarrow> (int \<Rightarrow> Config) \<Rightarrow> (string \<Rightarrow> int) \<Rightarrow> (int \<Rightarrow> Op list) \<Rightarrow> (int \<Rightarrow> Op list) \<Rightarrow> bool"
  for skip :: bool and confs :: "int \<Rightarrow> Config" and group_of :: "string \<Rightarrow> int" where
  sys_request: "client_op op \<Longrightarrow> op_ok op \<Longrightarrow> system_step skip confs group_of L (L(g := L g @ [op]))"
| sys_delete: "o_Command op = CDELETE \<Longrightarrow> op_ok op \<Longrightarrow> system_step skip confs group_of L (L(g := L g @ [op]))"
| sys_change: "kv = replica_state g (take k (L g)) \<Longrightarrow> 0 < m \<Longrightarrow>
    skip \<or> m = cf_Num (sk_config kv) + 1 \<or> m \<noteq> num_of g (L g) + 1 \<Longrightarrow> conf = confs m \<Longrightarrow> range_order rng \<Longrightarrow>
    (\<And>srv d. state srv = Some d \<Longrightarrow> \<exists>j. d = replica_state (group_of srv) (take j (L (group_of srv)))) \<Longrightarrow>
    getChangeOp kv conf rng (served_by state) = (op, True) \<Longrightarrow>
    system_step skip confs group_of L (L(g := L g @ [op]))"

text \<open>The configurations of a controller that never takes a shard away without a new owner.\<close>

definition confs_follow :: "(int \<Rightarrow> Config) \<Rightarrow> (string \<Rightarrow> int) \<Rightarrow> bool" where
  "confs_follow confs group_of \<longleftrightarrow> confs 0 = zero_config \<and> (\<forall>n. length (cf_Shards (confs n)) = NShards)
     \<and> (\<forall>n > 0. cf_Num (confs n) = n)
     \<and> (\<forall>n g. \<forall>srv \<in> set (mget0 [] (cf_Groups (confs n)) g). group_of srv = g)
     \<and> (\<forall>n \<ge> 0. \<forall>i < NShards. cf_Shards (confs n) ! i \<noteq> 0 \<longrightarrow> cf_Shards (confs (n + 1)) ! i \<noteq> 0)"

definition serves :: "(int \<Rightarrow> Op list) \<Rightarrow> int \<Rightarrow> nat \<Rightarrow> bool" where
  "serves L g i \<longleftrightarrow> cf_Shards (sk_config (replica_state g (L g))) ! i = g"

text \<open>
  Every replica is in a configuration of the controller; and a group reached configuration \<open>m\<close>
  only after the groups it took shards from had.
\<close>

definition ops_follow :: "(int \<Rightarrow> Config) \<Rightarrow> Op list \<Rightarrow> bool" where
  "ops_follow confs ops \<longleftrightarrow> (\<forall>op \<in> set ops. op_ok op
     \<and> (o_Command op = CCHANGE \<longrightarrow> o_Config op = confs (cf_Num (o_Config op)) \<and> 0 < cf_Num (o_Config op)))"

definition donors_first :: "(int \<Rightarrow> Config) \<Rightarrow> (int \<Rightarrow> Op list) \<Rightarrow> bool" where
  "donors_first confs L \<longleftrightarrow> (\<forall>h m i. 0 < m \<and> m \<le> num_of h (L h) \<and> i < NShards \<and> cf_Shards (confs m) ! i = h
     \<and> cf_Shards (confs (m - 1)) ! i \<notin> {0, h} \<longrightarrow>
     m \<le> num_of (cf_Shards (confs (m - 1)) ! i) (L (cf_Shards (confs (m - 1)) ! i)))"

definition system_ok :: "(int \<Rightarrow> Config) \<Rightarrow> (int \<Rightarrow> Op list) \<Rightarrow> bool" where
  "system_ok confs L \<longleftrightarrow> (\<forall>g. ops_follow confs (L g)) \<and> donors_first confs L"

lemma replica_state_snoc [simp]: "replica_state g (ops @ [op]) = sk_effect (replica_state g ops) op"
  by (simp add: replica_state_def)

lemma sk_gid_replica_state [simp]: "sk_gid (replica_state g ops) = g"
  by (induction ops rule: rev_induct) (simp_all add: replica_state_def sk_started_def)

lemma num_of_snoc_mono: "num_of g ops \<le> num_of g (ops @ [op])"
  by (simp add: num_of_def sk_effect_num_mono)

lemma num_of_append_mono: "num_of g ops \<le> num_of g (ops @ ops')"
  by (induction ops' rule: rev_induct) (simp, metis append.assoc num_of_snoc_mono order_trans)

lemma num_of_take: "num_of g (take k ops) \<le> num_of g ops"
  using num_of_append_mono [of g "take k ops" "drop k ops"] by simp

lemma ops_follow_take: "ops_follow confs ops \<Longrightarrow> ops_follow confs (take k ops)"
  by (auto simp: ops_follow_def dest: in_set_takeD)

lemma ops_follow_config:
  assumes "confs_follow confs group_of" and "ops_follow confs ops"
  shows "sk_config (replica_state g ops) = confs (num_of g ops) \<and> 0 \<le> num_of g ops \<and> sk_ok (replica_state g ops)"
  using assms(2)
proof (induction ops rule: rev_induct)
  case Nil
  have "sk_ok (sk_started g)" using replica_ok_init [OF start_sk] by (simp add: replica_ok_def)
  with assms(1) show ?case
    by (simp add: replica_state_def num_of_def sk_started_def confs_follow_def zero_config_def)
next
  case (snoc op ops)
  then have "ops_follow confs ops" and op: "op_ok op"
      "o_Command op = CCHANGE \<Longrightarrow> o_Config op = confs (cf_Num (o_Config op)) \<and> 0 < cf_Num (o_Config op)"
    by (auto simp: ops_follow_def)
  with snoc.IH have IH: "sk_config (replica_state g ops) = confs (num_of g ops)" "0 \<le> num_of g ops"
    "sk_ok (replica_state g ops)" by auto
  have "sk_ok (replica_state g (ops @ [op]))" using IH(3) op(1) by simp
  moreover have "sk_config (replica_state g (ops @ [op])) = confs (num_of g (ops @ [op])) \<and> 0 \<le> num_of g (ops @ [op])"
  proof (cases "sk_config (sk_effect (replica_state g ops) op) = sk_config (replica_state g ops)")
    case True
    then have "num_of g (ops @ [op]) = num_of g ops" by (simp add: num_of_def)
    with True IH(1,2) show ?thesis by simp
  next
    case False
    then have cfg: "o_Command op = CCHANGE" "sk_config (replica_state g (ops @ [op])) = o_Config op"
      using sk_effect_config [of "replica_state g ops" op] by auto
    then have "num_of g (ops @ [op]) = cf_Num (o_Config op)" by (simp add: num_of_def)
    with op(2) cfg show ?thesis by simp
  qed
  ultimately show ?case by simp
qed

lemma num_of_upd: "num_of h (L h) \<le> num_of h ((L(g := L g @ [op])) h)"
  by (simp add: num_of_snoc_mono)

lemma donors_first_append:
  assumes "donors_first confs L" and "ops_follow confs (L g)"
    and "num_of g (L g @ [op]) \<noteq> num_of g (L g) \<Longrightarrow> num_of g (L g @ [op]) = num_of g (L g) + 1
      \<and> (\<forall>i < NShards. cf_Shards (confs (num_of g (L g) + 1)) ! i = g
            \<and> cf_Shards (confs (num_of g (L g))) ! i \<notin> {0, g} \<longrightarrow>
            num_of g (L g) + 1 \<le> num_of (cf_Shards (confs (num_of g (L g))) ! i) (L (cf_Shards (confs (num_of g (L g))) ! i)))"
  shows "donors_first confs (L(g := L g @ [op]))"
  unfolding donors_first_def
proof (intro allI impI)
  fix h m i
  let ?L = "L(g := L g @ [op])" and ?d = "cf_Shards (confs (m - 1)) ! i"
  assume pre: "0 < m \<and> m \<le> num_of h (?L h) \<and> i < NShards \<and> cf_Shards (confs m) ! i = h \<and> ?d \<notin> {0, h}"
  have "m \<le> num_of ?d (L ?d)"
  proof (cases "m \<le> num_of h (L h)")
    case True
    with assms(1) pre show ?thesis unfolding donors_first_def by blast
  next
    case False
    with pre have g: "h = g" and new: "num_of g (L g @ [op]) \<noteq> num_of g (L g)" by (auto split: if_splits)
    with assms(3) pre False have "m = num_of g (L g) + 1" by auto
    with assms(3) [OF new] pre g show ?thesis by auto
  qed
  also have "num_of ?d (L ?d) \<le> num_of ?d (?L ?d)" by (rule num_of_upd)
  finally show "m \<le> num_of ?d (?L ?d)" .
qed

lemma num_of_snoc_cases:
  "num_of g (ops @ [op]) = num_of g ops
   \<or> o_Command op = CCHANGE \<and> num_of g (ops @ [op]) = num_of g ops + 1 \<and> cf_Num (o_Config op) = num_of g ops + 1"
  using sk_effect_config [of "replica_state g ops" op] by (auto simp: num_of_def)

lemma system_ok_append:
  assumes "system_ok confs L" and "op_ok op" and "o_Command op \<noteq> CCHANGE"
  shows "system_ok confs (L(g := L g @ [op]))"
  using assms num_of_snoc_cases [of g "L g" op] donors_first_append [of confs L g op]
  by (auto simp: system_ok_def ops_follow_def)

lemma system_ok_change:
  assumes ok: "system_ok confs L" and conf: "confs_follow confs group_of"
    and kv: "kv = replica_state g (take k (L g))" "conf = confs m" and m: "0 < m"
    and prompt: "m = cf_Num (sk_config kv) + 1 \<or> m \<noteq> num_of g (L g) + 1" and rng: "range_order rng"
    and st: "\<And>srv d. state srv = Some d \<Longrightarrow> \<exists>j. d = replica_state (group_of srv) (take j (L (group_of srv)))"
    and op: "getChangeOp kv conf rng (served_by state) = (op, True)"
  shows "system_ok confs (L(g := L g @ [op]))"
proof -
  have fol: "ops_follow confs (L h)" for h using ok by (simp add: system_ok_def)
  define n where "n = num_of g (take k (L g))"
  have "sk_config kv = confs n" "0 \<le> n"
    using ops_follow_config [OF conf ops_follow_take [OF fol]] by (simp_all add: n_def kv(1))
  then have n: "cf_Num (sk_config kv) = n" "sk_config kv = confs n" "0 \<le> n" by (auto simp: n_def num_of_def kv(1))
  have cn: "cf_Num conf = m" "length (cf_Shards conf) = NShards"
    using conf kv(2) m by (auto simp: confs_follow_def)
  have "states_ok state"
    unfolding states_ok_def using st ops_follow_config [OF conf ops_follow_take [OF fol]] by blast
  note spec = getChangeOp_spec [OF this rng op] and wf = getChangeOp_wf [OF \<open>states_ok state\<close> rng op cn(2)]
  have donors: "m \<le> num_of d (L d)"
    if "m = n + 1" "i < NShards" "cf_Shards (confs m) ! i = g" "cf_Shards (confs n) ! i = d" "d \<notin> {0, g}" for i d
  proof -
    have "moves kv (cf_Shards conf) d i" using that n(2) kv(2) by (simp add: moves_def kv(1))
    from spec(8) [OF TrueI that(2) this] obtain srv dk where srv: "srv \<in> set (mget0 [] (cf_Groups (confs n)) d)"
      "state srv = Some dk" "m \<le> cf_Num (sk_config dk)" using n(2) cn(1) by auto
    have "group_of srv = d" using conf srv(1) by (auto simp: confs_follow_def)
    with st [OF srv(2)] obtain j where "dk = replica_state d (take j (L d))" by auto
    with srv(3) have "m \<le> num_of d (take j (L d))" by (simp add: num_of_def)
    also have "\<dots> \<le> num_of d (L d)" by (rule num_of_take)
    finally show ?thesis .
  qed
  have "donors_first confs (L(g := L g @ [op]))"
  proof (rule donors_first_append [OF _ fol])
    show "donors_first confs L" using ok by (simp add: system_ok_def)
    assume "num_of g (L g @ [op]) \<noteq> num_of g (L g)"
    with num_of_snoc_cases [of g "L g" op] spec(2) cn(1) prompt n(1)
    have "num_of g (L g) = n" "num_of g (L g @ [op]) = n + 1" "m = n + 1" by auto
    with donors show "num_of g (L g @ [op]) = num_of g (L g) + 1
      \<and> (\<forall>i < NShards. cf_Shards (confs (num_of g (L g) + 1)) ! i = g
            \<and> cf_Shards (confs (num_of g (L g))) ! i \<notin> {0, g} \<longrightarrow>
            num_of g (L g) + 1 \<le> num_of (cf_Shards (confs (num_of g (L g))) ! i) (L (cf_Shards (confs (num_of g (L g))) ! i)))"
      by auto
  qed
  moreover have "ops_follow confs (L g @ [op])"
    using fol [of g] spec(1,2) wf m cn kv(2) by (auto simp: ops_follow_def op_wf_def)
  ultimately show ?thesis using ok by (simp add: system_ok_def)
qed

lemma system_ok_init: "(\<forall>g. L g = []) \<Longrightarrow> system_ok confs L"
  by (auto simp: system_ok_def ops_follow_def donors_first_def num_of_def replica_state_def sk_started_def zero_config_def)

lemma system_ok_step: "system_step False confs group_of L L' \<Longrightarrow> confs_follow confs group_of \<Longrightarrow> system_ok confs L \<Longrightarrow> system_ok confs L'"
proof (induction rule: system_step.induct)
  case (sys_request op L g)
  then show ?case by (intro system_ok_append) (auto simp: client_op_def is_write_def)
next
  case (sys_delete op L g)
  then show ?case by (intro system_ok_append) auto
next
  case (sys_change kv g k L m conf rng state op)
  then show ?case by (intro system_ok_change [of confs L group_of kv g k conf m rng state op]) auto
qed

text \<open>The interpretation needs the configurations to be fixed: unfollowed ones admit no step.\<close>

definition follow_step :: "(int \<Rightarrow> Config) \<Rightarrow> (string \<Rightarrow> int) \<Rightarrow> (int \<Rightarrow> Op list) \<Rightarrow> (int \<Rightarrow> Op list) \<Rightarrow> bool" where
  "follow_step confs group_of L L' \<longleftrightarrow> confs_follow confs group_of \<and> system_step False confs group_of L L'"

interpretation system: inductive_invariant "\<lambda>L. \<forall>g. L g = []" "follow_step confs group_of" "system_ok confs" for confs group_of
  by unfold_locales (auto simp: follow_step_def intro: system_ok_init system_ok_step)

lemma reach_follow:
  "reach (\<lambda>L. \<forall>g. L g = []) (system_step False confs group_of) L \<Longrightarrow> confs_follow confs group_of \<Longrightarrow>
     reach (\<lambda>L. \<forall>g. L g = []) (follow_step confs group_of) L"
  by (induction rule: reach.induct) (auto simp: follow_step_def intro: reach.intros)

text \<open>If the owner of a shard in configuration \<open>m\<close> got there, then it is the owner in \<open>n\<close>, or that one left \<open>n\<close>.\<close>

lemma owner_chain:
  assumes conf: "confs_follow confs group_of" and first: "donors_first confs L" and "i < NShards"
    and "0 \<le> n" and "cf_Shards (confs n) ! i \<noteq> 0"
    and "cf_Shards (confs (n + int k)) ! i = h" and "n + int k \<le> num_of h (L h)"
  shows "h = cf_Shards (confs n) ! i
    \<or> n < num_of (cf_Shards (confs n) ! i) (L (cf_Shards (confs n) ! i))"
  using assms(6,7)
proof (induction k arbitrary: h)
  case (Suc k)
  let ?d = "cf_Shards (confs (n + int k)) ! i"
  have nz: "cf_Shards (confs (n + int j)) ! i \<noteq> 0" for j
  proof (induction j)
    case (Suc j)
    have "cf_Shards (confs (n + int j + 1)) ! i \<noteq> 0"
      using conf Suc assms(3,4) unfolding confs_follow_def by simp
    then show ?case by (simp add: algebra_simps)
  qed (simp add: assms(5))
  show ?case
  proof (cases "?d = h")
    case True
    with Suc show ?thesis by auto
  next
    case False
    have "n + int (Suc k) \<le> num_of ?d (L ?d)"
      using first [unfolded donors_first_def, rule_format, of "n + int (Suc k)" h i] Suc.prems nz [of k] False assms(3,4) by simp
    with Suc.IH [of ?d] show ?thesis by auto
  qed
qed simp

text \<open>
  C9: a shard has one owner.  In a system whose groups follow the controller, whatever the order in
  which they do and however far they lag behind each other, at most one group serves a shard,
  under two conditions: the configurations do not hand a shard back to nobody, as a departure of
  the last group does, and a change takes effect only if it was built in the configuration before
  its own, so that the changes \<open>catchUp\<close> proposes for later configurations are ignored.
\<close>
theorem single_owner:
  assumes "confs_follow confs group_of" and "reach (\<lambda>L. \<forall>g. L g = []) (system_step False confs group_of) L"
    and "i < NShards" and "serves L g i" and "serves L h i" and "g \<noteq> 0" and "h \<noteq> 0"
  shows "g = h"
proof -
  have ok: "system_ok confs L" using reach_follow [OF assms(2,1)] by (rule system.reach_inv)
  have cfg: "sk_config (replica_state x (L x)) = confs (num_of x (L x))" "0 \<le> num_of x (L x)" for x
    using ops_follow_config [OF assms(1)] ok by (auto simp: system_ok_def)
  have own: "cf_Shards (confs (num_of g (L g))) ! i = g" "cf_Shards (confs (num_of h (L h))) ! i = h"
    using assms(4,5) by (simp_all add: serves_def cfg)
  have "x = y" if "num_of x (L x) \<le> num_of y (L y)" "cf_Shards (confs (num_of x (L x))) ! i = x"
      "cf_Shards (confs (num_of y (L y))) ! i = y" "x \<noteq> 0" for x y
    using owner_chain [OF assms(1) _ assms(3), of L "num_of x (L x)" "nat (num_of y (L y) - num_of x (L x))" y]
      that ok cfg(2) by (auto simp: system_ok_def)
  with own assms(6,7) show ?thesis by (metis linear)
qed

definition two_confs :: "int \<Rightarrow> Config" where
  "two_confs n = (if n = 0 then zero_config else if n = 1 then all_to 1 else all_to_2\<lparr>cf_Num := n\<rparr>)"

definition two_groups :: "string \<Rightarrow> int" where
  "two_groups srv = (if srv = ''srv'' then 1 else 2)"

theorem single_owner_witness:
  "\<exists>L. reach (\<lambda>L. \<forall>g. L g = []) (system_step False two_confs two_groups) L \<and> serves L 1 0 \<and> \<not> serves L 2 0"
proof -
  let ?kv = "replica_state 1 (take 0 [])"
  let ?conf = "two_confs (cf_Num (sk_config ?kv) + 1)"
  obtain op ok where op: "getChangeOp ?kv ?conf (\<lambda>xs. xs) (served_by (\<lambda>_. None)) = (op, ok)" by fastforce
  have "ok \<longleftrightarrow> snd (getChangeOp ?kv ?conf (\<lambda>xs. xs) (served_by (\<lambda>_. None)))" by (simp only: op snd_conv)
  also have "\<dots>" by code_simp
  finally have "ok" by simp
  have zero: "0 \<le> cf_Num (sk_config ?kv)" by code_simp
  define L :: "int \<Rightarrow> Op list" where "L = (\<lambda>_. [])(1 := [] @ [op])"
  have "reach (\<lambda>L. \<forall>g. L g = []) (system_step False two_confs two_groups) (\<lambda>_. [])"
    by (rule reach_init) simp
  moreover have "system_step False two_confs two_groups (\<lambda>_. []) L"
    unfolding L_def by (rule sys_change [of ?kv 1 0 "\<lambda>_. []" "cf_Num (sk_config ?kv) + 1" False ?conf _ "\<lambda>xs. xs" "\<lambda>_. None", simplified fun_upd_same])
      (use op \<open>ok\<close> zero in \<open>simp_all add: range_order_def\<close>)
  ultimately have r: "reach (\<lambda>L. \<forall>g. L g = []) (system_step False two_confs two_groups) L"
    by (blast intro: reach.intros(2))
  have "serves L 1 0 \<longleftrightarrow> serves ((\<lambda>_. [])(1 := [fst (getChangeOp ?kv ?conf (\<lambda>xs. xs) (served_by (\<lambda>_. None)))])) 1 0"
    by (simp only: op fst_conv append_Nil L_def)
  also have "\<dots>" by code_simp
  finally have s: "serves L 1 0" by simp
  have "confs_follow two_confs two_groups"
    by (auto simp: confs_follow_def two_confs_def two_groups_def all_to_def all_to_2_def NShards_def zero_config_def
        mget0_def split: if_splits)
  from single_owner [OF this r _ s, of 2] have "\<not> serves L 2 0" by auto
  with r s show ?thesis by blast
qed

text \<open>
  The second condition is needed.  \<open>change_run\<close> executes changes: group \<open>g\<close> builds one for
  configuration \<open>m\<close> in the state after \<open>k\<close> entries of its log, from servers that have read \<open>j\<close>
  entries of theirs.  Group 3, in configuration 1, builds the change to configuration 3 from group 1,
  the owner it knows; after the change to configuration 2 got into the log in between, it takes over
  shards that group 2 serves.
\<close>

definition asked :: "(string \<Rightarrow> int) \<Rightarrow> (int \<Rightarrow> Op list) \<Rightarrow> (string \<times> nat) list \<Rightarrow> string \<Rightarrow> ShardKV option" where
  "asked group_of L js srv = map_option (\<lambda>j. replica_state (group_of srv) (take j (L (group_of srv)))) (map_of js srv)"

fun change_run :: "(int \<Rightarrow> Config) \<Rightarrow> (string \<Rightarrow> int) \<Rightarrow> (int \<Rightarrow> Op list) \<Rightarrow> (int \<times> nat \<times> int \<times> (string \<times> nat) list) list
    \<Rightarrow> (int \<Rightarrow> Op list) option" where
  "change_run confs group_of L [] = Some L"
| "change_run confs group_of L ((g, k, m, js) # acts) =
     (let (op, ok) = getChangeOp (replica_state g (take k (L g))) (confs m) (\<lambda>xs. xs) (served_by (asked group_of L js))
      in if 0 < m \<and> ok then change_run confs group_of (L(g := L g @ [op])) acts else None)"

lemma change_run_steps:
  "change_run confs group_of L acts = Some L' \<Longrightarrow> reach I (system_step True confs group_of) L \<Longrightarrow>
     reach I (system_step True confs group_of) L'"
proof (induction confs group_of L acts rule: change_run.induct)
  case (2 confs group_of L g k m js acts)
  obtain op ok where op: "getChangeOp (replica_state g (take k (L g))) (confs m) (\<lambda>xs. xs) (served_by (asked group_of L js)) = (op, ok)"
    by fastforce
  with 2 have ok: "0 < m" "ok" "change_run confs group_of (L(g := L g @ [op])) acts = Some L'" by (auto split: if_splits)
  have "system_step True confs group_of L (L(g := L g @ [op]))"
    by (rule sys_change [OF refl ok(1) _ refl, where k = k and rng = "\<lambda>xs. xs" and state = "asked group_of L js"])
      (use op ok(2) in \<open>auto simp: asked_def range_order_def\<close>)
  with 2(1) [OF op [symmetric] refl] ok 2(3) show ?case by (blast intro: reach.intros(2))
qed simp

definition three_groups :: "string \<Rightarrow> int" where
  "three_groups srv = (if srv = ''s1'' then 1 else if srv = ''s2'' then 2 else 3)"

definition moving_confs :: "int \<Rightarrow> Config" where
  "moving_confs n = (if n = 0 then zero_config
     else \<lparr>cf_Num = n, cf_Shards = replicate NShards (if n = 1 \<or> n = 2 then n else 3),
           cf_Groups = [(1, [''s1'']), (2, [''s2'']), (3, [''s3''])]\<rparr>)"

definition skipping_run :: "(int \<times> nat \<times> int \<times> (string \<times> nat) list) list" where
  "skipping_run = [(1, 0, 1, []), (1, 1, 2, []), (1, 2, 3, []), (2, 0, 1, []), (2, 1, 2, [(''s1'', 3)]),
     (3, 0, 1, []), (3, 1, 2, []), (3, 1, 3, [(''s1'', 3)])]"

lemma skipped_change_two_owners:
  "confs_follow moving_confs three_groups
   \<and> (\<exists>L. reach (\<lambda>L. \<forall>g. L g = []) (system_step True moving_confs three_groups) L \<and> serves L 2 0 \<and> serves L 3 0)"
proof
  show "confs_follow moving_confs three_groups"
    by (auto simp: confs_follow_def moving_confs_def three_groups_def NShards_def zero_config_def mget0_def split: if_splits)
  have two: "case change_run moving_confs three_groups (\<lambda>_. []) skipping_run of None \<Rightarrow> False | Some L \<Rightarrow> serves L 2 0 \<and> serves L 3 0"
    by code_simp
  then obtain L where L: "change_run moving_confs three_groups (\<lambda>_. []) skipping_run = Some L" by (auto split: option.splits)
  have "reach (\<lambda>L. \<forall>g. L g = []) (system_step True moving_confs three_groups) L"
    by (rule change_run_steps [OF L reach_init]) simp
  with two L show "\<exists>L. reach (\<lambda>L. \<forall>g. L g = []) (system_step True moving_confs three_groups) L \<and> serves L 2 0 \<and> serves L 3 0"
    by auto
qed

subsection \<open>One pass of \<open>catchUp\<close>\<close>

text \<open>
  \<open>propose\<close> on a schedule without delays: the operation is the next entry the applier reads, before
  the timer of \<open>propose\<close> expires.
\<close>

definition proposeNow :: "ShardKV \<Rightarrow> Op \<Rightarrow> ShardKV \<times> ShardResult" where
  "proposeNow kv op =
     (case proposeOp kv op of
        Inl _ \<Rightarrow> (kv, awaitTimeout)
      | Inr (kv1, _, Inl result) \<Rightarrow> (kv1, result)
      | Inr (kv1, _, Inr ind) \<Rightarrow>
          (case applier kv1 \<lparr>CommandValid = True, Command = op, CommandIndex = ind\<rparr> of
             Inl _ \<Rightarrow> (kv1, awaitTimeout)
           | Inr (kv2, _) \<Rightarrow> (case awaitResult kv2 op ind of None \<Rightarrow> (kv2, awaitTimeout) | Some out \<Rightarrow> out)))"

text \<open>A leader in the accept phase, with no result waiting for an entry that is not in its log yet.\<close>

definition leading :: "ShardKV \<Rightarrow> bool" where
  "leading kv \<longleftrightarrow> server_ok (sk_op kv) \<and> in_state (sk_op kv) LEADER ACCEPT \<and> snd (GetState (sk_op kv))
     \<and> (\<forall>i \<ge> int (length (oplog (sk_op kv))). chan kv i = [])"

lemma leading_clerk [simp]: "leading (kv\<lparr>sk_clerk := ck\<rparr>) = leading kv"
  by (simp add: leading_def chan_def)

lemma leader_proposes:
  assumes "server_ok op" and "in_state op LEADER ACCEPT" and "snd (GetState op)"
  shows "\<exists>op' ms bal. Proposal op c = Inr ((op', ms), (int (length (oplog op)), bal, True))
    \<and> server_ok op' \<and> in_state op' LEADER ACCEPT \<and> snd (GetState op') \<and> oplog op' = oplog op @ [c]"
proof -
  have keys: "\<forall>kp \<in> set (op_promises op). 0 \<le> p_f (snd kp) \<and> p_f (snd kp) < int (op_peers op)"
    using assms(1) by (auto simp: server_ok_def promises_ok_def promise_ok_def)
  have "\<exists>op' ms bal. Proposal op c = Inr ((op', ms), (int (length (oplog op)), bal, True))
      \<and> in_state op' LEADER ACCEPT \<and> snd (GetState op') \<and> oplog op' = oplog op @ [c]"
    using assms keys
    by (simp add: Proposal_def stopped_def Let_def go_set_def server_ok_def send_to_def list_all_iff GetState_def)
  with Proposal_ok [OF assms(1)] show ?thesis unfolding sound_result_def by blast
qed

text \<open>The controllers answer every query, the query for the latest configuration included.\<close>

definition answered :: "(int \<Rightarrow> nat \<Rightarrow> CtrlResult option list) \<Rightarrow> (int \<Rightarrow> Config) \<Rightarrow> bool" where
  "answered replies confs \<longleftrightarrow> (\<forall>num. \<exists>r. tryForever rs_Err (replies num) 0 = Some r \<and> rs_Config r = confs num)"

lemma queryConf_answered:
  "answered replies confs \<Longrightarrow> \<exists>ck. queryConf kv num (replies num) = Some (kv\<lparr>sk_clerk := ck\<rparr>, confs num)"
  by (fastforce simp: answered_def queryConf_def clerkQuery_def Let_def dest: spec [of _ num] split: prod.splits)

lemma fetchGroup_header:
  "fold (fetchGroup kv conf answers) gs (op, ok) = (op', ok') \<Longrightarrow> same_request op op'"
proof (induction gs arbitrary: op ok)
  case (Cons x gs)
  obtain op1 ok1 where f: "fetchGroup kv conf answers x (op, ok) = (op1, ok1)" by fastforce
  with Cons.prems have "same_request op1 op'" by (intro Cons.IH [of op1 ok1]) simp
  moreover from f have "same_request op op1" by (auto simp: fetchGroup_fetched same_request_def)
  ultimately show ?case by (simp add: same_request_def)
qed (simp add: same_request_def)

lemma getChangeOp_header:
  "getChangeOp kv conf rng answers = (op, ok) \<Longrightarrow> o_Command op = CCHANGE \<and> o_Config op = conf"
  unfolding getChangeOp_def by (drule fetchGroup_header) (simp add: same_request_def)

lemma getChangeOp_clerk [simp]: "getChangeOp (kv\<lparr>sk_clerk := ck\<rparr>) = getChangeOp kv"
proof -
  have "fetchGroup (kv\<lparr>sk_clerk := ck\<rparr>) = fetchGroup kv" by (simp add: fun_eq_iff fetchGroup_def)
  moreover have "shardsToTransfer (kv\<lparr>sk_clerk := ck\<rparr>) = shardsToTransfer kv" by (simp add: fun_eq_iff shardsToTransfer_def)
  ultimately show ?thesis by (intro ext) (simp only: getChangeOp_def)
qed

lemma applySwitchOp_change:
  "o_Command op = CCHANGE \<Longrightarrow> \<exists>res sp. applySwitchOp kv op r = Inr (sk_effect kv op, res, sp)
     \<and> r_Err res = OK \<and> r_ConfigNum res = cf_Num (o_Config op)"
  by (cases "cf_Num (o_Config op) - cf_Num (sk_config kv) = 1") (simp_all add: sk_effect_def applySwitchOp_def applyChange_def Let_def)

lemma proposeNow_change:
  assumes "leading kv" and "o_Command op = CCHANGE"
  shows "\<exists>kv' res. proposeNow kv op = (kv', res) \<and> r_Err res = OK \<and> leading kv'
    \<and> sk_config kv' = sk_config (sk_effect kv op)"
proof -
  let ?ind = "int (length (oplog (sk_op kv)))"
  from leader_proposes [of "sk_op kv" op] assms(1) obtain rf ms bal where
    p: "Proposal (sk_op kv) op = Inr ((rf, ms), (?ind, bal, True))"
    and rf: "server_ok rf" "in_state rf LEADER ACCEPT" "snd (GetState rf)" "oplog rf = oplog (sk_op kv) @ [op]"
    unfolding leading_def by blast
  define chs where "chs = (if map_of (sk_chans kv) ?ind = None then mput ?ind [] (sk_chans kv) else sk_chans kv)"
  let ?kv1 = "kv\<lparr>sk_op := rf, sk_chans := chs\<rparr>"
  have "proposeOp kv op = Inr (?kv1, ms, Inr ?ind)" by (simp add: proposeOp_def p chs_def)
  moreover have chan: "chan ?kv1 = chan kv" by (auto simp: chan_def chs_def mget0_def update_conv' fun_eq_iff)
  from applySwitchOp_change [OF assms(2)] obtain res sp where
    sw: "applySwitchOp ?kv1 op (zero_ShardResult\<lparr>r_Command := o_Command op, r_Err := OK, r_ClientId := o_ClientId op,
        r_RequestId := o_RequestId op\<rparr>) = Inr (sk_effect ?kv1 op, res, sp)"
    and res: "r_Err res = OK" "r_ConfigNum res = cf_Num (o_Config op)" by blast
  let ?kv2 = "sk_effect ?kv1 op"
  let ?kv3 = "?kv2\<lparr>sk_chans := mput ?ind [res] (sk_chans ?kv2)\<rparr>"
  have "chan ?kv2 ?ind = []" using assms(1) by (simp add: chan leading_def)
  then have "applier ?kv1 \<lparr>CommandValid = True, Command = op, CommandIndex = ?ind\<rparr> = Inr (?kv3, sp)"
    by (simp add: applier_def sw or_panic_def sendResult_chan)
  moreover define kv4 where "kv4 = ?kv3\<lparr>sk_chans := mput ?ind [] (sk_chans ?kv3)\<rparr>"
  moreover have "awaitResult ?kv3 op ?ind = Some (?kv3\<lparr>sk_chans := mput ?ind [] (sk_chans ?kv3)\<rparr>, res)"
    using res(2) assms(2) by (simp add: awaitResult_def update_conv' expected_def)
  ultimately have "proposeNow kv op = (kv4, res)" by (simp add: proposeNow_def)
  moreover have "sk_op kv4 = rf" "sk_config kv4 = sk_config (sk_effect kv op)"
    using assms(2) by (simp_all add: kv4_def sk_effect_change)
  moreover have "chan kv4 = (chan ?kv2)(?ind := [])" unfolding kv4_def chan_mput by simp
  then have "\<forall>i \<ge> int (length (oplog rf)). chan kv4 i = []" using assms(1) rf(4) by (simp add: chan leading_def)
  ultimately show ?thesis using rf res(1) by (simp add: leading_def)
qed

text \<open>From the second iteration on the loop asks for configurations the group cannot enter.\<close>

lemma catchUpLoop_idle:
  assumes conf: "answered replies confs" "\<forall>num > 0. cf_Num (confs num) = num" and "0 \<le> cf_Num (sk_config kv)"
    and "2 \<le> i" and "leading kv"
  shows "\<exists>kv' rest. catchUpLoop proposeNow replies rng answers latest i kv ops = Some (kv', ops @ rest)
      \<and> sk_config kv' = sk_config kv \<and> (\<forall>op \<in> set rest. cf_Num (sk_config kv) + 1 < cf_Num (o_Config op))"
  using assms(3-5)
proof (induction "nat (cf_Num latest - cf_Num (sk_config kv) + 1 - i)" arbitrary: kv i ops rule: less_induct)
  case less
  let ?num = "i + cf_Num (sk_config kv)"
  show ?case
  proof (cases "i \<le> cf_Num latest - cf_Num (sk_config kv)")
    case False
    then show ?thesis by (subst catchUpLoop.simps) (auto intro: exI [of _ "[]"])
  next
    case True
    obtain ck where q: "queryConf kv ?num (replies ?num) = Some (kv\<lparr>sk_clerk := ck\<rparr>, confs ?num)"
      using queryConf_answered [OF conf(1)] by blast
    let ?kv1 = "kv\<lparr>sk_clerk := ck\<rparr>"
    obtain op ok where op: "getChangeOp kv (confs ?num) rng answers = (op, ok)" by fastforce
    show ?thesis
    proof (cases ok)
      case False
      with True q op show ?thesis by (subst catchUpLoop.simps) (auto simp: Let_def intro: exI [of _ "[]"])
    next
      case ok: True
      have num: "cf_Num (confs ?num) = ?num" using conf(2) less.prems by simp
      have h: "o_Command op = CCHANGE" "cf_Num (o_Config op) = ?num" using getChangeOp_header [OF op] num by auto
      then have idle: "sk_config (sk_effect ?kv1 op) = sk_config kv" using less.prems by (simp add: sk_effect_change)
      have "leading ?kv1" using less.prems by simp
      from proposeNow_change [OF this h(1)] obtain kv2 res where
        c: "proposeNow ?kv1 op = (kv2, res)" "r_Err res = OK" "leading kv2" "sk_config kv2 = sk_config kv"
        unfolding idle by blast
      have "nat (cf_Num latest - cf_Num (sk_config kv2) + 1 - (i + 1)) < nat (cf_Num latest - cf_Num (sk_config kv) + 1 - i)"
        using True c(4) by simp
      from less.hyps [OF this, of "ops @ [op]"] less.prems c(3,4) obtain kv' rest where
        r: "catchUpLoop proposeNow replies rng answers latest (i + 1) kv2 (ops @ [op]) = Some (kv', (ops @ [op]) @ rest)"
          "sk_config kv' = sk_config kv" "\<forall>op \<in> set rest. cf_Num (sk_config kv) + 1 < cf_Num (o_Config op)" by auto
      have "catchUpLoop proposeNow replies rng answers latest i kv ops = Some (kv', ops @ op # rest)"
        using True q op ok c r(1) by (subst catchUpLoop.simps) (simp add: Let_def)
      with r(2,3) h(2) less.prems show ?thesis by (intro exI [of _ kv'] exI [of _ "op # rest"]) auto
    qed
  qed
qed

text \<open>
  C14: a leader that is behind makes progress, one configuration per pass.  When the server leads its
  group, each of its proposals is the next entry it applies, the controllers answer and the groups
  that lose shards to the next configuration hand them over, a pass of \<open>catchUp\<close> ends, the group
  has entered the next configuration, and no other: \<open>i + kv.config.Num\<close> is computed after the first
  change was applied, so every further iteration skips a configuration and proposes a change
  that is ignored, however far behind the group is.
\<close>
theorem catchUp_advances_by_one:
  assumes "leading kv" and "answered replies confs" and "\<forall>num > 0. cf_Num (confs num) = num"
    and "0 \<le> cf_Num (sk_config kv)" and "cf_Num (sk_config kv) < cf_Num (confs LatestConfigNum)"
    and "snd (getChangeOp kv (confs (cf_Num (sk_config kv) + 1)) rng answers)"
  shows "\<exists>kv' op rest. catchUp proposeNow replies rng answers kv = Some (kv', op # rest)
    \<and> sk_config kv' = confs (cf_Num (sk_config kv) + 1) \<and> o_Config op = sk_config kv'
    \<and> (\<forall>op \<in> set rest. cf_Num (sk_config kv') + 1 < cf_Num (o_Config op))"
proof -
  let ?n = "cf_Num (sk_config kv)" and ?latest = "confs LatestConfigNum"
  obtain ck where q: "queryConf kv LatestConfigNum (replies LatestConfigNum) = Some (kv\<lparr>sk_clerk := ck\<rparr>, ?latest)"
    using queryConf_answered [OF assms(2)] by blast
  obtain ck2 where q2: "queryConf (kv\<lparr>sk_clerk := ck\<rparr>) (1 + ?n) (replies (1 + ?n)) = Some (kv\<lparr>sk_clerk := ck2\<rparr>, confs (1 + ?n))"
    using queryConf_answered [OF assms(2), of "kv\<lparr>sk_clerk := ck\<rparr>" "1 + ?n"] by auto
  obtain op where op: "getChangeOp kv (confs (1 + ?n)) rng answers = (op, True)"
    using assms(6) by (cases "getChangeOp kv (confs (1 + ?n)) rng answers") (simp add: add.commute)
  have h: "o_Command op = CCHANGE" "o_Config op = confs (1 + ?n)" "cf_Num (confs (1 + ?n)) = 1 + ?n"
    using getChangeOp_header [OF op] assms(3,4) by auto
  have "leading (kv\<lparr>sk_clerk := ck2\<rparr>)" using assms(1) by simp
  from proposeNow_change [OF this h(1)] h obtain kv2 res where
    c: "proposeNow (kv\<lparr>sk_clerk := ck2\<rparr>) op = (kv2, res)" "r_Err res = OK" "leading kv2" "sk_config kv2 = confs (1 + ?n)"
    by (auto simp: sk_effect_change)
  from catchUpLoop_idle [OF assms(2,3), of kv2 2 rng answers ?latest "[op]"] c(3,4) h(3) assms(4) obtain kv' rest where
    r: "catchUpLoop proposeNow replies rng answers ?latest 2 kv2 [op] = Some (kv', [op] @ rest)"
      "sk_config kv' = confs (1 + ?n)" "\<forall>op \<in> set rest. cf_Num (confs (1 + ?n)) + 1 < cf_Num (o_Config op)"
    by auto
  have "catchUpLoop proposeNow replies rng answers ?latest 1 (kv\<lparr>sk_clerk := ck\<rparr>) [] = Some (kv', op # rest)"
    using assms(5) q2 op c r(1) by (subst catchUpLoop.simps) (simp add: Let_def)
  then have "catchUp proposeNow replies rng answers kv = Some (kv', op # rest)"
    using assms(1) q by (simp add: catchUp_def leading_def)
  with r(2,3) h(2) show ?thesis by (simp add: add.commute)
qed

definition behind :: ShardKV where
  "behind = (sk_started 1)\<lparr>sk_op := newLeader (freshServer 1 0 MakePersister (zero_os\<lparr>os_L := Ballot 1 0\<rparr>)) (Ballot 1 0)
     \<lparr>op_state := \<lparr>role = LEADER, phase = ACCEPT\<rparr>\<rparr>\<rparr>"

definition three_confs :: "int \<Rightarrow> Config" where
  "three_confs n = (if n < 0 then two_confs 3 else two_confs n)"

theorem catchUp_advances_by_one_witness:
  "\<exists>kv' op rest. catchUp proposeNow (\<lambda>num _. [Some (zero_result\<lparr>rs_Config := three_confs num\<rparr>)]) (\<lambda>xs. xs) (\<lambda>_ _. None) behind
       = Some (kv', op # rest) \<and> sk_config kv' = all_to 1"
proof -
  let ?replies = "\<lambda>num _. [Some (zero_result\<lparr>rs_Config := three_confs num\<rparr>)]"
  have "tryForever rs_Err (?replies num) 0 = Some (zero_result\<lparr>rs_Config := three_confs num\<rparr>)" for num
    by (subst tryForever.simps) (simp add: zero_result_def)
  then have ans: "answered ?replies three_confs" by (simp add: answered_def)
  have lead: "leading behind"
    by (simp add: leading_def behind_def sk_started_def freshServer_def zero_os_def zero_promise_def ownPromise_def
        server_ok_def GetState_def chan_def mget0_def promises_ok_def promise_ok_def ballots_ok_def)
  have nums: "\<forall>num > 0. cf_Num (three_confs num) = num"
    by (simp add: three_confs_def two_confs_def all_to_def)
  have cfg: "cf_Num (sk_config behind) = 0" "cf_Num (three_confs LatestConfigNum) = 3" "three_confs 1 = all_to 1"
    by (simp_all add: behind_def sk_started_def zero_config_def three_confs_def two_confs_def LatestConfigNum_def)
  have fetch: "snd (getChangeOp behind (all_to 1) (\<lambda>xs. xs) (\<lambda>_ _. None))" by code_simp
  from catchUp_advances_by_one [OF lead ans nums, of "\<lambda>xs. xs" "\<lambda>_ _. None"] cfg fetch show ?thesis by auto
qed

end
