(* ===== verification/ShardTester.thy ===== *)
theory ShardTester
  imports Endpoints Migration
begin

text \<open>
  The test harness of the sharded service (\<open>a3b-sharding/shardkv/config.go\<close>): three controllers, groups
  of shard servers, and clerks, on one network where servers have names.

  As in \<open>Tester\<close>, the storage of a running server is read from the server, random names are arguments,
  and an instance that was shut down is forgotten.  Nothing in this file tests a row of end points for
  \<open>nil\<close>, so a missing row is the empty list.
\<close>

record 'e group =
  g_gid :: int
  g_servers :: "ShardKV option list"
  g_saved :: "Op gob_msg Persister option list"
  g_endnames :: "'e list list"
  g_mendnames :: "'e list list"

record ('e, 'a, 'w, 'r) shconfig =
  xt_net :: "('e, string, 'a, 'w, 'r) Network"
  xt_nctrlers :: nat
  xt_ctrlerservers :: "ShardCtrler option list"
  xt_mck :: CtrlClerk
  xt_ngroups :: nat
  xt_n :: nat
  xt_groups :: "'e group list"
  xt_clerks :: "(nat, 'e option list) gomap"
  xt_nextClientId :: int
  xt_maxpaxosstate :: int

subsection \<open>Names\<close>

definition ctrlername :: "nat \<Rightarrow> string" where
  "ctrlername i = ''ctrler'' @ Itoa (int i)"

definition servername :: "int \<Rightarrow> nat \<Rightarrow> string" where
  "servername gid i = ''server-'' @ Itoa gid @ ''-'' @ Itoa (int i)"

text \<open>An end point that is made, connected and enabled at once.\<close>

definition openEnd :: "('e, string, 'a, 'w, 'r) Network \<Rightarrow> 'e \<Rightarrow> string \<Rightarrow> tester_stop + ('e, string, 'a, 'w, 'r) Network" where
  "openEnd net name target = res_bind (from_rpc (MakeEnd net name)) (\<lambda>net1. Inr (Enable (Connect net1 name target) name True))"

definition openEnds :: "('e, string, 'a, 'w, 'r) Network \<Rightarrow> ('e \<times> string) list \<Rightarrow> tester_stop + ('e, string, 'a, 'w, 'r) Network" where
  "openEnds = go_foldM (\<lambda>net (name, target). openEnd net name target)"

text \<open>
  The function \<open>make_end\<close> that servers and clerks are given: each use opens an end point with a new
  random name to the server they ask for.  The harness keeps no list of these, so they are never disabled.
\<close>

definition make_end :: "('e, 'a, 'w, 'r) shconfig \<Rightarrow> 'e \<Rightarrow> string \<Rightarrow> tester_stop + ('e, 'a, 'w, 'r) shconfig" where
  "make_end cfg name target = res_bind (openEnd (xt_net cfg) name target) (\<lambda>net1. Inr (cfg\<lparr>xt_net := net1\<rparr>))"

definition addServices :: "('e, string, 'a, 'w, 'r) Network \<Rightarrow> string \<Rightarrow> ('a, 'w, 'r) Service \<Rightarrow> ('a, 'w, 'r) Service
    \<Rightarrow> ('e, string, 'a, 'w, 'r) Network" where
  "addServices net name svc rfsvc =
     (let p = length (rn_heap net)
      in AddServer (net\<lparr>rn_heap := rn_heap net @ [(p, AddService (AddService MakeServer svc) rfsvc)]\<rparr>) name p)"

subsection \<open>Clerks\<close>

text \<open>\<open>endnames\<close> has \<open>cfg.n\<close> places for the \<open>cfg.nctrlers\<close> names the loop stores; \<open>None\<close> is an empty name.\<close>

definition makeShardClient :: "('e, 'a, 'w, 'r) shconfig \<Rightarrow> nat \<Rightarrow> (nat \<Rightarrow> 'e) \<Rightarrow> int \<Rightarrow> int
    \<Rightarrow> tester_stop + (('e, 'a, 'w, 'r) shconfig \<times> ShardClerk)" where
  "makeShardClient cfg ck name rnd1 rnd2 =
     res_bind (go_foldM (\<lambda>(net, rows) j. res_bind (upd rows j (Some (name j))) (\<lambda>rows1.
         res_bind (openEnd net (name j) (ctrlername j)) (\<lambda>net1. Inr (net1, rows1))))
       (xt_net cfg, replicate (xt_n cfg) None) [0..<xt_nctrlers cfg]) (\<lambda>(net1, rows).
     Inr (cfg\<lparr>xt_net := net1, xt_clerks := mput ck rows (xt_clerks cfg),
              xt_nextClientId := xt_nextClientId cfg + 1\<rparr>, MakeShardClerk rnd1 rnd2))"

definition deleteShardClient :: "('e, 'a, 'w, 'r) shconfig \<Rightarrow> nat \<Rightarrow> ('e, 'a, 'w, 'r) shconfig" where
  "deleteShardClient cfg ck = cfg\<lparr>xt_clerks := mdel ck (xt_clerks cfg)\<rparr>"

definition shardclerk :: "('e, 'a, 'w, 'r) shconfig \<Rightarrow> 'e list \<Rightarrow> int \<Rightarrow> tester_stop + (('e, 'a, 'w, 'r) shconfig \<times> CtrlClerk)" where
  "shardclerk cfg names rnd =
     res_bind (openEnds (xt_net cfg) (zip names (map ctrlername [0..<xt_nctrlers cfg]))) (\<lambda>net1.
       Inr (cfg\<lparr>xt_net := net1\<rparr>, MakeCtrlClerk rnd))"

subsection \<open>Servers\<close>

definition savedIn :: "'e group \<Rightarrow> nat \<Rightarrow> Op gob_msg Persister option" where
  "savedIn gg i = (case g_servers gg ! i of Some kv \<Rightarrow> Some (op_persister (sk_op kv)) | None \<Rightarrow> g_saved gg ! i)"

definition disableEnds :: "('e, string, 'a, 'w, 'r) Network \<Rightarrow> 'e list \<Rightarrow> nat \<Rightarrow> tester_stop + ('e, string, 'a, 'w, 'r) Network" where
  "disableEnds net row k = switchEnds (\<lambda>_. Inr True) (idx row) False net [0..<k]"

definition ShutdownShardServer :: "('e, 'a, 'w, 'r) shconfig \<Rightarrow> nat \<Rightarrow> nat \<Rightarrow> tester_stop + ('e, 'a, 'w, 'r) shconfig" where
  "ShutdownShardServer cfg gi i =
     res_bind (idx (xt_groups cfg) gi) (\<lambda>gg. res_bind (idx (g_endnames gg) i) (\<lambda>row.
       res_bind (disableEnds (xt_net cfg) row (length (g_servers gg))) (\<lambda>net1. res_bind (idx (g_mendnames gg) i) (\<lambda>mrow.
         res_bind (disableEnds net1 mrow (length mrow)) (\<lambda>net2.
           res_bind (upd (g_saved gg) i (map_option Copy (savedIn gg i))) (\<lambda>saved.
             res_bind (upd (g_servers gg) i None) (\<lambda>servers.
               Inr (cfg\<lparr>xt_net := DeleteServer net2 (servername (g_gid gg) i),
                        xt_groups := (xt_groups cfg)[gi := gg\<lparr>g_saved := saved, g_servers := servers\<rparr>]\<rparr>))))))))"

definition ShutdownGroup :: "('e, 'a, 'w, 'r) shconfig \<Rightarrow> nat \<Rightarrow> tester_stop + ('e, 'a, 'w, 'r) shconfig" where
  "ShutdownGroup cfg gi = go_foldM (\<lambda>c i. ShutdownShardServer c gi i) cfg [0..<xt_n cfg]"

definition StartShardServer :: "('e, 'a, 'w, 'r) shconfig \<Rightarrow> nat \<Rightarrow> nat \<Rightarrow> 'e list \<Rightarrow> 'e list \<Rightarrow> int
    \<Rightarrow> ('a, 'w, 'r) Service \<Rightarrow> ('a, 'w, 'r) Service \<Rightarrow> tester_stop + ('e, 'a, 'w, 'r) shconfig" where
  "StartShardServer cfg gi i names mnames rnd svc rfsvc =
     res_bind (idx (xt_groups cfg) gi) (\<lambda>gg. res_bind (upd (g_endnames gg) i names) (\<lambda>ends.
       res_bind (openEnds (xt_net cfg) (zip names (map (servername (g_gid gg)) [0..<xt_n cfg]))) (\<lambda>net1.
         res_bind (upd (g_mendnames gg) i mnames) (\<lambda>mends.
           res_bind (openEnds net1 (zip mnames (map ctrlername [0..<xt_nctrlers cfg]))) (\<lambda>net2.
             let ps = (case savedIn gg i of Some ps \<Rightarrow> Copy ps | None \<Rightarrow> MakePersister)
             in res_bind (upd (g_saved gg) i (Some ps)) (\<lambda>saved.
                  res_bind (from_go (StartShardKV (xt_n cfg) (int i) ps (g_gid gg) rnd)) (\<lambda>kv.
                    res_bind (upd (g_servers gg) i (Some kv)) (\<lambda>servers.
                      Inr (cfg\<lparr>xt_net := addServices net2 (servername (g_gid gg) i) svc rfsvc,
                               xt_groups := (xt_groups cfg)[gi := gg\<lparr>g_endnames := ends, g_mendnames := mends,
                                                                 g_saved := saved, g_servers := servers\<rparr>]\<rparr>)))))))))"

text \<open>The random names of the \<open>i\<close>-th server of a group, and what it registers.\<close>

record ('e, 'a, 'w, 'r) choices =
  ch_names :: "nat \<Rightarrow> 'e list"
  ch_mnames :: "nat \<Rightarrow> 'e list"
  ch_rnd :: "nat \<Rightarrow> int"
  ch_svc :: "nat \<Rightarrow> ('a, 'w, 'r) Service"
  ch_rfsvc :: "nat \<Rightarrow> ('a, 'w, 'r) Service"

definition StartGroup :: "('e, 'a, 'w, 'r) shconfig \<Rightarrow> nat \<Rightarrow> ('e, 'a, 'w, 'r) choices \<Rightarrow> tester_stop + ('e, 'a, 'w, 'r) shconfig" where
  "StartGroup cfg gi ch =
     go_foldM (\<lambda>c i. StartShardServer c gi i (ch_names ch i) (ch_mnames ch i) (ch_rnd ch i) (ch_svc ch i) (ch_rfsvc ch i))
       cfg [0..<xt_n cfg]"

definition StartCtrlerserver :: "('e, 'a, 'w, 'r) shconfig \<Rightarrow> nat \<Rightarrow> 'e list \<Rightarrow> ('a, 'w, 'r) Service \<Rightarrow> ('a, 'w, 'r) Service
    \<Rightarrow> tester_stop + ('e, 'a, 'w, 'r) shconfig" where
  "StartCtrlerserver cfg i names svc rfsvc =
     res_bind (openEnds (xt_net cfg) (zip names (map ctrlername [0..<xt_nctrlers cfg]))) (\<lambda>net1.
       res_bind (from_go (StartCtrler (xt_nctrlers cfg) (int i) MakePersister)) (\<lambda>sc.
         res_bind (upd (xt_ctrlerservers cfg) i (Some sc)) (\<lambda>scs.
           Inr (cfg\<lparr>xt_ctrlerservers := scs, xt_net := addServices net1 (ctrlername i) svc rfsvc\<rparr>))))"

subsection \<open>Configurations\<close>

definition joinMap :: "('e, 'a, 'w, 'r) shconfig \<Rightarrow> nat list \<Rightarrow> tester_stop + (int, string list) gomap" where
  "joinMap cfg gis =
     go_foldM (\<lambda>m g. res_bind (idx (xt_groups cfg) g) (\<lambda>gg.
         Inr (mput (g_gid gg) (map (servername (g_gid gg)) [0..<xt_n cfg]) m))) [] gis"

text \<open>The clerk's call may not return; \<open>replies\<close> are what the controllers answer, round by round.\<close>

definition joinm :: "('e, 'a, 'w, 'r) shconfig \<Rightarrow> nat list \<Rightarrow> (nat \<Rightarrow> CtrlResult option list)
    \<Rightarrow> tester_stop + (('e, 'a, 'w, 'r) shconfig \<times> ControllerCommand \<times> unit option)" where
  "joinm cfg gis replies =
     res_bind (joinMap cfg gis) (\<lambda>m.
       case clerkJoin (xt_mck cfg) m replies of (ck, cmd, r) \<Rightarrow> Inr (cfg\<lparr>xt_mck := ck\<rparr>, cmd, r))"

definition joinOne :: "('e, 'a, 'w, 'r) shconfig \<Rightarrow> nat \<Rightarrow> (nat \<Rightarrow> CtrlResult option list)
    \<Rightarrow> tester_stop + (('e, 'a, 'w, 'r) shconfig \<times> ControllerCommand \<times> unit option)" where
  "joinOne cfg gi = joinm cfg [gi]"

definition leavem :: "('e, 'a, 'w, 'r) shconfig \<Rightarrow> nat list \<Rightarrow> (nat \<Rightarrow> CtrlResult option list)
    \<Rightarrow> tester_stop + (('e, 'a, 'w, 'r) shconfig \<times> ControllerCommand \<times> unit option)" where
  "leavem cfg gis replies =
     res_bind (go_mapM (\<lambda>g. res_bind (idx (xt_groups cfg) g) (\<lambda>gg. Inr (g_gid gg))) gis) (\<lambda>gids.
       case clerkLeave (xt_mck cfg) gids replies of (ck, cmd, r) \<Rightarrow> Inr (cfg\<lparr>xt_mck := ck\<rparr>, cmd, r))"

definition leaveOne :: "('e, 'a, 'w, 'r) shconfig \<Rightarrow> nat \<Rightarrow> (nat \<Rightarrow> CtrlResult option list)
    \<Rightarrow> tester_stop + (('e, 'a, 'w, 'r) shconfig \<times> ControllerCommand \<times> unit option)" where
  "leaveOne cfg gi = leavem cfg [gi]"

definition checkOneLog :: "int \<Rightarrow> Op gob_msg Persister option \<Rightarrow> tester_stop + unit" where
  "checkOneLog maxpaxosstate saved =
     (case saved of
        None \<Rightarrow> Inl (TPanic NilDeref)
      | Some ps \<Rightarrow>
          if maxpaxosstate \<ge> 0 \<and> int (OmnipaxosStateSize ps) > 8 * maxpaxosstate then Inl TFail
          else if maxpaxosstate < 0 \<and> length (ReadSnapshot ps) > 0 then Inl TFail else Inr ())"

definition checklogs :: "('e, 'a, 'w, 'r) shconfig \<Rightarrow> tester_stop + unit" where
  "checklogs cfg =
     go_foldM (\<lambda>_ gi. res_bind (idx (xt_groups cfg) gi) (\<lambda>gg.
         go_foldM (\<lambda>_ i. checkOneLog (xt_maxpaxosstate cfg) (savedIn gg i)) () [0..<xt_n cfg])) () [0..<xt_ngroups cfg]"

definition shard_cleanup :: "('e, 'a, 'w, 'r) shconfig \<Rightarrow> tester_stop + ('e, 'a, 'w, 'r) shconfig" where
  "shard_cleanup cfg =
     res_bind (go_foldM ShutdownGroup cfg [0..<xt_ngroups cfg]) (\<lambda>cfg1.
       if None \<in> set (take (xt_nctrlers cfg1) (xt_ctrlerservers cfg1)) then Inl (TPanic NilDeref)
       else Inr (cfg1\<lparr>xt_ctrlerservers := map (map_option CtrlKill) (xt_ctrlerservers cfg1), xt_net := Cleanup (xt_net cfg1)\<rparr>))"

subsection \<open>Making a configuration\<close>

definition emptyGroup :: "nat \<Rightarrow> nat \<Rightarrow> nat \<Rightarrow> 'e group" where
  "emptyGroup n nctrlers gi =
     \<lparr>g_gid = 100 + int gi, g_servers = replicate n None, g_saved = replicate n None, g_endnames = replicate n [],
      g_mendnames = replicate nctrlers []\<rparr>"

text \<open>
  Before the loops: three controllers and three groups are going to be made.  The groups are all in
  place at once; the code adds each one just before it starts its servers, which nothing else reads.
\<close>

definition emptyShardConfig :: "nat \<Rightarrow> int \<Rightarrow> ('e, 'a, 'w, 'r) shconfig" where
  "emptyShardConfig n maxpaxosstate =
     \<lparr>xt_net = MakeNetwork, xt_nctrlers = 3, xt_ctrlerservers = replicate 3 None, xt_mck = MakeCtrlClerk 0, xt_ngroups = 3,
      xt_n = n, xt_groups = map (emptyGroup n 3) [0..<3], xt_clerks = [], xt_nextClientId = int n + 1000,
      xt_maxpaxosstate = maxpaxosstate\<rparr>"

definition make_shard_config :: "nat \<Rightarrow> bool \<Rightarrow> int \<Rightarrow> ('e, 'a, 'w, 'r) choices \<Rightarrow> 'e list \<Rightarrow> int \<Rightarrow> (nat \<Rightarrow> ('e, 'a, 'w, 'r) choices)
    \<Rightarrow> tester_stop + ('e, 'a, 'w, 'r) shconfig" where
  "make_shard_config n unreliable maxpaxosstate cch cnames crnd gch =
     res_bind (go_foldM (\<lambda>c i. StartCtrlerserver c i (ch_names cch i) (ch_svc cch i) (ch_rfsvc cch i))
                 (emptyShardConfig n maxpaxosstate) [0..<3]) (\<lambda>cfg1.
       res_bind (shardclerk cfg1 cnames crnd) (\<lambda>(cfg2, mck).
         res_bind (go_foldM (\<lambda>c gi. StartGroup c gi (gch gi)) (cfg2\<lparr>xt_mck := mck\<rparr>) [0..<3]) (\<lambda>cfg3.
           Inr (cfg3\<lparr>xt_net := Reliable (xt_net cfg3) (\<not> unreliable)\<rparr>))))"

end
