(* ===== verification/Rebalance.thy ===== *)
theory Rebalance
  imports ShardCtrler
begin

text \<open>
  The rebalancing of shards: \<open>balance\<close> terminates whenever there is a group to give shards to, and
  then no two groups differ by more than one shard, every shard has an owner, and no group both
  gains and loses shards.  \<open>assingToMin\<close> moves the shards of removed groups only and keeps the
  others balanced.  \<open>owners_of all sh\<close> says that the map \<open>all\<close> lists the shards each group owns
  according to the array \<open>sh\<close>.
\<close>

definition owners_of :: "owners \<Rightarrow> int list \<Rightarrow> bool" where
  "owners_of all sh \<longleftrightarrow> gomap_ok all
     \<and> (\<forall>g. distinct (mget0 [] all g) \<and> set (mget0 [] all g) = {int i | i. i < length sh \<and> sh ! i = g})"

definition groups_in :: "owners \<Rightarrow> int set" where
  "groups_in all = fst ` set all - {0}"

definition gained :: "int list \<Rightarrow> int list \<Rightarrow> int \<Rightarrow> bool" where
  "gained old sh g \<longleftrightarrow> (\<exists>i < length sh. old ! i \<noteq> g \<and> sh ! i = g)"

definition lost :: "int list \<Rightarrow> int list \<Rightarrow> int \<Rightarrow> bool" where
  "lost old sh g \<longleftrightarrow> (\<exists>i < length sh. old ! i = g \<and> sh ! i \<noteq> g)"

definition within_one :: "int list \<Rightarrow> int set \<Rightarrow> bool" where
  "within_one sh K \<longleftrightarrow> (\<forall>g \<in> K. \<forall>h \<in> K. count_list sh g \<le> count_list sh h + 1)"

subsection \<open>Counting\<close>

lemma count_list_conv: "count_list sh g = card {i. i < length sh \<and> sh ! i = g}"
proof -
  have "count_list sh g = length (filter (\<lambda>x. x = g) sh)"
    by (induction sh) auto
  then show ?thesis by (simp add: length_filter_conv_card)
qed

lemma count_list_update:
  assumes "i < length sh" and "a \<noteq> b" and "sh ! i = a"
  shows "count_list (sh[i := b]) g = (if g = a then count_list sh g - 1 else if g = b then count_list sh g + 1 else count_list sh g)"
    and "0 < count_list sh a"
proof -
  have "count (mset (sh[i := b])) g = count (add_mset b (mset sh - {#a#})) g"
    using assms by (simp add: mset_update)
  then show "count_list (sh[i := b]) g = (if g = a then count_list sh g - 1 else if g = b then count_list sh g + 1 else count_list sh g)"
    using assms(2) by (auto simp: count_mset)
  show "0 < count_list sh a"
    using assms by (metis count_greater_zero_iff count_mset nth_mem set_mset_mset)
qed

lemma owners_len:
  assumes "owners_of all sh"
  shows "len_of all g = int (count_list sh g)"
proof -
  have "length (mget0 [] all g) = card (set (mget0 [] all g))"
    using assms by (metis owners_of_def distinct_card)
  also have "\<dots> = card (int ` {i. i < length sh \<and> sh ! i = g})"
    using assms unfolding owners_of_def by (intro arg_cong [of _ _ card]) blast
  also have "\<dots> = count_list sh g" by (simp add: count_list_conv card_image)
  finally show ?thesis by (simp add: len_of_def)
qed

lemma owner_key: "owners_of all sh \<Longrightarrow> i < length sh \<Longrightarrow> sh ! i \<in> fst ` set all"
proof -
  assume "owners_of all sh" "i < length sh"
  then have "int i \<in> set (mget0 [] all (sh ! i))" by (auto simp: owners_of_def)
  then show ?thesis by (intro mget0_key [of "[]"]) auto
qed

subsection \<open>The greatest and the smallest group\<close>

lemma fold_argmax:
  fixes f :: "int \<Rightarrow> int"
  assumes "fold (\<lambda>k (mx, gid). if mx < f k then (f k, k) else (mx, gid)) ks (m0, g0) = (m, g)"
  shows "m0 \<le> m \<and> (\<forall>k \<in> set ks. f k \<le> m) \<and> (m = m0 \<and> g = g0 \<or> g \<in> set ks \<and> m = f g)"
  using assms
proof (induction ks arbitrary: m0 g0)
  case (Cons k ks)
  show ?case
  proof (cases "m0 < f k")
    case True
    with Cons.prems Cons.IH [of "f k" k] show ?thesis by auto
  next
    case False
    with Cons.prems Cons.IH [of m0 g0] show ?thesis by auto
  qed
qed simp

lemma fold_argmin:
  fixes f :: "int \<Rightarrow> int"
  assumes "fold (\<lambda>k (mn, gid). if mn > f k \<and> k \<noteq> 0 then (f k, k) else (mn, gid)) ks (m0, g0) = (m, g)"
  shows "m \<le> m0 \<and> (\<forall>k \<in> set ks. k \<noteq> 0 \<longrightarrow> m \<le> f k) \<and> (m = m0 \<and> g = g0 \<or> g \<in> set ks \<and> g \<noteq> 0 \<and> m = f g)"
  using assms
proof (induction ks arbitrary: m0 g0)
  case (Cons k ks)
  show ?case
  proof (cases "m0 > f k \<and> k \<noteq> 0")
    case True
    with Cons.prems Cons.IH [of "f k" k] show ?thesis by auto
  next
    case False
    with Cons.prems Cons.IH [of m0 g0] show ?thesis by auto
  qed
qed simp

lemma sortedKeys_set: "set (sortedKeys all) = fst ` set all \<union> (if all = [] then {} else {0})"
  by (auto simp: sortedKeys_def)

lemma len_of_nonneg [simp]: "0 \<le> len_of all k"
  by (simp add: len_of_def)

lemma len_of_key: "0 < len_of all k \<Longrightarrow> k \<in> fst ` set all"
  by (rule mget0_key [of "[]"]) (auto simp: len_of_def)

lemma maxGroup_zero: "0 < len_of all 0 \<Longrightarrow> maxGroup all = 0"
  using len_of_key [of all 0] by (auto simp: maxGroup_def map_of_eq_None_iff)

lemma maxGroup_correct:
  assumes "len_of all 0 = 0" and "0 < len_of all k"
  shows "maxGroup all \<in> groups_in all \<and> len_of all h \<le> len_of all (maxGroup all)"
proof -
  obtain m g where f: "fold (\<lambda>k (mx, gid). if mx < len_of all k then (len_of all k, k) else (mx, gid))
      (sortedKeys all) (0, 0) = (m, g)" by fastforce
  then have g: "maxGroup all = g" using assms(1) by (simp add: maxGroup_def)
  note F = fold_argmax [OF f]
  have "k \<in> set (sortedKeys all)" using len_of_key [OF assms(2)] by (simp add: sortedKeys_set)
  with F assms(2) have "0 < m" "m = len_of all g" by force+
  moreover have "len_of all h \<le> m"
  proof (cases "0 < len_of all h")
    case True
    then have "h \<in> set (sortedKeys all)" using len_of_key [OF True] by (simp add: sortedKeys_set)
    with F show ?thesis by blast
  qed (use \<open>0 < m\<close> in linarith)
  ultimately show ?thesis
    using assms(1) g len_of_key [of all g] by (auto simp: groups_in_def)
qed

lemma minGroup_correct:
  assumes "k \<in> groups_in all" and "len_of all k < MaxUint32"
  shows "minGroup all \<in> groups_in all" and "h \<in> groups_in all \<Longrightarrow> len_of all (minGroup all) \<le> len_of all h"
proof -
  obtain m g where f: "fold (\<lambda>k (mn, gid). if mn > len_of all k \<and> k \<noteq> 0 then (len_of all k, k) else (mn, gid))
      (sortedKeys all) (MaxUint32, 0) = (m, g)" by fastforce
  then have g: "minGroup all = g" by (simp add: minGroup_def)
  note F = fold_argmin [OF f]
  have sub: "groups_in all \<subseteq> set (sortedKeys all)" by (auto simp: groups_in_def sortedKeys_set)
  have "k \<noteq> 0" using assms(1) by (simp add: groups_in_def)
  with F sub assms have "g \<in> set (sortedKeys all) \<and> g \<noteq> 0 \<and> m = len_of all g" by force
  then show "minGroup all \<in> groups_in all" "h \<in> groups_in all \<Longrightarrow> len_of all (minGroup all) \<le> len_of all h"
    using F sub g by (auto simp: groups_in_def sortedKeys_set split: if_splits)
qed

lemma minGroup_none: "groups_in all = {} \<Longrightarrow> minGroup all = 0"
proof -
  assume e: "groups_in all = {}"
  obtain m g where f: "fold (\<lambda>k (mn, gid). if mn > len_of all k \<and> k \<noteq> 0 then (len_of all k, k) else (mn, gid))
      (sortedKeys all) (MaxUint32, 0) = (m, g)" by fastforce
  from fold_argmin [OF f] e show ?thesis
    using f by (auto simp: minGroup_def groups_in_def sortedKeys_set split: if_splits)
qed

subsection \<open>One move\<close>

definition fair_moves :: "int list \<Rightarrow> int list \<Rightarrow> int set \<Rightarrow> bool" where
  "fair_moves old sh K \<longleftrightarrow> length old = length sh
     \<and> (\<forall>g. gained old sh g \<longrightarrow> g \<in> K \<and> (\<forall>h \<in> K. count_list sh g \<le> count_list sh h + 1))
     \<and> (\<forall>g. lost old sh g \<longrightarrow> g = 0 \<or> (\<forall>h \<in> K. count_list sh h \<le> count_list sh g + 1))
     \<and> (0 < count_list sh 0 \<longrightarrow> (\<forall>g. lost old sh g \<longrightarrow> g = 0))
     \<and> (\<forall>g. \<not> (gained old sh g \<and> lost old sh g))"

lemma fair_moves_refl: "fair_moves sh sh K"
  by (auto simp: fair_moves_def gained_def lost_def)

lemma gained_update: "gained old (sh[i := b]) g \<Longrightarrow> gained old sh g \<or> g = b"
  unfolding gained_def by (metis length_list_update nth_list_update_eq nth_list_update_neq)

lemma lost_update: "lost old (sh[i := b]) g \<Longrightarrow> lost old sh g \<or> g = sh ! i"
  unfolding lost_def by (metis length_list_update nth_list_update_neq)

lemma fair_moves_unassigned:
  assumes fair: "fair_moves old sh K" and i: "i < length sh" "sh ! i = 0"
    and mn: "mn \<in> K" "\<forall>h \<in> K. count_list sh mn \<le> count_list sh h" and K: "0 \<notin> K"
  shows "fair_moves old (sh[i := mn]) K"
proof -
  have "mn \<noteq> 0" using mn K by blast
  note c = count_list_update [OF i(1) this [symmetric] i(2)]
  have lost: "lost old sh g \<Longrightarrow> g = 0" for g using fair c(2) by (simp add: fair_moves_def)
  then have lost': "lost old (sh[i := mn]) g \<Longrightarrow> g = 0" for g using lost_update i(2) by blast
  have gained': "g \<in> K \<and> (\<forall>h \<in> K. count_list (sh[i := mn]) g \<le> count_list (sh[i := mn]) h + 1)"
    if "gained old (sh[i := mn]) g" for g
    using gained_update [OF that]
  proof
    assume g: "gained old sh g"
    show ?thesis
    proof (cases "g = mn")
      case True
      with mn K c(1) show ?thesis by auto
    next
      case False
      with g fair K show ?thesis by (auto simp: fair_moves_def c(1) intro: le_SucI)
    qed
  next
    assume "g = mn"
    with mn K c(1) show ?thesis by auto
  qed
  with lost' K fair show ?thesis by (auto simp: fair_moves_def)
qed

lemma fair_moves_balance:
  assumes fair: "fair_moves old sh K" and i: "i < length sh" "sh ! i = mx"
    and mn: "mn \<in> K" "\<forall>h \<in> K. count_list sh mn \<le> count_list sh h" and K: "0 \<notin> K"
    and mx: "mx \<in> K" "\<forall>h \<in> K. count_list sh h \<le> count_list sh mx" "count_list sh mn + 1 < count_list sh mx"
    and zero: "count_list sh 0 = 0"
  shows "fair_moves old (sh[i := mn]) K"
proof -
  have ne: "mx \<noteq> mn" "mn \<noteq> 0" "mx \<noteq> 0" using mn mx K by auto
  note c = count_list_update(1) [OF i(1) ne(1) i(2)]
  have not: "\<not> gained old sh mx" "\<not> lost old sh mn"
    using fair mn(1) mx(1,3) ne by (fastforce simp: fair_moves_def)+
  have gained': "g \<in> K \<and> (\<forall>h \<in> K. count_list (sh[i := mn]) g \<le> count_list (sh[i := mn]) h + 1)"
    if g: "gained old (sh[i := mn]) g" for g
  proof (cases "g = mn")
    case True
    have "count_list sh mn \<le> count_list (sh[i := mn]) h" if "h \<in> K" for h
      using c [of h] mn(2) mx(3) that by (cases "h = mx") auto
    with True mn(1) c [of mn] ne show ?thesis by auto
  next
    case False
    with gained_update [OF g] not have g: "gained old sh g" "g \<noteq> mx" by auto
    then have f: "g \<in> K" "\<forall>h \<in> K. count_list sh g \<le> count_list sh h + 1" using fair by (auto simp: fair_moves_def)
    have "count_list sh g \<le> count_list (sh[i := mn]) h + 1" if "h \<in> K" for h
    proof (cases "h = mx")
      case True
      have "count_list sh g \<le> count_list sh mx" using f(1) mx(2) by blast
      then show ?thesis using c [of h] True by simp
    next
      case False
      then show ?thesis using c [of h] f(2) that by (auto intro: le_SucI)
    qed
    with False g f(1) c [of g] show ?thesis by auto
  qed
  have lost': "g = 0 \<or> (\<forall>h \<in> K. count_list (sh[i := mn]) h \<le> count_list (sh[i := mn]) g + 1)"
    if g: "lost old (sh[i := mn]) g" for g
  proof (cases "g = mx")
    case True
    have "count_list (sh[i := mn]) h \<le> count_list sh mx" if "h \<in> K" for h
      using c [of h] mx(2,3) that by (cases "h = mn") auto
    moreover have "count_list sh mx = count_list (sh[i := mn]) mx + 1" using c [of mx] mx(3) by simp
    ultimately show ?thesis using True by auto
  next
    case False
    with lost_update [OF g] i(2) not have g: "lost old sh g" "g \<noteq> mn" by auto
    show ?thesis
    proof (cases "g = 0")
      case False
      with g fair have l: "\<forall>h \<in> K. count_list sh h \<le> count_list sh g + 1" by (auto simp: fair_moves_def)
      then have "count_list sh mx \<le> count_list sh g + 1" using mx(1) by blast
      then have "count_list (sh[i := mn]) h \<le> count_list sh g + 1" if "h \<in> K" for h
        using c [of h] l mx(3) that by (cases "h = mn") (auto simp: le_diff_conv intro: le_SucI)
      with \<open>g \<noteq> mx\<close> g(2) c [of g] show ?thesis by auto
    qed simp
  qed
  have "\<not> (gained old (sh[i := mn]) g \<and> lost old (sh[i := mn]) g)" for g
    using gained_update [of old sh i mn g] lost_update [of old sh i mn g] not ne i(2) fair
    by (auto simp: fair_moves_def)
  moreover have "count_list (sh[i := mn]) 0 = 0" using c [of 0] ne zero by auto
  ultimately show ?thesis using gained' lost' fair by (simp add: fair_moves_def)
qed

lemma owners_move:
  assumes own: "owners_of all sh" and fst: "mget0 [] all mx = x # xs" and ne: "mx \<noteq> mn"
  defines "all1 \<equiv> mput mx xs all"
  shows "owners_of (mput mn (mget0 [] all1 mn @ [x]) all1) (sh[nat x := mn])"
    and "0 \<le> x" "nat x < length sh" "sh ! nat x = mx"
proof -
  have d: "distinct (x # xs)" "set (x # xs) = {int i | i. i < length sh \<and> sh ! i = mx}"
    using own fst unfolding owners_of_def by metis+
  then obtain i where i: "x = int i" "i < length sh" "sh ! i = mx" by auto
  then show "0 \<le> x" "nat x < length sh" "sh ! nat x = mx" by simp_all
  have other: "distinct (mget0 [] all g)" "set (mget0 [] all g) = {int i | i. i < length sh \<and> sh ! i = g}" for g
    using own by (auto simp: owners_of_def)
  have "set xs = {int k | k. k < length sh \<and> (sh[i := mn]) ! k = mx}"
  proof -
    have "set xs = set (x # xs) - {x}" using d(1) by auto
    also have "\<dots> = {int k | k. k < length sh \<and> sh ! k = mx \<and> k \<noteq> i}" unfolding d(2) using i(1) by auto
    also have "\<dots> = {int k | k. k < length sh \<and> (sh[i := mn]) ! k = mx}"
      using ne i(2) by (auto simp: nth_list_update split: if_splits)
    finally show ?thesis .
  qed
  moreover have "set (mget0 [] all mn @ [x]) = {int k | k. k < length sh \<and> (sh[i := mn]) ! k = mn}"
    using other(2) [of mn] i(1,2) by (auto simp: nth_list_update split: if_splits)
  moreover have "x \<notin> set (mget0 [] all mn)" using other(2) [of mn] i ne by auto
  moreover have "{int k | k. k < length sh \<and> sh ! k = g} = {int k | k. k < length sh \<and> (sh[i := mn]) ! k = g}"
    if "g \<noteq> mx" "g \<noteq> mn" for g
    using that i by (auto simp: nth_list_update split: if_splits)
  ultimately show "owners_of (mput mn (mget0 [] all1 mn @ [x]) all1) (sh[nat x := mn])"
    using own d(1) other ne i(1) unfolding owners_of_def all1_def by (auto simp: i(1))
qed

lemma sum_squares_move:
  fixes K :: "int set"
  assumes "finite K" and "mx \<in> K" "mn \<in> K" "mx \<noteq> mn" and "i < length sh" "sh ! i = mx"
    and "count_list sh mn + 1 < count_list sh mx"
  shows "(\<Sum>k \<in> K. (count_list (sh[i := mn]) k)\<^sup>2) < (\<Sum>k \<in> K. (count_list sh k)\<^sup>2)"
proof -
  note c = count_list_update(1) [OF assms(5,4,6)]
  have split: "(\<Sum>k \<in> K. f k) = f mx + f mn + (\<Sum>k \<in> K - {mx} - {mn}. f k)" for f :: "int \<Rightarrow> nat"
    using assms(1-4) by (simp add: sum.remove [of K mx] sum.remove [of "K - {mx}" mn])
  have "(\<Sum>k \<in> K - {mx} - {mn}. (count_list (sh[i := mn]) k)\<^sup>2) = (\<Sum>k \<in> K - {mx} - {mn}. (count_list sh k)\<^sup>2)"
    by (rule sum.cong) (auto simp: c)
  moreover have "(count_list (sh[i := mn]) mx)\<^sup>2 + (count_list (sh[i := mn]) mn)\<^sup>2
      < (count_list sh mx)\<^sup>2 + (count_list sh mn)\<^sup>2"
  proof -
    have "count_list sh mn + 2 \<le> count_list sh mx" using assms(7) by simp
    then obtain a where a: "count_list sh mx = count_list sh mn + 2 + a" by (auto simp: le_iff_add)
    show ?thesis using assms(4) by (simp add: c a power2_eq_square algebra_simps)
  qed
  ultimately show ?thesis unfolding split [of "\<lambda>k. (count_list (sh[i := mn]) k)\<^sup>2"] split [of "\<lambda>k. (count_list sh k)\<^sup>2"]
    by linarith
qed

subsection \<open>The whole rebalancing\<close>

lemma balance_unfold:
  assumes own: "owners_of all sh" and c: "cf_Shards c = sh" and fst: "mget0 [] all (maxGroup all) = x # xs"
    and ne: "maxGroup all \<noteq> minGroup all"
    and go: "maxGroup all = 0 \<or> \<not> len_of all (maxGroup all) \<le> 1 + len_of all (minGroup all)"
  shows "balance all c 1 =
    balance (mput (minGroup all) (mget0 [] (mput (maxGroup all) xs all) (minGroup all) @ [x]) (mput (maxGroup all) xs all))
      (c\<lparr>cf_Shards := sh[nat x := minGroup all]\<rparr>) 1"
proof -
  note m = owners_move [OF own fst ne]
  have "go_index (mget0 [] all (maxGroup all)) 0 = Inr x" using fst by (simp add: go_index_def)
  moreover have "go_set (cf_Shards c) x (minGroup all) = Inr (sh[nat x := minGroup all])"
    using m(2,3) c by (simp add: go_set_def nat_less_iff)
  ultimately show ?thesis
    using go ne fst by (subst balance.simps) (auto simp: Let_def)
qed

lemma balance_done:
  "maxGroup all \<noteq> 0 \<Longrightarrow> len_of all (maxGroup all) \<le> 1 + len_of all (minGroup all) \<Longrightarrow> balance all c 1 = Some (Inr c)"
  by (subst balance.simps) simp

lemma mput_keys_same: "k \<in> fst ` set m \<Longrightarrow> fst ` set (mput k v m) = fst ` set m"
  by auto

lemma balance_correct:
  assumes "owners_of all sh" and "cf_Shards c = sh" and "groups_in all = K" and "K \<noteq> {}"
    and "0 < length sh" "int (length sh) < MaxUint32" and "fair_moves old sh K"
  shows "\<exists>sh'. balance all c 1 = Some (Inr (c\<lparr>cf_Shards := sh'\<rparr>)) \<and> length sh' = length sh
    \<and> fair_moves old sh' K \<and> within_one sh' K \<and> set sh' \<subseteq> K"
  using assms
proof (induction "(all, sh)" arbitrary: all sh c
    rule: wf_induct_rule [OF wf_measures [of "[\<lambda>(all, sh). count_list sh 0, \<lambda>(all, sh). \<Sum>k \<in> K. (count_list sh k)\<^sup>2]"]])
  case (1 all sh c)
  let ?mx = "maxGroup all" and ?mn = "minGroup all"
  note own = "1.prems"(1) and len = owners_len [OF "1.prems"(1)]
  have lt: "len_of all k < MaxUint32" for k
    using len [of k] "1.prems"(6) count_le_length [of sh k] by simp
  obtain k where "k \<in> groups_in all" using "1.prems"(3,4) by blast
  note mn = minGroup_correct [OF this lt]
  have K0: "0 \<notin> K" "finite K" using "1.prems"(3) by (auto simp: groups_in_def)
  have mnK: "?mn \<in> K" "\<forall>h \<in> K. count_list sh ?mn \<le> count_list sh h"
    using mn "1.prems"(3) len by (metis, metis nat_int_comparison(3))
  then have mn0: "?mn \<noteq> 0" using K0 by auto
  have keys: "set sh \<subseteq> insert 0 K"
    using owner_key [OF own] "1.prems"(3) by (auto simp: groups_in_def in_set_conv_nth)
  have rec: ?case if fst: "mget0 [] all ?mx = x # xs" and ne: "?mx \<noteq> ?mn"
    and go: "?mx = 0 \<or> \<not> len_of all ?mx \<le> 1 + len_of all ?mn"
    and fair: "fair_moves old (sh[nat x := ?mn]) K"
    and less: "count_list (sh[nat x := ?mn]) 0 < count_list sh 0
      \<or> count_list (sh[nat x := ?mn]) 0 = count_list sh 0
        \<and> (\<Sum>k \<in> K. (count_list (sh[nat x := ?mn]) k)\<^sup>2) < (\<Sum>k \<in> K. (count_list sh k)\<^sup>2)" for x xs
  proof -
    let ?all = "mput ?mn (mget0 [] (mput ?mx xs all) ?mn @ [x]) (mput ?mx xs all)"
    note m = owners_move [OF own fst ne]
    have "?mx \<in> fst ` set all" "?mn \<in> fst ` set all"
      using fst mn(1) by (auto intro!: mget0_key [of "[]"] simp: groups_in_def)
    then have "groups_in ?all = K" using "1.prems"(3) by (auto simp: groups_in_def)
    then show ?thesis
      unfolding balance_unfold [OF own "1.prems"(2) fst ne go]
      using "1.hyps" [of ?all "sh[nat x := ?mn]" "c\<lparr>cf_Shards := sh[nat x := ?mn]\<rparr>"] m(1) less "1.prems"(4-6) fair
      by simp
  qed
  show ?case
  proof (cases "0 < count_list sh 0")
    case True
    then have mx: "?mx = 0" "len_of all 0 > 0" using len [of 0] maxGroup_zero [of all] by auto
    then obtain x xs where x: "mget0 [] all ?mx = x # xs" by (auto simp: len_of_def neq_Nil_conv)
    have ne: "?mx \<noteq> ?mn" using mn0 mx by simp
    note m = owners_move [OF own x ne]
    have "0 \<noteq> ?mn" using mn0 by simp
    note cnt = count_list_update [OF m(3) this m(4) [unfolded mx(1)]]
    show ?thesis
      by (rule rec [OF x ne])
         (use mx fair_moves_unassigned [OF "1.prems"(7) m(3) _ mnK K0(1)] m(4) cnt(1) [of 0] cnt(2) in auto)
  next
    case False
    then have z: "count_list sh 0 = 0" "len_of all 0 = 0" using len [of 0] by auto
    obtain g where g: "0 < len_of all g"
      using "1.prems"(5) len by (metis count_list_0_iff gr0I nth_mem of_nat_0_less_iff)
    note mx = maxGroup_correct [OF z(2) g]
    then have mxK: "?mx \<in> K" "\<forall>h \<in> K. count_list sh h \<le> count_list sh ?mx"
      using "1.prems"(3) len by (metis, metis nat_int_comparison(3))
    show ?thesis
    proof (cases "len_of all ?mx \<le> 1 + len_of all ?mn")
      case True
      have "within_one sh K"
        using True mnK(2) mxK(2) len by (fastforce simp: within_one_def)
      moreover have "set sh \<subseteq> K" using keys z(1) by (auto simp: count_list_0_iff)
      moreover have "?mx \<noteq> 0" using mxK(1) K0(1) by auto
      ultimately show ?thesis
        using balance_done [OF _ True, of c] "1.prems"(2,7) by (intro exI [of _ sh]) auto
    next
      case big: False
      then have b: "count_list sh ?mn + 1 < count_list sh ?mx" using len by simp
      then obtain x xs where x: "mget0 [] all ?mx = x # xs" using len [of ?mx] by (cases "mget0 [] all ?mx") (auto simp: len_of_def)
      have ne: "?mx \<noteq> ?mn" using b by auto
      note m = owners_move [OF own x ne]
      have "?mx \<noteq> 0" using mxK(1) K0(1) by auto
      then have "count_list (sh[nat x := ?mn]) 0 = count_list sh 0"
        using count_list_update(1) [OF m(3) ne m(4), of 0] mn0 by simp
      then show ?thesis
        by (intro rec [OF x ne])
           (use big fair_moves_balance [OF "1.prems"(7) m(3,4) mnK K0(1) mxK b z(1)]
              sum_squares_move [OF K0(2) mxK(1) mnK(1) ne m(3,4) b] in auto)
    qed
  qed
qed

subsection \<open>Join\<close>

lemma upd_groups_fold:
  "fold (\<lambda>(gid, srv) (all, gs). (mput gid [] all, mput gid srv gs)) ss (all, gs) = (all', gs') \<Longrightarrow>
     fst ` set all' = fst ` set ss \<union> fst ` set all \<and> fst ` set gs' = fst ` set ss \<union> fst ` set gs
     \<and> (gomap_ok all \<longrightarrow> gomap_ok all') \<and> (gomap_ok gs \<longrightarrow> gomap_ok gs')
     \<and> ((\<forall>g. mget0 [] all g = []) \<longrightarrow> (\<forall>g. mget0 [] all' g = []))"
proof (induction ss arbitrary: all gs)
  case Nil
  then show ?case by simp
next
  case (Cons s ss)
  obtain g srv where s: "s = (g, srv)" by fastforce
  have "fold (\<lambda>(gid, srv) (all, gs). (mput gid [] all, mput gid srv gs)) ss (mput g [] all, mput g srv gs) = (all', gs')"
    using Cons.prems s by simp
  from Cons.IH [OF this] s show ?case by auto
qed

lemma add_owners_fold:
  assumes "gomap_ok all" and "\<forall>g. mget0 [] all g = []" and "n \<le> length sh"
  defines "r \<equiv> fold (\<lambda>i all. mput (sh ! i) (mget0 [] all (sh ! i) @ [int i]) all) [0..<n] all"
  shows "gomap_ok r \<and> fst ` set r = fst ` set all \<union> set (take n sh)
    \<and> (\<forall>g. distinct (mget0 [] r g) \<and> set (mget0 [] r g) = {int i | i. i < n \<and> sh ! i = g})"
  using assms(3) unfolding r_def
proof (induction n)
  case 0
  then show ?case using assms(1,2) by simp
next
  case (Suc n)
  let ?r = "fold (\<lambda>i all. mput (sh ! i) (mget0 [] all (sh ! i) @ [int i]) all) [0..<n] all"
  have IH: "gomap_ok ?r" "fst ` set ?r = fst ` set all \<union> set (take n sh)"
    "\<And>g. distinct (mget0 [] ?r g)" "\<And>g. set (mget0 [] ?r g) = {int i | i. i < n \<and> sh ! i = g}"
    using Suc by auto
  have "set (take (Suc n) sh) = insert (sh ! n) (set (take n sh))"
    using Suc.prems by (simp add: take_Suc_conv_app_nth)
  moreover have "{int i | i. i < Suc n \<and> sh ! i = g} =
      (if sh ! n = g then insert (int n) {int i | i. i < n \<and> sh ! i = g} else {int i | i. i < n \<and> sh ! i = g})" for g
    by (auto simp: less_Suc_eq)
  ultimately show ?case using IH by simp
qed

lemma joinOwners_correct:
  assumes "joinOwners cmd c = (all, c1)" and "length (cf_Shards c) = NShards"
  shows "owners_of all (cf_Shards c)" and "fst ` set all = fst ` set (cc_Servers cmd) \<union> set (cf_Shards c)"
    and "cf_Shards c1 = cf_Shards c" "cf_Num c1 = cf_Num c"
    and "fst ` set (cf_Groups c1) = fst ` set (cc_Servers cmd) \<union> fst ` set (cf_Groups c)"
    and "gomap_ok (cf_Groups c) \<Longrightarrow> gomap_ok (cf_Groups c1)"
proof -
  obtain a :: owners and gs where f: "fold (\<lambda>(gid, srv) (all, gs). (mput gid [] all, mput gid srv gs)) (cc_Servers cmd)
      ([], cf_Groups c) = (a, gs)" by fastforce
  note U = upd_groups_fold [OF f]
  have a: "gomap_ok a" "\<forall>g. mget0 [] a g = []" using U by (auto simp: mget0_def)
  have r: "all = fold (\<lambda>i all. mput (cf_Shards c ! i) (mget0 [] all (cf_Shards c ! i) @ [int i]) all) [0..<NShards] a"
    "c1 = c\<lparr>cf_Groups := gs\<rparr>"
    using assms(1) f by (simp_all add: joinOwners_def)
  note A = add_owners_fold [OF a, of NShards "cf_Shards c", folded r(1)]
  show "owners_of all (cf_Shards c)" "fst ` set all = fst ` set (cc_Servers cmd) \<union> set (cf_Shards c)"
    using A U assms(2) by (auto simp: owners_of_def)
  show "cf_Shards c1 = cf_Shards c" "cf_Num c1 = cf_Num c" "gomap_ok (cf_Groups c) \<Longrightarrow> gomap_ok (cf_Groups c1)"
    "fst ` set (cf_Groups c1) = fst ` set (cc_Servers cmd) \<union> fst ` set (cf_Groups c)"
    using U r(2) by auto
qed

text \<open>
  What the controller wants of a configuration: one owner per shard, which is a group of the
  configuration when there is one and 0 otherwise, and no two groups more than one shard apart.
\<close>

definition gids :: "Config \<Rightarrow> int set" where
  "gids c = fst ` set (cf_Groups c)"

definition receivers :: "int set \<Rightarrow> int set" where
  "receivers K = (if K = {} then {0} else K)"

definition config_ok :: "Config \<Rightarrow> bool" where
  "config_ok c \<longleftrightarrow> length (cf_Shards c) = NShards \<and> gomap_ok (cf_Groups c) \<and> 0 \<notin> gids c
     \<and> set (cf_Shards c) \<subseteq> receivers (gids c) \<and> within_one (cf_Shards c) (gids c)"

lemma within_one_small: "\<forall>g. count_list sh g \<le> 1 \<Longrightarrow> within_one sh K"
  by (auto simp: within_one_def intro: le_trans)

lemma join_idle_group:
  assumes own: "owners_of all sh" and z: "0 \<notin> set sh" and pos: "0 < length sh" and small: "\<forall>g. count_list sh g \<le> 1"
  shows "balance all c 1 = Some (Inr c)"
proof (rule balance_done)
  have z: "len_of all 0 = 0" using z owners_len [OF own, of 0] by simp
  have "0 < len_of all (sh ! 0)"
    using owners_len [OF own, of "sh ! 0"] pos by (metis count_list_0_iff gr0I nth_mem of_nat_0_less_iff)
  from maxGroup_correct [OF z this, of 0] show "maxGroup all \<noteq> 0" by (simp add: groups_in_def)
  have "len_of all (maxGroup all) \<le> 1" using owners_len [OF own] small by simp
  then show "len_of all (maxGroup all) \<le> 1 + len_of all (minGroup all)"
    using len_of_nonneg [of all "minGroup all"] by linarith
qed

lemma join_balanced:
  assumes ok: "config_ok c" and j: "joinOwners cmd c = (all, c1)"
    and srv: "0 \<notin> fst ` set (cc_Servers cmd)" "cc_Servers cmd \<noteq> [] \<or> gids c \<noteq> {}"
  shows "\<exists>c2. balance all c1 1 = Some (Inr c2) \<and> config_ok c2 \<and> cf_Num c2 = cf_Num c
    \<and> gids c2 = fst ` set (cc_Servers cmd) \<union> gids c
    \<and> (\<forall>g. \<not> (gained (cf_Shards c) (cf_Shards c2) g \<and> lost (cf_Shards c) (cf_Shards c2) g))"
proof -
  let ?sh = "cf_Shards c" and ?S = "fst ` set (cc_Servers cmd)"
  have len: "length ?sh = NShards" using ok by (simp add: config_ok_def)
  note J = joinOwners_correct [OF j len]
  let ?K = "groups_in all"
  have K: "?K = (?S \<union> set ?sh) - {0}" using J(2) by (simp add: groups_in_def)
  have g1: "gids c1 = ?S \<union> gids c" using J(5) by (simp add: gids_def)
  have n: "0 < length ?sh" "int (length ?sh) < MaxUint32" using len by (simp_all add: NShards_def MaxUint32_def)
  show ?thesis
  proof (cases "gids c \<subseteq> ?S \<union> set ?sh")
    case True
    have K': "?K = ?S \<union> gids c" using True ok srv K by (auto simp: config_ok_def receivers_def split: if_splits)
    then have "?K \<noteq> {}" using srv by auto
    from balance_correct [OF J(1,3) refl this n fair_moves_refl] obtain sh' where sh':
      "balance all c1 1 = Some (Inr (c1\<lparr>cf_Shards := sh'\<rparr>))" "length sh' = length ?sh"
      "fair_moves ?sh sh' ?K" "within_one sh' ?K" "set sh' \<subseteq> ?K" by blast
    have "config_ok (c1\<lparr>cf_Shards := sh'\<rparr>)"
      using sh' K' g1 len J(6) ok srv by (auto simp: config_ok_def receivers_def gids_def)
    with sh' J(4) g1 show ?thesis
      by (intro exI [of _ "c1\<lparr>cf_Shards := sh'\<rparr>"]) (auto simp: fair_moves_def gids_def)
  next
    case False
    then obtain h where h: "h \<in> gids c" "h \<notin> set ?sh" by auto
    then have sub: "set ?sh \<subseteq> gids c" "count_list ?sh h = 0" using ok by (auto simp: config_ok_def receivers_def split: if_splits)
    have small: "\<forall>g. count_list ?sh g \<le> 1"
    proof
      fix g
      show "count_list ?sh g \<le> 1"
      proof (cases "g \<in> gids c")
        case True
        then have "count_list ?sh g \<le> count_list ?sh h + 1" using ok h(1) by (auto simp: config_ok_def within_one_def)
        with sub(2) show ?thesis by simp
      next
        case False
        with sub(1) have "count_list ?sh g = 0" by (auto simp: count_list_0_iff)
        then show ?thesis by simp
      qed
    qed
    have "0 \<notin> set ?sh" using sub(1) ok by (auto simp: config_ok_def)
    from join_idle_group [OF J(1) this n(1) small] have "balance all c1 1 = Some (Inr c1)" .
    moreover have "config_ok c1"
      using ok J(3,6) g1 sub(1) srv within_one_small [OF small] by (auto simp: config_ok_def receivers_def)
    ultimately show ?thesis
      using J(3,4) g1 by (intro exI [of _ c1]) (auto simp: gained_def)
  qed
qed

subsection \<open>Leave\<close>

lemma assignShard_skip: "cf_Shards c ! i \<notin> set ds \<Longrightarrow> assignShard ds i (c, all) = (c, all)"
  unfolding assignShard_def by (induction ds) auto

lemma assignShard_zero: "minGroup all = 0 \<Longrightarrow> cf_Shards c ! i = 0 \<Longrightarrow> assignShard ds i (c, all) = (c, all)"
  unfolding assignShard_def
proof (induction ds)
  case (Cons d ds)
  have "(cf_Shards c)[i := 0] = cf_Shards c" using Cons.prems(2) by (metis list_update_id)
  then have "c\<lparr>cf_Shards := (cf_Shards c)[i := 0]\<rparr> = c" by simp
  with Cons show ?case by (auto simp: Let_def)
qed simp

lemma assignShard_Cons:
  "assignShard (d # ds) i (c, all) = assignShard ds i
     (if d = cf_Shards c ! i
      then (c\<lparr>cf_Shards := (cf_Shards c)[i := minGroup all]\<rparr>,
            if minGroup all \<noteq> 0 then mput (minGroup all) (mget0 [] all (minGroup all) @ [int i]) all else all)
      else (c, all))"
  by (simp add: assignShard_def Let_def)

lemma assignShard_hit:
  assumes "cf_Shards c ! i \<in> set ds" and "i < length (cf_Shards c)" and "minGroup all \<noteq> 0 \<longrightarrow> minGroup all \<notin> set ds"
  shows "assignShard ds i (c, all) =
    (c\<lparr>cf_Shards := (cf_Shards c)[i := minGroup all]\<rparr>,
     if minGroup all \<noteq> 0 then mput (minGroup all) (mget0 [] all (minGroup all) @ [int i]) all else all)"
  using assms
proof (induction ds)
  case (Cons d ds)
  show ?case
  proof (cases "d = cf_Shards c ! i")
    case True
    show ?thesis
    proof (cases "minGroup all = 0")
      case zero: True
      then show ?thesis using True Cons.prems(2) by (simp add: assignShard_Cons assignShard_zero)
    next
      case False
      then show ?thesis using True Cons.prems(2,3) by (simp add: assignShard_Cons assignShard_skip)
    qed
  next
    case False
    with Cons show ?thesis by (simp add: assignShard_Cons)
  qed
qed simp

definition counts_match :: "owners \<Rightarrow> int list \<Rightarrow> bool" where
  "counts_match all sh \<longleftrightarrow> (\<forall>g \<in> fst ` set all. len_of all g = int (count_list sh g))"

lemma min_receives:
  assumes match: "counts_match all sh" and K: "fst ` set all = K" "0 \<notin> K" "K \<noteq> {}"
    and one: "within_one sh K" and i: "i < length sh" "sh ! i \<notin> K" and len: "int (length sh) < MaxUint32"
  defines "mn \<equiv> minGroup all"
  shows "mn \<in> K" and "within_one (sh[i := mn]) K"
    and "counts_match (mput mn (mget0 [] all mn @ [int i]) all) (sh[i := mn])"
proof -
  have g: "groups_in all = K" using K by (auto simp: groups_in_def)
  have l: "len_of all k = int (count_list sh k)" if "k \<in> K" for k
    using match that K(1) by (auto simp: counts_match_def)
  obtain k where k: "k \<in> K" using K(3) by blast
  have "len_of all k < MaxUint32" using l [OF k] count_le_length [of sh k] len by simp
  note M = minGroup_correct [of k all, unfolded g, OF k this]
  show mn: "mn \<in> K" using M(1) by (simp add: mn_def)
  have least: "count_list sh mn \<le> count_list sh h" if "h \<in> K" for h
    using M(2) [OF that] l [OF that] l [OF mn] by (simp add: mn_def)
  have ne: "sh ! i \<noteq> mn" using i mn by auto
  note c = count_list_update(1) [OF i(1) ne refl]
  have c': "count_list (sh[i := mn]) h = (if h = mn then count_list sh h + 1 else count_list sh h)" if "h \<in> K" for h
    using c [of h] i(2) that by auto
  show "within_one (sh[i := mn]) K"
    using one least by (auto simp: within_one_def c' intro: le_SucI)
  show "counts_match (mput mn (mget0 [] all mn @ [int i]) all) (sh[i := mn])"
    using mn K(1) l c' by (auto simp: counts_match_def len_of_def)
qed

definition reassigned :: "int list \<Rightarrow> int set \<Rightarrow> nat \<Rightarrow> int list \<Rightarrow> int list \<Rightarrow> bool" where
  "reassigned ds K n sh sh' \<longleftrightarrow> length sh' = length sh
     \<and> (\<forall>i < length sh. i < n \<and> sh ! i \<in> set ds \<longrightarrow> sh' ! i \<in> receivers K)
     \<and> (\<forall>i < length sh. \<not> (i < n \<and> sh ! i \<in> set ds) \<longrightarrow> sh' ! i = sh ! i)"

lemma reassigned_skip: "reassigned ds K n sh sh' \<Longrightarrow> sh ! n \<notin> set ds \<Longrightarrow> reassigned ds K (Suc n) sh sh'"
  by (auto simp: reassigned_def less_Suc_eq)

lemma reassigned_hit:
  "reassigned ds K n sh sh' \<Longrightarrow> sh ! n \<in> set ds \<Longrightarrow> v \<in> receivers K \<Longrightarrow> reassigned ds K (Suc n) sh (sh'[n := v])"
  unfolding reassigned_def by (metis length_list_update less_Suc_eq nth_list_update_eq nth_list_update_neq)

lemma leave_loop:
  assumes "counts_match all (cf_Shards c)" and "fst ` set all = K" "0 \<notin> K" "K \<inter> set ds = {}"
    and "within_one (cf_Shards c) K" and "n \<le> length (cf_Shards c)" "int (length (cf_Shards c)) < MaxUint32"
  shows "\<exists>sh' all'. fold (assignShard ds) [0..<n] (c, all) = (c\<lparr>cf_Shards := sh'\<rparr>, all')
    \<and> reassigned ds K n (cf_Shards c) sh' \<and> fst ` set all' = K \<and> counts_match all' sh' \<and> within_one sh' K"
  using assms(6)
proof (induction n)
  case 0
  then show ?case
    using assms by (intro exI [of _ "cf_Shards c"] exI [of _ all]) (auto simp: reassigned_def)
next
  case (Suc n)
  then obtain sh' all' where IH: "fold (assignShard ds) [0..<n] (c, all) = (c\<lparr>cf_Shards := sh'\<rparr>, all')"
    "reassigned ds K n (cf_Shards c) sh'" "fst ` set all' = K" "counts_match all' sh'" "within_one sh' K"
    by auto
  have n: "n < length sh'" "sh' ! n = cf_Shards c ! n" "int (length sh') < MaxUint32"
    using Suc.prems IH(2) assms(7) by (auto simp: reassigned_def)
  show ?case
  proof (cases "cf_Shards c ! n \<in> set ds")
    case False
    then have "reassigned ds K (Suc n) (cf_Shards c) sh'" by (rule reassigned_skip [OF IH(2)])
    with IH False n show ?thesis by (auto simp: assignShard_skip)
  next
    case True
    let ?mn = "minGroup all'"
    show ?thesis
    proof (cases "K = {}")
      case empty: True
      then have mn: "?mn = 0" using IH(3) by (intro minGroup_none) (auto simp: groups_in_def)
      have "reassigned ds K (Suc n) (cf_Shards c) (sh'[n := 0])"
        by (rule reassigned_hit [OF IH(2) True]) (simp add: empty receivers_def)
      with IH empty True n mn show ?thesis
        by (auto simp: assignShard_hit counts_match_def within_one_def)
    next
      case False
      have out: "sh' ! n \<notin> K" using True n(2) assms(4) by auto
      note M = min_receives [OF IH(4,3) assms(3) False IH(5) n(1) out n(3)]
      have mn: "?mn \<noteq> 0" "?mn \<notin> set ds" using M(1) assms(3,4) by auto
      have "reassigned ds K (Suc n) (cf_Shards c) (sh'[n := ?mn])"
        by (rule reassigned_hit [OF IH(2) True]) (use False M(1) in \<open>simp add: receivers_def\<close>)
      with IH True n mn M show ?thesis by (auto simp: assignShard_hit)
    qed
  qed
qed

lemma fold_mdel:
  "fst ` set (fold mdel ds m) = fst ` set m - set ds \<and> (gomap_ok m \<longrightarrow> gomap_ok (fold mdel ds m))"
proof (induction ds arbitrary: m)
  case (Cons d ds)
  then show ?case using Cons.IH [of "mdel d m"] by auto
qed simp

lemma map_of_keys: "map_of (map (\<lambda>(k, _). (k, f k)) m) g = map_option (\<lambda>_. f g) (map_of m g)"
  by (induction m) auto

lemma removeGroups_correct:
  assumes "removeGroups cmd c = (all, c1)" and "length (cf_Shards c) = NShards"
  shows "counts_match all (cf_Shards c)" and "fst ` set all = gids c - set (cc_GIDs cmd)"
    and "gids c1 = gids c - set (cc_GIDs cmd)" "gomap_ok (cf_Groups c) \<Longrightarrow> gomap_ok (cf_Groups c1)"
    and "cf_Shards c1 = cf_Shards c" "cf_Num c1 = cf_Num c"
proof -
  let ?gs = "fold mdel (cc_GIDs cmd) (cf_Groups c)"
  let ?f = "\<lambda>g. filter (\<lambda>i. g = cf_Shards c ! nat i) (map int [0..<NShards])"
  have r: "all = map (\<lambda>(gid, _). (gid, ?f gid)) ?gs" "c1 = c\<lparr>cf_Groups := ?gs\<rparr>"
    using assms(1) by (auto simp: removeGroups_def Let_def)
  show keys: "fst ` set all = gids c - set (cc_GIDs cmd)" "gids c1 = gids c - set (cc_GIDs cmd)"
    using r fold_mdel [of "cc_GIDs cmd" "cf_Groups c"]
    by (simp_all add: gids_def image_image case_prod_beta')
  show "gomap_ok (cf_Groups c) \<Longrightarrow> gomap_ok (cf_Groups c1)" "cf_Shards c1 = cf_Shards c" "cf_Num c1 = cf_Num c"
    using r(2) fold_mdel [of "cc_GIDs cmd" "cf_Groups c"] by auto
  have "map_of all g = map_option (\<lambda>_. ?f g) (map_of ?gs g)" for g
    unfolding r(1) by (rule map_of_keys)
  moreover have "map_of ?gs g \<noteq> None" if "g \<in> fst ` set all" for g
    using that r(1) by (simp add: map_of_eq_None_iff image_image case_prod_beta')
  ultimately have "mget0 [] all g = ?f g" if "g \<in> fst ` set all" for g
    using that by (fastforce simp: mget0_def split: option.splits)
  moreover have "length (?f g) = count_list (cf_Shards c) g" for g
  proof -
    have "?f g = map int (filter (\<lambda>i. cf_Shards c ! i = g) [0..<NShards])"
      by (simp add: filter_map o_def eq_commute [of g])
    then have "length (?f g) = length (filter (\<lambda>i. cf_Shards c ! i = g) [0..<NShards])" by (metis length_map)
    also have "\<dots> = card {i. i < NShards \<and> cf_Shards c ! i = g}"
      by (simp add: length_filter_conv_card) (rule arg_cong [of _ _ card], auto)
    finally show ?thesis using assms(2) by (simp add: count_list_conv)
  qed
  ultimately show "counts_match all (cf_Shards c)" by (simp add: counts_match_def len_of_def)
qed

lemma leave_balanced:
  assumes ok: "config_ok c" and r: "removeGroups cmd c = (all, c1)" and a: "assingToMin cmd c1 all = (c2, all2)"
  shows "config_ok c2 \<and> cf_Num c2 = cf_Num c \<and> gids c2 = gids c - set (cc_GIDs cmd)
    \<and> (\<forall>i < NShards. cf_Shards c ! i \<notin> set (cc_GIDs cmd) \<longrightarrow> cf_Shards c2 ! i = cf_Shards c ! i)"
proof -
  have len: "length (cf_Shards c) = NShards" using ok by (simp add: config_ok_def)
  note R = removeGroups_correct [OF r len]
  let ?K = "gids c - set (cc_GIDs cmd)"
  have "within_one (cf_Shards c) ?K" using ok by (auto simp: config_ok_def within_one_def)
  moreover have "0 \<notin> ?K" using ok by (simp add: config_ok_def)
  ultimately obtain sh' where sh': "c2 = c1\<lparr>cf_Shards := sh'\<rparr>" "within_one sh' ?K"
    "reassigned (cc_GIDs cmd) ?K NShards (cf_Shards c) sh'"
    using leave_loop [of all c1 ?K "cc_GIDs cmd" NShards] R(1,2,5) a len
    by (auto simp: assingToMin_def NShards_def MaxUint32_def)
  have own: "sh' ! i \<in> receivers ?K" if i: "i < NShards" for i
  proof (cases "cf_Shards c ! i \<in> set (cc_GIDs cmd)")
    case True
    with sh'(3) i len show ?thesis by (auto simp: reassigned_def)
  next
    case False
    then have e: "sh' ! i = cf_Shards c ! i" using sh'(3) i len by (auto simp: reassigned_def)
    have "cf_Shards c ! i \<in> receivers (gids c)"
      using ok i len by (metis config_ok_def nth_mem subsetD)
    with False e show ?thesis by (auto simp: receivers_def split: if_splits)
  qed
  have l: "length sh' = NShards" using sh'(3) len by (simp add: reassigned_def)
  with own have "set sh' \<subseteq> receivers ?K" by (auto simp: in_set_conv_nth)
  moreover have g2: "gids c2 = ?K" using R(3) sh'(1) by (simp add: gids_def)
  ultimately have "config_ok c2"
    using sh'(1,2) l R(4) ok by (simp add: config_ok_def)
  moreover have "\<forall>i < NShards. cf_Shards c ! i \<notin> set (cc_GIDs cmd) \<longrightarrow> cf_Shards c2 ! i = cf_Shards c ! i"
    using sh'(1,3) len by (auto simp: reassigned_def)
  ultimately show ?thesis using g2 sh'(1) R(6) by simp
qed

subsection \<open>When rebalancing does not return\<close>

lemma balance_no_groups:
  assumes "balance all c d = Some r" and "groups_in all = {}" and "0 < len_of all 0"
    and "\<forall>x \<in> set (mget0 [] all 0). 0 \<le> x \<and> x < int (length (cf_Shards c))"
  shows False
  using assms
proof (induction rule: balance.raw_induct [rotated, consumes 1])
  case (1 bal all c d r)
  have mx: "maxGroup all = 0" "minGroup all = 0"
    using "1.prems"(1,2) by (auto intro: maxGroup_zero minGroup_none)
  obtain x xs where x: "mget0 [] all 0 = x # xs" using "1.prems"(2) by (auto simp: len_of_def neq_Nil_conv)
  let ?all = "mput 0 (mget0 [] (mput 0 xs all) 0 @ [x]) (mput 0 xs all)"
  let ?c = "c\<lparr>cf_Shards := (cf_Shards c)[nat x := 0]\<rparr>"
  have "0 \<le> x" "x < int (length (cf_Shards c))" using "1.prems"(3) x by auto
  with "1.hyps" mx x have "bal ?all ?c d = Some r"
    by (simp add: Let_def go_index_def go_set_def)
  then show False
    by (rule "1.IH") (use "1.prems" x in \<open>auto simp: groups_in_def len_of_def\<close>)
qed

end
