(* ===== verification/Controller.thy ===== *)
theory Controller
  imports Rebalance
begin

text \<open>
  The shard controller as a replicated state machine: configurations are numbered consecutively
  and never change once made, requests are executed at most once, and a history of joins, leaves
  and queries keeps every configuration balanced.
\<close>

subsection \<open>Numbered configurations\<close>

definition confs_ok :: "ShardCtrler \<Rightarrow> bool" where
  "confs_ok sc \<longleftrightarrow> sc_allConfs sc \<noteq> [] \<and> sc_curNum sc = int (length (sc_allConfs sc)) - 1
     \<and> (\<forall>i < length (sc_allConfs sc). cf_Num (sc_allConfs sc ! i) = int i
          \<and> length (cf_Shards (sc_allConfs sc ! i)) = NShards)"

definition current :: "ShardCtrler \<Rightarrow> Config" where
  "current sc = last (sc_allConfs sc)"

lemma go_panics_Inr [simp]: "go_panics r = Inr a \<longleftrightarrow> r = Inr a"
  by (auto simp: go_panics_def split: sum.splits)

lemma go_panics_of_Inr [simp]: "go_panics (Inr a) = Inr a"
  by (simp add: go_panics_def)

definition add_conf :: "ShardCtrler \<Rightarrow> Config \<Rightarrow> ShardCtrler" where
  "add_conf sc c = sc\<lparr>sc_curNum := sc_curNum sc + 1, sc_allConfs := sc_allConfs sc @ [c]\<rparr>"

definition reply_with :: "ControllerCommand \<Rightarrow> Config \<Rightarrow> CtrlResult" where
  "reply_with cmd c = \<lparr>rs_RequestId = cc_ReqId cmd, rs_Err = [], rs_Config = c, rs_ClientId = cc_ClientId cmd\<rparr>"

definition next_config :: "ShardCtrler \<Rightarrow> Config" where
  "next_config sc = (current sc)\<lparr>cf_Num := sc_curNum sc + 1\<rparr>"

lemma current_nth: "confs_ok sc \<Longrightarrow> current sc = sc_allConfs sc ! nat (sc_curNum sc)"
proof -
  assume "confs_ok sc"
  then have "sc_allConfs sc \<noteq> []" "nat (sc_curNum sc) = length (sc_allConfs sc) - 1" by (auto simp: confs_ok_def)
  then show ?thesis by (simp add: current_def last_conv_nth)
qed

lemma getConf_current:
  assumes "confs_ok sc"
  shows "getConf sc (sc_curNum sc) (sc_allConfs sc) = Inr (sc\<lparr>sc_curNum := sc_curNum sc + 1\<rparr>, next_config sc)"
proof -
  have "go_index (sc_allConfs sc) (sc_curNum sc) = Inr (current sc)"
    using assms current_nth [OF assms] by (auto simp: confs_ok_def go_index_def)
  then show ?thesis by (simp add: getConf_def next_config_def)
qed

lemma conf_result_add_conf:
  assumes "confs_ok sc"
  shows "conf_result (add_conf sc c) cmd (sc_curNum (add_conf sc c)) = Inr (add_conf sc c, reply_with cmd c)"
    and "conf_result (add_conf sc c) cmd (sc_curNum sc + 1) = Inr (add_conf sc c, reply_with cmd c)"
  using assms by (auto simp: conf_result_def add_conf_def reply_with_def confs_ok_def go_index_def nth_append)

lemma add_conf_ok:
  assumes "confs_ok sc" and "cf_Num c = sc_curNum sc + 1" and "length (cf_Shards c) = NShards"
  shows "confs_ok (add_conf sc c)" "current (add_conf sc c) = c"
  using assms by (auto simp: confs_ok_def add_conf_def current_def nth_append less_Suc_eq)

lemma add_conf_eq: "sc\<lparr>sc_curNum := sc_curNum sc + 1, sc_allConfs := sc_allConfs sc @ [c]\<rparr> = add_conf sc c"
  by (simp add: add_conf_def)

lemma next_config_ok:
  assumes "confs_ok sc"
  shows "cf_Num (next_config sc) = sc_curNum sc + 1" "length (cf_Shards (next_config sc)) = NShards"
    "cf_Shards (next_config sc) = cf_Shards (current sc)" "cf_Groups (next_config sc) = cf_Groups (current sc)"
  using assms by (auto simp: next_config_def confs_ok_def current_def last_conv_nth)

text \<open>What each command appends, when the controller is well-formed.\<close>

lemma applyJoin_eq:
  assumes "confs_ok sc" and "joinOwners cmd (next_config sc) = (all, c1)"
  shows "applyJoin sc cmd = (case balance all c1 1 of None \<Rightarrow> Inl CDiverge | Some (Inl p) \<Rightarrow> Inl (CPanic p)
    | Some (Inr c2) \<Rightarrow> Inr (add_conf sc c2, reply_with cmd c2))"
  using assms
  by (auto simp: applyJoin_def getConf_current Let_def go_panics_def add_conf_eq conf_result_add_conf split: option.splits sum.splits)

lemma applyLeave_eq:
  assumes "confs_ok sc" and "removeGroups cmd (next_config sc) = (all, c1)" and "assingToMin cmd c1 all = (c2, all2)"
  shows "applyLeave sc cmd = Inr (add_conf sc c2, reply_with cmd c2)"
  using assms
  by (simp add: applyLeave_def getConf_current Let_def add_conf_eq conf_result_add_conf)

lemma applyMove_eq:
  assumes "confs_ok sc"
  shows "applyMove sc cmd =
    (if 0 \<le> cc_Shard cmd \<and> cc_Shard cmd < int NShards
     then let c = (next_config sc)\<lparr>cf_Shards := (cf_Shards (current sc))[nat (cc_Shard cmd) := cc_GID cmd]\<rparr>
          in Inr (add_conf sc c, reply_with cmd c)
     else Inl (CPanic IndexOutOfRange))"
  using assms next_config_ok [OF assms]
  by (auto simp: applyMove_def getConf_current Let_def go_set_def go_panics_def add_conf_eq conf_result_add_conf)

lemma applyQuery_eq:
  assumes "confs_ok sc"
  shows "applyQuery sc cmd =
    (if cc_Num cmd < -1 then Inl (CPanic IndexOutOfRange)
     else Inr (sc, reply_with cmd
       (if cc_Num cmd = -1 \<or> cc_Num cmd > sc_curNum sc then current sc else sc_allConfs sc ! nat (cc_Num cmd))))"
proof -
  have l: "sc_allConfs sc \<noteq> []" "sc_curNum sc = int (length (sc_allConfs sc)) - 1"
    using assms by (simp_all add: confs_ok_def)
  then have "current sc = sc_allConfs sc ! nat (sc_curNum sc)" "0 \<le> sc_curNum sc"
    using current_nth [OF assms] by auto
  with l show ?thesis
    by (auto simp: applyQuery_def LatestConfigNum_def conf_result_def go_index_def go_panics_def reply_with_def)
qed

lemma balance_frame:
  "balance all c d = Some r \<Longrightarrow> r = Inr c' \<Longrightarrow>
     length (cf_Shards c') = length (cf_Shards c) \<and> cf_Num c' = cf_Num c \<and> cf_Groups c' = cf_Groups c"
proof (induction rule: balance.raw_induct [rotated, consumes 1])
  case (1 bal all c d r)
  from "1.hyps" "1.prems" show ?case
    by (fastforce simp: Let_def go_set_Inr dest!: "1.IH" split: if_splits sum.splits)
qed

definition appends :: "ShardCtrler \<Rightarrow> ShardCtrler \<Rightarrow> bool" where
  "appends sc sc' \<longleftrightarrow> sc' = sc \<or> (\<exists>c. sc' = add_conf sc c \<and> cf_Num c = sc_curNum sc + 1 \<and> length (cf_Shards c) = NShards)"

lemma appends_confs:
  assumes "appends sc sc'" and "confs_ok sc"
  shows "confs_ok sc' \<and> (\<exists>new. sc_allConfs sc' = sc_allConfs sc @ new)"
proof (cases "sc' = sc")
  case False
  with assms(1) obtain c where c: "sc' = add_conf sc c" "cf_Num c = sc_curNum sc + 1" "length (cf_Shards c) = NShards"
    by (auto simp: appends_def)
  with add_conf_ok(1) [OF assms(2) c(2,3)] show ?thesis by (simp add: add_conf_def)
qed (use assms in simp)

lemma leave_frame:
  assumes "removeGroups cmd c = (all, c1)" and "assingToMin cmd c1 all = (c2, all2)"
  shows "cf_Num c2 = cf_Num c \<and> length (cf_Shards c2) = length (cf_Shards c)"
proof -
  have shard: "cf_Num (fst (assignShard ds i s)) = cf_Num (fst s)
      \<and> length (cf_Shards (fst (assignShard ds i s))) = length (cf_Shards (fst s))" for ds i and s :: "Config \<times> owners"
    by (induction ds arbitrary: s) (auto simp: assignShard_def Let_def split: prod.splits)
  have "cf_Num (fst (fold (assignShard ds) is s)) = cf_Num (fst s)
      \<and> length (cf_Shards (fst (fold (assignShard ds) is s))) = length (cf_Shards (fst s))"
    for ds "is" and s :: "Config \<times> owners"
    by (induction "is" arbitrary: s) (auto simp: shard)
  from this [of "cc_GIDs cmd" "[0..<NShards]" "(c1, all)"] assms show ?thesis
    by (auto simp: assingToMin_def removeGroups_def Let_def)
qed

lemma applySwitch_appends:
  assumes ok: "confs_ok sc" and res: "applySwitch sc c = Inr (sc', r)"
  shows "appends sc sc'"
proof -
  note n = next_config_ok [OF ok]
  obtain all c1 where j: "joinOwners c (next_config sc) = (all, c1)" by fastforce
  obtain all' c1' where rg: "removeGroups c (next_config sc) = (all', c1')" by fastforce
  obtain c2' all2' where am: "assingToMin c c1' all' = (c2', all2')" by fastforce
  note J = joinOwners_correct(3,4) [OF j n(2)]
  have "appends sc sc'" if "applyJoin sc c = Inr (sc', r)"
    using that J n balance_frame [of all c1 1]
    by (auto simp: applyJoin_eq [OF ok j] appends_def split: option.splits sum.splits)
  moreover have "appends sc sc'" if "applyLeave sc c = Inr (sc', r)"
    using that leave_frame [OF rg am] n by (auto simp: applyLeave_eq [OF ok rg am] appends_def)
  moreover have "appends sc sc'" if "applyMove sc c = Inr (sc', r)"
    using that n by (auto simp: applyMove_eq [OF ok] appends_def Let_def split: if_splits)
  moreover have "appends sc sc'" if "applyQuery sc c = Inr (sc', r)"
    using that by (auto simp: applyQuery_eq [OF ok] appends_def split: if_splits)
  ultimately show ?thesis using res by (auto simp: applySwitch_def split: if_splits)
qed

lemma confs_ok_prevReq [simp]: "confs_ok (sc\<lparr>sc_prevReq := p\<rparr>) = confs_ok sc"
  by (simp add: confs_ok_def)

definition ctrl_step :: "ShardCtrler \<Rightarrow> ControllerCommand ApplyMsg \<Rightarrow> ctrl_stop + ShardCtrler" where
  "ctrl_step sc m = res_bind (applyCommands sc m) (\<lambda>(sc', _). Inr sc')"

lemma ctrl_step_Inr:
  assumes "ctrl_step sc m = Inr sc'"
  obtains (executed) r where "mget0 0 (sc_prevReq sc) (cc_ClientId (Command m)) < cc_ReqId (Command m)"
      "applySwitch (sc\<lparr>sc_prevReq := mput (cc_ClientId (Command m)) (cc_ReqId (Command m)) (sc_prevReq sc)\<rparr>) (Command m) = Inr (sc', r)"
  | (skipped) "\<not> mget0 0 (sc_prevReq sc) (cc_ClientId (Command m)) < cc_ReqId (Command m)" "sc' = sc"
  using assms by (auto simp: ctrl_step_def applyCommands_def Let_def split: if_splits)

lemma ctrl_step_confs:
  assumes "ctrl_step sc m = Inr sc'" and "confs_ok sc"
  shows "confs_ok sc' \<and> (\<exists>new. sc_allConfs sc' = sc_allConfs sc @ new)"
  using assms(1)
proof (cases rule: ctrl_step_Inr)
  case (executed r)
  have "appends (sc\<lparr>sc_prevReq := mput (cc_ClientId (Command m)) (cc_ReqId (Command m)) (sc_prevReq sc)\<rparr>) sc'"
    by (rule applySwitch_appends [OF _ executed(2)]) (use assms(2) in simp)
  from appends_confs [OF this] assms(2) show ?thesis by simp
qed (use assms(2) in simp)

subsection \<open>At most once\<close>

definition ctrl_data :: "ShardCtrler \<Rightarrow> Config list \<times> int" where
  "ctrl_data sc = (sc_allConfs sc, sc_curNum sc)"

definition ctrl_last :: "ShardCtrler \<Rightarrow> int \<Rightarrow> int" where
  "ctrl_last sc = mget0 0 (sc_prevReq sc)"

definition ctrl_client :: "ControllerCommand ApplyMsg \<Rightarrow> int" where
  "ctrl_client m = cc_ClientId (Command m)"

definition ctrl_number :: "ControllerCommand ApplyMsg \<Rightarrow> int" where
  "ctrl_number m = cc_ReqId (Command m)"

definition ctrl_of :: "Config list \<times> int \<Rightarrow> ShardCtrler" where
  "ctrl_of d = \<lparr>sc_me = 0, sc_op = freshServer 1 0 MakePersister zero_os, sc_dead = 0, sc_curNum = snd d,
     sc_allConfs = fst d, sc_chans = [], sc_prevReq = []\<rparr>"

definition ctrl_effect :: "Config list \<times> int \<Rightarrow> ControllerCommand ApplyMsg \<Rightarrow> Config list \<times> int" where
  "ctrl_effect d m = (case applySwitch (ctrl_of d) (Command m) of Inr (sc, _) \<Rightarrow> ctrl_data sc | Inl _ \<Rightarrow> d)"

lemma ctrl_data_of [simp]: "ctrl_data (ctrl_of d) = d"
  by (simp add: ctrl_data_def ctrl_of_def)

text \<open>A command reads and writes the configurations only.\<close>

lemma applySwitch_local:
  assumes "applySwitch sc c = Inr (sc', r)" and "ctrl_data t = ctrl_data sc"
  shows "\<exists>t'. applySwitch t c = Inr (t', r) \<and> ctrl_data t' = ctrl_data sc' \<and> sc_prevReq t' = sc_prevReq t"
proof -
  have e: "sc_allConfs t = sc_allConfs sc" "sc_curNum t = sc_curNum sc" using assms(2) by (simp_all add: ctrl_data_def)
  have "\<exists>t'. applyJoin t c = Inr (t', r) \<and> ctrl_data t' = ctrl_data sc' \<and> sc_prevReq t' = sc_prevReq t"
    if a: "applyJoin sc c = Inr (sc', r)"
  proof -
    from a obtain old where i: "go_index (sc_allConfs sc) (sc_curNum sc) = Inr old"
      by (auto simp: applyJoin_def getConf_def)
    obtain all c1 where j: "joinOwners c \<lparr>cf_Num = sc_curNum sc + 1, cf_Shards = cf_Shards old, cf_Groups = cf_Groups old\<rparr> = (all, c1)"
      by fastforce
    from a e i j show ?thesis
      by (auto simp: applyJoin_def getConf_def conf_result_def ctrl_data_def Let_def split: option.splits)
  qed
  moreover have "\<exists>t'. applyLeave t c = Inr (t', r) \<and> ctrl_data t' = ctrl_data sc' \<and> sc_prevReq t' = sc_prevReq t"
    if a: "applyLeave sc c = Inr (sc', r)"
  proof -
    from a obtain old where i: "go_index (sc_allConfs sc) (sc_curNum sc) = Inr old"
      by (auto simp: applyLeave_def getConf_def)
    obtain all c1 where j: "removeGroups c \<lparr>cf_Num = sc_curNum sc + 1, cf_Shards = cf_Shards old, cf_Groups = cf_Groups old\<rparr> = (all, c1)"
      by fastforce
    obtain c2 all2 where k: "assingToMin c c1 all = (c2, all2)" by fastforce
    from a e i j k show ?thesis
      by (auto simp: applyLeave_def getConf_def conf_result_def ctrl_data_def Let_def)
  qed
  moreover have "\<exists>t'. applyMove t c = Inr (t', r) \<and> ctrl_data t' = ctrl_data sc' \<and> sc_prevReq t' = sc_prevReq t"
    if "applyMove sc c = Inr (sc', r)"
    using that e by (auto simp: applyMove_def getConf_def conf_result_def ctrl_data_def Let_def)
  moreover have "\<exists>t'. applyQuery t c = Inr (t', r) \<and> ctrl_data t' = ctrl_data sc' \<and> sc_prevReq t' = sc_prevReq t"
    if "applyQuery sc c = Inr (sc', r)"
    using that e by (auto simp: applyQuery_def conf_result_def ctrl_data_def)
  ultimately show ?thesis using assms(1) by (auto simp: applySwitch_def split: if_splits)
qed

lemma ctrl_executed:
  assumes "ctrl_step sc m = Inr sc'" and "ctrl_last sc (ctrl_client m) < ctrl_number m"
  shows "ctrl_data sc' = ctrl_effect (ctrl_data sc) m
    \<and> ctrl_last sc' = (ctrl_last sc)(ctrl_client m := ctrl_number m)"
  using assms(1)
proof (cases rule: ctrl_step_Inr)
  case (executed r)
  let ?sc = "sc\<lparr>sc_prevReq := mput (cc_ClientId (Command m)) (cc_ReqId (Command m)) (sc_prevReq sc)\<rparr>"
  have d: "ctrl_data (ctrl_of (ctrl_data sc)) = ctrl_data ?sc" by (simp add: ctrl_data_def ctrl_of_def)
  from applySwitch_local [OF executed(2) d] have "ctrl_data sc' = ctrl_effect (ctrl_data sc) m"
    by (auto simp: ctrl_effect_def)
  moreover from applySwitch_local [OF executed(2) refl] executed(2)
  have "ctrl_last sc' = (ctrl_last sc)(ctrl_client m := ctrl_number m)"
    by (auto simp: ctrl_last_def ctrl_client_def ctrl_number_def mget0_mput_fun)
  ultimately show ?thesis ..
next
  case skipped
  then show ?thesis using assms(2) by (simp add: ctrl_last_def ctrl_client_def ctrl_number_def)
qed

lemma ctrl_skipped:
  assumes "ctrl_step sc m = Inr sc'" and "ctrl_number m \<le> ctrl_last sc (ctrl_client m)"
  shows "ctrl_data sc' = ctrl_data sc \<and> ctrl_last sc' = ctrl_last sc"
  using assms(1)
  by (cases rule: ctrl_step_Inr) (use assms(2) in \<open>auto simp: ctrl_last_def ctrl_client_def ctrl_number_def\<close>)

interpretation ctrl: session_machine ctrl_step ctrl_client ctrl_number ctrl_last ctrl_data ctrl_effect
  by unfold_locales (erule (1) ctrl_executed, erule (1) ctrl_skipped)

subsection \<open>Properties\<close>

definition ctrl_init :: "ShardCtrler \<Rightarrow> bool" where
  "ctrl_init sc \<longleftrightarrow> sc_curNum sc = 0 \<and> sc_allConfs sc = [zero_config] \<and> sc_prevReq sc = []"

lemma StartCtrler_init: "StartCtrler n me ps = Inr sc \<Longrightarrow> ctrl_init sc"
  by (auto simp: StartCtrler_def ctrl_init_def)

lemma ctrl_init_ok: "ctrl_init sc \<Longrightarrow> confs_ok sc \<and> config_ok (current sc)"
  by (auto simp: ctrl_init_def confs_ok_def current_def zero_config_def config_ok_def gids_def receivers_def
      within_one_def)

text \<open>Joins of at least one real group, leaves, and queries of an existing or the latest number.\<close>

definition cmd_ok :: "ControllerCommand \<Rightarrow> bool" where
  "cmd_ok c \<longleftrightarrow> cc_Command c = Join \<and> cc_Servers c \<noteq> [] \<and> 0 \<notin> fst ` set (cc_Servers c)
     \<or> cc_Command c = Leave \<or> cc_Command c = Query \<and> -1 \<le> cc_Num c"

lemma command_names: "Join \<noteq> Leave" "Query \<noteq> Leave" "Query \<noteq> Join" "Move \<noteq> Leave" "Move \<noteq> Join" "Move \<noteq> Query"
  by (simp_all add: Join_def Leave_def Query_def Move_def)

lemma config_ok_next: "config_ok (current sc) \<Longrightarrow> config_ok (next_config sc)"
  by (simp add: next_config_def config_ok_def gids_def)

lemma applySwitch_balanced:
  assumes ok: "confs_ok sc" "config_ok (current sc)" and c: "cmd_ok c"
  shows "\<exists>sc' r. applySwitch sc c = Inr (sc', r) \<and> confs_ok sc' \<and> config_ok (current sc')
    \<and> (\<forall>g. \<not> (gained (cf_Shards (current sc)) (cf_Shards (current sc')) g
              \<and> lost (cf_Shards (current sc)) (cf_Shards (current sc')) g \<and> g \<noteq> 0))"
proof -
  note n = next_config_ok [OF ok(1)] and nok = config_ok_next [OF ok(2)]
  have g: "gids (next_config sc) = gids (current sc)" using n(4) by (simp add: gids_def)
  from c consider "cc_Command c = Join" "cc_Servers c \<noteq> []" "0 \<notin> fst ` set (cc_Servers c)"
    | "cc_Command c = Leave" | "cc_Command c = Query" "-1 \<le> cc_Num c" by (auto simp: cmd_ok_def)
  then show ?thesis
  proof cases
    case 1
    obtain all c1 where j: "joinOwners c (next_config sc) = (all, c1)" by fastforce
    from join_balanced [OF nok j 1(3)] 1(2) obtain c2 where c2: "balance all c1 1 = Some (Inr c2)" "config_ok c2"
      "cf_Num c2 = cf_Num (next_config sc)"
      "\<forall>g. \<not> (gained (cf_Shards (current sc)) (cf_Shards c2) g \<and> lost (cf_Shards (current sc)) (cf_Shards c2) g)"
      using n(3) by auto
    have l: "length (cf_Shards c2) = NShards" using c2(2) by (simp add: config_ok_def)
    have "applySwitch sc c = Inr (add_conf sc c2, reply_with c c2)"
      using 1(1) c2(1) by (simp add: applySwitch_def command_names applyJoin_eq [OF ok(1) j])
    with add_conf_ok [OF ok(1) _ l] c2 n(1) show ?thesis by auto
  next
    case 2
    obtain all c1 where r: "removeGroups c (next_config sc) = (all, c1)" by fastforce
    obtain c2 all2 where a: "assingToMin c c1 all = (c2, all2)" by fastforce
    note L = leave_balanced [OF nok r a]
    then have l: "length (cf_Shards c2) = NShards" by (simp add: config_ok_def)
    have "applySwitch sc c = Inr (add_conf sc c2, reply_with c c2)"
      using 2 by (simp add: applySwitch_def applyLeave_eq [OF ok(1) r a])
    moreover have "\<not> (gained (cf_Shards (current sc)) (cf_Shards c2) g
        \<and> lost (cf_Shards (current sc)) (cf_Shards c2) g \<and> g \<noteq> 0)" for g
    proof clarify
      assume "gained (cf_Shards (current sc)) (cf_Shards c2) g" "lost (cf_Shards (current sc)) (cf_Shards c2) g" "g \<noteq> 0"
      then obtain i k where "i < NShards" "cf_Shards (current sc) ! i = g" "cf_Shards c2 ! i \<noteq> g"
        "k < NShards" "cf_Shards c2 ! k = g" using l by (auto simp: gained_def lost_def)
      moreover from this L have "g \<in> set (cc_GIDs c)" using n(3) by metis
      moreover have "cf_Shards c2 ! k \<in> receivers (gids c2)" if "k < NShards"
        using L l that by (metis config_ok_def nth_mem subsetD)
      ultimately show False using L \<open>g \<noteq> 0\<close> by (auto simp: receivers_def split: if_splits)
    qed
    ultimately show ?thesis using add_conf_ok [OF ok(1) _ l] L n(1) by auto
  next
    case 3
    then have "\<exists>r. applySwitch sc c = Inr (sc, r)"
      by (simp add: applySwitch_def command_names applyQuery_eq [OF ok(1)])
    then show ?thesis using ok by (auto simp: gained_def)
  qed
qed

text \<open>
  C26: configurations are an append-only, consecutively numbered list: after any log, configuration
  \<open>i\<close> has number \<open>i\<close> and assigns all ten shards, and every earlier configuration is unchanged, so
  the answer to a query for a given number never changes.
\<close>

theorem configs_append_only:
  assumes "confs_ok sc" and "go_foldM ctrl_step sc log = Inr sc'"
  shows "confs_ok sc' \<and> (\<exists>new. sc_allConfs sc' = sc_allConfs sc @ new)"
  using assms(2)
proof (induction log arbitrary: sc' rule: rev_induct)
  case Nil
  then show ?case using assms(1) by simp
next
  case (snoc m log)
  then obtain u where "go_foldM ctrl_step sc log = Inr u" "ctrl_step u m = Inr sc'"
    by (auto simp: go_foldM_append)
  with snoc.IH ctrl_step_confs show ?case by fastforce
qed

lemma ctrl_run_balanced:
  assumes "ctrl_init sc" and "\<forall>m \<in> set log. cmd_ok (Command m)"
  shows "\<exists>sc'. go_foldM ctrl_step sc log = Inr sc' \<and> confs_ok sc' \<and> config_ok (current sc')"
proof -
  have step: "\<exists>sc'. ctrl_step sc m = Inr sc' \<and> confs_ok sc' \<and> config_ok (current sc')"
    if "m \<in> set log" "confs_ok sc \<and> config_ok (current sc)" for sc m
  proof -
    let ?sc = "sc\<lparr>sc_prevReq := mput (cc_ClientId (Command m)) (cc_ReqId (Command m)) (sc_prevReq sc)\<rparr>"
    have "confs_ok ?sc" "config_ok (current ?sc)" using that(2) by (simp_all add: current_def)
    from applySwitch_balanced [OF this] that(1) assms(2) show ?thesis
      using that(2) by (fastforce simp: ctrl_step_def applyCommands_def Let_def)
  qed
  from go_foldM_total [of log "\<lambda>sc. confs_ok sc \<and> config_ok (current sc)" ctrl_step sc] step
    ctrl_init_ok [OF assms(1)]
  show ?thesis by blast
qed

text \<open>
  C8: joins, leaves and queries keep the service balanced.  Starting from the initial controller, a
  log of joins of at least one group, none of them group 0, of leaves, and of queries for a number from
  -1 on, is executed without a panic and without a non-terminating rebalance; in the configuration it
  ends with every shard belongs to a group of the configuration, or to group 0 when there is none,
  and no two groups differ by more than one shard.
\<close>

theorem join_leave_balanced:
  assumes "ctrl_init sc" and "\<forall>m \<in> set log. cmd_ok (Command m)"
  shows "\<exists>sc'. go_foldM ctrl_step sc log = Inr sc' \<and> confs_ok sc' \<and> config_ok (current sc')"
  using assms by (rule ctrl_run_balanced)

text \<open>
  C27: a reconfiguration never makes two groups wait for each other.  In the step from one balanced
  configuration to the next no group both receives and gives up shards; since a group moves to a new
  configuration only after the groups that give shards to it did, waiting has no cycle.
\<close>

theorem no_group_gives_and_takes:
  assumes "confs_ok sc" and "config_ok (current sc)" and "cmd_ok c" and "applySwitch sc c = Inr (sc', r)"
    and "gained (cf_Shards (current sc)) (cf_Shards (current sc')) g" and "g \<noteq> 0"
  shows "\<not> lost (cf_Shards (current sc)) (cf_Shards (current sc')) g"
  using applySwitch_balanced [OF assms(1-3)] assms(4-6) by auto

text \<open>
  C25: requests to the controller are executed at most once, and the configurations depend only on
  the log: two controllers started from the same configurations that read the same log have the same
  configurations, however often the log repeats a request.
\<close>

theorem ctrl_exactly_once:
  assumes "ctrl_init sc" and "go_foldM ctrl_step sc log = Inr sc'"
  shows "ctrl_data sc' = foldl ctrl_effect ([zero_config], 0) (fresh_cmds ctrl_client ctrl_number (\<lambda>_. 0) log)
    \<and> distinct (map (\<lambda>m. (ctrl_client m, ctrl_number m)) (fresh_cmds ctrl_client ctrl_number (\<lambda>_. 0) log))
    \<and> (\<forall>dup sc''. set dup \<subseteq> set log \<and> go_foldM ctrl_step sc' dup = Inr sc'' \<longrightarrow> ctrl_data sc'' = ctrl_data sc')"
proof -
  have "ctrl_data sc = ([zero_config], 0)" "ctrl_last sc = (\<lambda>_. 0)"
    using assms(1) by (auto simp: ctrl_init_def ctrl_data_def ctrl_last_def mget0_def)
  with ctrl.log_effect [OF assms(2)] show ?thesis
    using fresh_cmds_distinct ctrl.retransmission_harmless [OF assms(2)] by auto
qed

text \<open>
  Rebalancing with no group at all never returns: a join of an empty set of groups while there
  is none sends \<open>balance\<close> into an endless recursion on every replica that applies it.
\<close>

theorem empty_join_diverges:
  assumes "confs_ok sc" and "gids (current sc) = {}" and "set (cf_Shards (current sc)) \<subseteq> {0}" and "cc_Servers cmd = []"
  shows "applyJoin sc cmd = Inl CDiverge"
proof -
  note n = next_config_ok [OF assms(1)]
  obtain all c1 where j: "joinOwners cmd (next_config sc) = (all, c1)" by fastforce
  note J = joinOwners_correct [OF j n(2)]
  let ?sh = "cf_Shards (next_config sc)"
  have all0: "\<forall>i < NShards. ?sh ! i = 0" using assms(3) n(2,3) by (metis nth_mem singletonD subsetD)
  have "set ?sh \<subseteq> {0}" using assms(3) n(3) by simp
  then have "groups_in all = {}" using J(2) assms(4) by (auto simp: groups_in_def)
  moreover have "0 < len_of all 0"
  proof -
    have "?sh ! 0 = 0" "0 < length ?sh" using all0 n(2) by (auto simp: NShards_def)
    then have "0 < count_list ?sh 0" by (metis count_list_0_iff gr0I nth_mem)
    then show ?thesis using owners_len [OF J(1)] by simp
  qed
  moreover have "\<forall>x \<in> set (mget0 [] all 0). 0 \<le> x \<and> x < int (length (cf_Shards c1))"
    using J(1,3) by (auto simp: owners_of_def)
  ultimately have "balance all c1 1 = None"
    using balance_no_groups [of all c1 1] by (cases "balance all c1 1") auto
  then show ?thesis by (simp add: applyJoin_eq [OF assms(1) j])
qed

text \<open>
  A query that is retransmitted after it was executed is answered with the zero configuration and
  no error: both \<open>propose\<close> and \<open>applyCommands\<close> treat the old request number as done and return an
  empty result, which the clerk takes for the answer.
\<close>

theorem retried_query_returns_zero_config:
  assumes "map_of (sc_prevReq sc) cid = Some prev" and "rid \<le> prev"
  shows "proposeStart sc (queryCommand cid rid num) = Inr (sc, [], Inl zero_result)
    \<and> rs_Err zero_result = [] \<and> rs_Config zero_result = zero_config
    \<and> (map_of (sc_chans sc) i = Some () \<longrightarrow> (\<exists>res.
         applyCommands sc \<lparr>CommandValid = True, Command = queryCommand cid rid num, CommandIndex = i\<rparr> = Inr (sc, Some (i, res))
         \<and> rs_Err (snd (proposeEnd sc (queryCommand cid rid num) i (Some res))) = []
         \<and> rs_Config (snd (proposeEnd sc (queryCommand cid rid num) i (Some res))) = zero_config))"
  using assms
  by (auto simp: proposeStart_def queryCommand_def zero_command_def zero_result_def mget0_def
      applyCommands_def Let_def proposeEnd_def)

subsection \<open>Examples\<close>

definition ctrl0 :: ShardCtrler where
  "ctrl0 = ctrl_of ([zero_config], 0)"

definition msg :: "int \<Rightarrow> ControllerCommand \<Rightarrow> ControllerCommand ApplyMsg" where
  "msg i c = \<lparr>CommandValid = True, Command = c, CommandIndex = i\<rparr>"

text \<open>Groups 5 and 6 join, and the second request is repeated.\<close>

definition two_joins :: "ControllerCommand ApplyMsg list" where
  "two_joins = [msg 0 (joinCommand 1 1 [(5, [''s''])]), msg 1 (joinCommand 1 2 [(6, [''t''])]),
     msg 2 (joinCommand 1 2 [(6, [''t''])])]"

lemma ctrl0_init: "ctrl_init ctrl0"
  by (simp add: ctrl0_def ctrl_of_def ctrl_init_def)

lemma two_joins_ok: "\<forall>m \<in> set two_joins. cmd_ok (Command m)"
  by (simp add: two_joins_def msg_def joinCommand_def cmd_ok_def)

lemma two_joins_run: "\<exists>sc'. go_foldM ctrl_step ctrl0 two_joins = Inr sc'"
  using ctrl_run_balanced [OF ctrl0_init two_joins_ok] by blast

text \<open>Evaluation of a join on a concrete controller.\<close>

lemma join_eval:
  assumes "confs_ok sc" and "sh \<noteq> []"
    and "(case balance (fst (joinOwners cmd (next_config sc))) (snd (joinOwners cmd (next_config sc))) 1 of
            Some (Inr c) \<Rightarrow> (cf_Shards c, map fst (cf_Groups c)) | _ \<Rightarrow> ([], [])) = (sh, gs)"
  shows "\<exists>sc' r. applyJoin sc cmd = Inr (sc', r) \<and> cf_Shards (current sc') = sh \<and> map fst (cf_Groups (current sc')) = gs"
proof -
  obtain all c1 where j: "joinOwners cmd (next_config sc) = (all, c1)" by fastforce
  from assms(2,3) j obtain c where "balance all c1 1 = Some (Inr c)" "cf_Shards c = sh" "map fst (cf_Groups c) = gs"
    by (auto split: option.splits sum.splits)
  then show ?thesis by (auto simp: applyJoin_eq [OF assms(1) j] add_conf_def current_def)
qed

theorem configs_append_only_witness:
  "\<exists>sc' new. go_foldM ctrl_step ctrl0 two_joins = Inr sc' \<and> confs_ok sc' \<and> sc_allConfs sc' = sc_allConfs ctrl0 @ new"
proof -
  obtain sc' where "go_foldM ctrl_step ctrl0 two_joins = Inr sc'" using two_joins_run by blast
  moreover have "confs_ok ctrl0" using ctrl_init_ok [OF ctrl0_init] by blast
  ultimately show ?thesis using configs_append_only [of ctrl0 two_joins sc'] by blast
qed

theorem join_leave_balanced_witness:
  "\<exists>sc'. go_foldM ctrl_step ctrl0 two_joins = Inr sc' \<and> config_ok (current sc')"
  using join_leave_balanced [OF ctrl0_init two_joins_ok] by blast

theorem ctrl_exactly_once_witness:
  "\<exists>sc'. go_foldM ctrl_step ctrl0 two_joins = Inr sc'
     \<and> ctrl_data sc' = foldl ctrl_effect ([zero_config], 0) (fresh_cmds ctrl_client ctrl_number (\<lambda>_. 0) two_joins)
     \<and> length (fresh_cmds ctrl_client ctrl_number (\<lambda>_. 0) two_joins) = 2"
proof -
  obtain sc' where r: "go_foldM ctrl_step ctrl0 two_joins = Inr sc'" using two_joins_run by blast
  have "length (fresh_cmds ctrl_client ctrl_number (\<lambda>_. 0) two_joins) = 2" by code_simp
  with r ctrl_exactly_once [OF ctrl0_init r] show ?thesis by blast
qed

text \<open>Group 6 joins a controller whose shards all belong to group 5: 6 takes, so it does not give.\<close>

definition one_group :: ShardCtrler where
  "one_group = ctrl_of ([zero_config, \<lparr>cf_Num = 1, cf_Shards = replicate 10 5, cf_Groups = [(5, [''s''])]\<rparr>], 1)"

lemma one_group_ok: "confs_ok one_group" "config_ok (current one_group)"
  by (simp_all add: one_group_def ctrl_of_def confs_ok_def current_def zero_config_def NShards_def config_ok_def
      gids_def receivers_def within_one_def less_Suc_eq nth_Cons')

theorem no_group_gives_and_takes_witness:
  "\<exists>sc' r. applySwitch one_group (joinCommand 1 2 [(6, [''t''])]) = Inr (sc', r)
     \<and> gained (cf_Shards (current one_group)) (cf_Shards (current sc')) 6
     \<and> \<not> lost (cf_Shards (current one_group)) (cf_Shards (current sc')) 6"
proof -
  let ?c = "joinCommand 1 2 [(6, [''t''])]"
  have "(case balance (fst (joinOwners ?c (next_config one_group))) (snd (joinOwners ?c (next_config one_group))) 1 of
      Some (Inr c) \<Rightarrow> (cf_Shards c, map fst (cf_Groups c)) | _ \<Rightarrow> ([], []))
      = ([6, 6, 6, 6, 6, 5, 5, 5, 5, 5], [5, 6])" by code_simp
  from join_eval [OF one_group_ok(1) _ this] obtain sc' r
    where r: "applySwitch one_group ?c = Inr (sc', r)" "cf_Shards (current sc') = [6, 6, 6, 6, 6, 5, 5, 5, 5, 5]"
    by (auto simp: applySwitch_def joinCommand_def command_names)
  have g: "gained (cf_Shards (current one_group)) (cf_Shards (current sc')) 6"
    unfolding gained_def r(2) by (auto simp: one_group_def ctrl_of_def current_def intro!: exI [of _ 0])
  have "cmd_ok ?c" by (simp add: cmd_ok_def joinCommand_def)
  from no_group_gives_and_takes [OF one_group_ok this r(1) g] r(1) g show ?thesis by auto
qed

theorem empty_join_diverges_witness: "applyJoin ctrl0 (joinCommand 1 1 []) = Inl CDiverge"
proof -
  have "confs_ok ctrl0" "gids (current ctrl0) = {}" "set (cf_Shards (current ctrl0)) \<subseteq> {0}"
    using ctrl_init_ok [OF ctrl0_init]
    by (auto simp: ctrl0_def ctrl_of_def current_def zero_config_def gids_def)
  then show ?thesis using empty_join_diverges [of ctrl0 "joinCommand 1 1 []"] by (simp add: joinCommand_def zero_command_def)
qed

theorem retried_query_returns_zero_config_witness:
  "proposeStart (one_group\<lparr>sc_prevReq := [(1, 3)]\<rparr>) (queryCommand 1 3 (-1))
     = Inr (one_group\<lparr>sc_prevReq := [(1, 3)]\<rparr>, [], Inl zero_result)"
  using retried_query_returns_zero_config [of "one_group\<lparr>sc_prevReq := [(1, 3)]\<rparr>" 1 3 3 "-1"] by simp

text \<open>
  A group without shards is invisible to a join.  When an administrator has moved every shard to
  one of two groups, a third group that joins shares the shards with the owner only: the idle group
  stays without a shard and the new configuration is not balanced.
\<close>

theorem join_ignores_idle_group:
  "\<exists>sc' r. applyJoin (ctrl_of ([zero_config, \<lparr>cf_Num = 1, cf_Shards = replicate 10 5,
        cf_Groups = [(5, [''s'']), (6, [''t''])]\<rparr>], 1)) (joinCommand 1 1 [(7, [''u''])]) = Inr (sc', r)
     \<and> cf_Shards (current sc') = [7, 7, 7, 7, 7, 5, 5, 5, 5, 5] \<and> \<not> config_ok (current sc')"
proof -
  let ?sc = "ctrl_of ([zero_config, \<lparr>cf_Num = 1, cf_Shards = replicate 10 5,
        cf_Groups = [(5, [''s'']), (6, [''t''])]\<rparr>], 1)" and ?c = "joinCommand 1 1 [(7, [''u''])]"
  have ok: "confs_ok ?sc"
    by (simp add: ctrl_of_def confs_ok_def zero_config_def NShards_def less_Suc_eq nth_Cons')
  have "(case balance (fst (joinOwners ?c (next_config ?sc))) (snd (joinOwners ?c (next_config ?sc))) 1 of
      Some (Inr c) \<Rightarrow> (cf_Shards c, map fst (cf_Groups c)) | _ \<Rightarrow> ([], []))
      = ([7, 7, 7, 7, 7, 5, 5, 5, 5, 5], [5, 6, 7])" by code_simp
  from join_eval [OF ok _ this] obtain sc' r where r: "applyJoin ?sc ?c = Inr (sc', r)"
    "cf_Shards (current sc') = [7, 7, 7, 7, 7, 5, 5, 5, 5, 5]" "map fst (cf_Groups (current sc')) = [5, 6, 7]"
    by auto
  have "gids (current sc') = {5, 6, 7}" unfolding gids_def set_map [symmetric] r(3) by auto
  then have "\<not> config_ok (current sc')" by (simp add: config_ok_def within_one_def r(2))
  with r show ?thesis by blast
qed

end
