(* ===== verification/ShardTesting.thy ===== *)
theory ShardTesting
  imports ShardTester Controller Partitions
begin

text \<open>
  The test harness of the sharded service at work: the names it gives to servers are different, making
  a configuration starts every server exactly when a group has at most three, a group that joins can
  be reached by the names the controller hands out, and shutting a group down cuts off that group only.
\<close>

subsection \<open>Names of servers\<close>

lemma nat_digits_minus [simp]: "CHR ''-'' \<notin> set (nat_digits n)"
  using nat_digits_chars digit_char_neq by metis

lemma nat_digits_inj: "nat_digits m = nat_digits n \<Longrightarrow> m = n"
  by (metis read_nat_digits option.inject)

lemma Itoa_inj: "Itoa i = Itoa j \<longleftrightarrow> i = j"
proof
  assume eq: "Itoa i = Itoa j"
  have sign: "k < 0 \<longleftrightarrow> hd (Itoa k) = CHR ''-''" for k
    using nat_digits_hd [of "nat k"] by (simp add: Itoa_def)
  with eq have "i < 0 \<longleftrightarrow> j < 0" by metis
  with eq show "i = j" by (auto simp: Itoa_def split: if_splits dest!: nat_digits_inj)
qed simp

lemma last_separator:
  assumes "xs @ c # ys = xs' @ c # ys'" and "c \<notin> set ys" and "c \<notin> set ys'"
  shows "xs = xs' \<and> ys = ys'"
proof -
  have "takeWhile (\<lambda>x. x \<noteq> c) (rev (xs @ c # ys)) = rev ys" "takeWhile (\<lambda>x. x \<noteq> c) (rev (xs' @ c # ys')) = rev ys'"
    using assms(2,3) by (auto simp: takeWhile_tail takeWhile_append2)
  with assms(1) have "ys = ys'" by simp
  with assms(1) show ?thesis by simp
qed

text \<open>What the clients of the names rely on: they tell the servers of all groups apart.\<close>

locale server_names =
  fixes nm :: "'g \<Rightarrow> nat \<Rightarrow> 'v"
  assumes nm_inj: "nm g i = nm h j \<Longrightarrow> g = h \<and> i = j"
begin

lemma in_group: "nm g i \<in> nm h ` {..<n} \<longleftrightarrow> g = h \<and> i < n"
  using nm_inj by blast

lemma groups_apart: "g \<noteq> h \<Longrightarrow> nm g ` A \<inter> nm h ` B = {}"
  using nm_inj by blast

end

interpretation sn: server_names servername
proof
  fix g h i j
  assume "servername g i = servername h j"
  then have "Itoa g @ CHR ''-'' # Itoa (int i) = Itoa h @ CHR ''-'' # Itoa (int j)" by (simp add: servername_def)
  from last_separator [OF this] show "g = h \<and> i = j"
    using Itoa_inj [of g h] Itoa_inj [of "int i" "int j"] by (simp add: Itoa_def)
qed

lemma ctrler_not_server: "ctrlername j \<noteq> servername g i"
  by (simp add: ctrlername_def servername_def)

lemma ctrlername_inj: "ctrlername i = ctrlername j \<longleftrightarrow> i = j"
  by (simp add: ctrlername_def Itoa_inj)

subsection \<open>End points and servers of the network\<close>

definition ends_of :: "('e, 'v, 'a, 'w, 'r) Network \<Rightarrow> 'e set" where
  "ends_of net = {e. map_of (rn_ends net) e \<noteq> None}"

definition hosts :: "('e, 'v, 'a, 'w, 'r) Network \<Rightarrow> 'v \<Rightarrow> bool" where
  "hosts net v \<longleftrightarrow> (\<exists>p. served net v = Some p \<and> map_of (rn_heap net) p \<noteq> None)"

lemma reaches_hosts: "reaches net e \<noteq> None \<longleftrightarrow> enabled net e \<and> (\<exists>v. linked_to net e = Some v \<and> hosts net v)"
  unfolding reaches_iff hosts_def by blast

lemma openEnd_eq:
  "openEnd net e t =
     (if e \<in> ends_of net then Inl TFatal
      else Inr (Enable (Connect (net\<lparr>rn_ends := mput e () (rn_ends net), rn_enabled := mput e False (rn_enabled net),
                   rn_connections := mput e None (rn_connections net)\<rparr>) e t) e True))"
  by (simp add: openEnd_def MakeEnd_def from_rpc_def ends_of_def)

lemma openEnd_Inr:
  assumes "openEnd net e t = Inr net'"
  shows "e \<notin> ends_of net" and "ends_of net' = insert e (ends_of net)" and "hosts net' = hosts net"
    and "enabled net' e' = (e' = e \<or> enabled net e')" and "linked_to net' e' = (if e' = e then Some t else linked_to net e')"
  using assms
  by (auto simp: openEnd_eq ends_of_def hosts_def served_def enabled_def linked_to_def Enable_def Connect_def fun_eq_iff split: if_splits)

lemma openEnd_reaches:
  assumes "openEnd net e v = Inr net'" and "hosts net v"
  shows "reaches net' e \<noteq> None"
  unfolding reaches_hosts using openEnd_Inr [OF assms(1)] assms(2) by simp

lemma openEnds_total:
  assumes "distinct (map fst ps)" and "fst ` set ps \<inter> ends_of net = {}"
  shows "\<exists>net'. openEnds net ps = Inr net' \<and> ends_of net' = ends_of net \<union> fst ` set ps \<and> hosts net' = hosts net"
  using assms
proof (induction ps arbitrary: net)
  case Nil
  then show ?case by (simp add: openEnds_def)
next
  case (Cons x ps)
  obtain e t where x: "x = (e, t)" by fastforce
  with Cons.prems obtain net1 where 1: "openEnd net e t = Inr net1" by (auto simp: openEnd_eq)
  note o = openEnd_Inr [OF 1]
  have "fst ` set ps \<inter> ends_of net1 = {}" using Cons.prems x o(2) by auto
  with Cons.IH [of net1] Cons.prems obtain net' where "openEnds net1 ps = Inr net'"
    "ends_of net' = ends_of net1 \<union> fst ` set ps" "hosts net' = hosts net1" by auto
  with 1 x o show ?case by (auto simp: openEnds_def)
qed

lemma addServices_facts:
  "ends_of (addServices net v svc rfsvc) = ends_of net"
  "hosts (addServices net v svc rfsvc) v"
  "hosts net w \<Longrightarrow> hosts (addServices net v svc rfsvc) w"
proof -
  let ?h = "rn_heap net @ [(length (rn_heap net), AddService (AddService MakeServer svc) rfsvc)]"
  have net: "rn_heap (addServices net v svc rfsvc) = ?h"
    "served (addServices net v svc rfsvc) w = (if w = v then Some (length (rn_heap net)) else served net w)" for w
    by (simp_all add: addServices_def Let_def AddServer_def served_def)
  have grown: "map_of ?h p \<noteq> None \<longleftrightarrow> map_of (rn_heap net) p \<noteq> None \<or> p = length (rn_heap net)" for p
    by (simp add: map_add_def split: option.split)
  show "ends_of (addServices net v svc rfsvc) = ends_of net" by (simp add: addServices_def Let_def AddServer_def ends_of_def)
  show "hosts (addServices net v svc rfsvc) v" unfolding hosts_def net grown by simp
  show "hosts net w \<Longrightarrow> hosts (addServices net v svc rfsvc) w" unfolding hosts_def net grown by auto
qed

subsection \<open>Starting servers\<close>

lemma StartShardServer_total:
  fixes cfg :: "('e, 'a, 'w, 'r) shconfig"
  assumes gi: "gi < length (xt_groups cfg)" and gg: "gg = xt_groups cfg ! gi"
    and sz: "i < length (g_servers gg)" "i < length (g_saved gg)" "i < length (g_endnames gg)"
    and none: "g_servers gg ! i = None" "g_saved gg ! i = None"
    and len: "length names = xt_n cfg" "length mnames = xt_nctrlers cfg"
    and new: "distinct (names @ mnames)" "set (names @ mnames) \<inter> ends_of (xt_net cfg) = {}"
  shows "if i < length (g_mendnames gg)
    then \<exists>kv net. StartShardServer cfg gi i names mnames rnd svc rfsvc =
        Inr (cfg\<lparr>xt_net := net, xt_groups := (xt_groups cfg)[gi := gg\<lparr>g_endnames := (g_endnames gg)[i := names],
          g_mendnames := (g_mendnames gg)[i := mnames], g_saved := (g_saved gg)[i := Some MakePersister],
          g_servers := (g_servers gg)[i := Some kv]\<rparr>]\<rparr>)
      \<and> ends_of net = ends_of (xt_net cfg) \<union> set (names @ mnames) \<and> hosts net (servername (g_gid gg) i)
      \<and> (\<forall>v. hosts (xt_net cfg) v \<longrightarrow> hosts net v) \<and> sk_gid kv = g_gid gg \<and> sk_me kv = int i
    else StartShardServer cfg gi i names mnames rnd svc rfsvc = Inl (TPanic IndexOutOfRange)"
proof -
  let ?s = "map (servername (g_gid gg)) [0..<xt_n cfg]" and ?c = "map ctrlername [0..<xt_nctrlers cfg]"
  have z: "map fst (zip names ?s) = names" "map fst (zip mnames ?c) = mnames"
    "fst ` set (zip names ?s) = set names" "fst ` set (zip mnames ?c) = set mnames"
    using len by (simp_all add: set_map [symmetric] del: set_map)
  have "distinct (map fst (zip names ?s))" "fst ` set (zip names ?s) \<inter> ends_of (xt_net cfg) = {}" using new by (auto simp: z)
  from openEnds_total [OF this] obtain net1 where 1: "openEnds (xt_net cfg) (zip names ?s) = Inr net1"
    "ends_of net1 = ends_of (xt_net cfg) \<union> set names" "hosts net1 = hosts (xt_net cfg)" by (auto simp: z)
  have "distinct (map fst (zip mnames ?c))" "fst ` set (zip mnames ?c) \<inter> ends_of net1 = {}" using new 1(2) by (auto simp: z)
  from openEnds_total [OF this] obtain net2 where 2: "openEnds net1 (zip mnames ?c) = Inr net2"
    "ends_of net2 = ends_of net1 \<union> set mnames" "hosts net2 = hosts net1" by (auto simp: z)
  obtain kv where kv: "StartShardKV (xt_n cfg) (int i) MakePersister (g_gid gg) rnd = Inr kv" "sk_gid kv = g_gid gg" "sk_me kv = int i"
    by (simp add: StartShardKV_def Make_fresh)
  have ok: "idx (xt_groups cfg) gi = Inr gg" "upd (g_endnames gg) i names = Inr ((g_endnames gg)[i := names])" "savedIn gg i = None"
    using gi gg sz none by (simp_all add: idx_def upd_def savedIn_def)
  show ?thesis
  proof (cases "i < length (g_mendnames gg)")
    case True
    let ?net = "addServices net2 (servername (g_gid gg) i) svc rfsvc"
    have "StartShardServer cfg gi i names mnames rnd svc rfsvc =
        Inr (cfg\<lparr>xt_net := ?net, xt_groups := (xt_groups cfg)[gi := gg\<lparr>g_endnames := (g_endnames gg)[i := names],
          g_mendnames := (g_mendnames gg)[i := mnames], g_saved := (g_saved gg)[i := Some MakePersister],
          g_servers := (g_servers gg)[i := Some kv]\<rparr>]\<rparr>)"
      using True sz by (simp add: StartShardServer_def ok 1 2 kv Let_def from_go_def upd_def)
    moreover have "ends_of ?net = ends_of (xt_net cfg) \<union> set (names @ mnames)" "\<forall>v. hosts (xt_net cfg) v \<longrightarrow> hosts ?net v"
      using 1 2 by (auto simp: addServices_facts)
    ultimately show ?thesis
      unfolding if_P [OF True] using kv addServices_facts(2) [of net2 "servername (g_gid gg) i" svc rfsvc]
      by (intro exI [of _ kv] exI [of _ ?net]) simp
  next
    case False
    then show ?thesis by (simp add: StartShardServer_def ok 1 upd_def)
  qed
qed

text \<open>The names that starting the \<open>i\<close>-th server of a group takes, and a group whose first \<open>k\<close> servers run.\<close>

definition block :: "('e, 'a, 'w, 'r) choices \<Rightarrow> nat \<Rightarrow> 'e list" where
  "block ch i = ch_names ch i @ ch_mnames ch i"

definition group_up :: "nat \<Rightarrow> nat \<Rightarrow> nat \<Rightarrow> ('e, string, 'a, 'w, 'r) Network \<Rightarrow> 'e group \<Rightarrow> bool" where
  "group_up n m k net gg \<longleftrightarrow> length (g_servers gg) = n \<and> length (g_saved gg) = n \<and> length (g_endnames gg) = n \<and> length (g_mendnames gg) = m
     \<and> (\<forall>i < k. \<exists>kv. g_servers gg ! i = Some kv \<and> sk_gid kv = g_gid gg \<and> sk_me kv = int i \<and> hosts net (servername (g_gid gg) i))
     \<and> (\<forall>i < n. k \<le> i \<longrightarrow> g_servers gg ! i = None \<and> g_saved gg ! i = None)"

lemma group_up_hosts: "group_up n m k net gg \<Longrightarrow> (\<And>v. hosts net v \<Longrightarrow> hosts net' v) \<Longrightarrow> group_up n m k net' gg"
  unfolding group_up_def by blast

lemma group_up_empty: "group_up n m 0 net (emptyGroup n m gi)"
  by (simp add: group_up_def emptyGroup_def)

definition block_ok :: "nat \<Rightarrow> nat \<Rightarrow> ('e, 'a, 'w, 'r) choices \<Rightarrow> bool" where
  "block_ok n m ch \<longleftrightarrow> (\<forall>i < n. length (ch_names ch i) = n \<and> length (ch_mnames ch i) = m)"

definition group_started :: "('e, 'a, 'w, 'r) shconfig \<Rightarrow> nat \<Rightarrow> ('e, 'a, 'w, 'r) choices \<Rightarrow> nat \<Rightarrow> ('e, 'a, 'w, 'r) shconfig \<Rightarrow> bool" where
  "group_started cfg gi ch k cfg' \<longleftrightarrow> (\<exists>net gg. cfg' = cfg\<lparr>xt_net := net, xt_groups := (xt_groups cfg)[gi := gg]\<rparr>
     \<and> g_gid gg = g_gid (xt_groups cfg ! gi) \<and> group_up (xt_n cfg) (xt_nctrlers cfg) k net gg
     \<and> ends_of net = ends_of (xt_net cfg) \<union> set (concat (map (block ch) [0..<k])) \<and> (\<forall>v. hosts (xt_net cfg) v \<longrightarrow> hosts net v))"

lemma StartGroup_step:
  assumes "gi < length (xt_groups cfg)" and "block_ok (xt_n cfg) (xt_nctrlers cfg) ch"
    and "distinct (concat (map (block ch) [0..<xt_n cfg]))" and "set (concat (map (block ch) [0..<xt_n cfg])) \<inter> ends_of (xt_net cfg) = {}"
    and "k < xt_n cfg" and "group_started cfg gi ch k u"
  defines "r \<equiv> StartShardServer u gi k (ch_names ch k) (ch_mnames ch k) (ch_rnd ch k) (ch_svc ch k) (ch_rfsvc ch k)"
  shows "if k < xt_nctrlers cfg then \<exists>v. r = Inr v \<and> group_started cfg gi ch (Suc k) v else r = Inl (TPanic IndexOutOfRange)"
proof -
  from assms(6) obtain net gg where u: "u = cfg\<lparr>xt_net := net, xt_groups := (xt_groups cfg)[gi := gg]\<rparr>"
    and gid: "g_gid gg = g_gid (xt_groups cfg ! gi)" and up: "group_up (xt_n cfg) (xt_nctrlers cfg) k net gg"
    and ends: "ends_of net = ends_of (xt_net cfg) \<union> set (concat (map (block ch) [0..<k]))"
    and keep: "\<forall>v. hosts (xt_net cfg) v \<longrightarrow> hosts net v" by (auto simp: group_started_def)
  have g: "gi < length (xt_groups u)" "gg = xt_groups u ! gi" using assms(1) by (simp_all add: u)
  have at: "k < length (g_servers gg)" "k < length (g_saved gg)" "k < length (g_endnames gg)" "g_servers gg ! k = None" "g_saved gg ! k = None"
    and m: "length (g_mendnames gg) = xt_nctrlers cfg"
    using up assms(5) by (auto simp: group_up_def)
  have len: "length (ch_names ch k) = xt_n u" "length (ch_mnames ch k) = xt_nctrlers u"
    using assms(2,5) by (simp_all add: block_ok_def u)
  have blk: "set (block ch k) \<subseteq> set (concat (map (block ch) [0..<xt_n cfg]))" using assms(5) by auto
  have new: "distinct (ch_names ch k @ ch_mnames ch k)" "set (ch_names ch k @ ch_mnames ch k) \<inter> ends_of (xt_net u) = {}"
    unfolding block_def [symmetric] using distinct_block [OF assms(3,5)] blk assms(4) by (auto simp: u ends)
  note S = StartShardServer_total [OF g at len new, of "ch_rnd ch k" "ch_svc ch k" "ch_rfsvc ch k", folded r_def, unfolded m]
  show ?thesis
  proof (cases "k < xt_nctrlers cfg")
    case True
    with S obtain kv net' where r: "r = Inr (u\<lparr>xt_net := net', xt_groups := (xt_groups u)[gi := gg\<lparr>g_endnames := (g_endnames gg)[k := ch_names ch k],
          g_mendnames := (g_mendnames gg)[k := ch_mnames ch k], g_saved := (g_saved gg)[k := Some MakePersister],
          g_servers := (g_servers gg)[k := Some kv]\<rparr>]\<rparr>)" (is "r = Inr ?v")
      and net': "ends_of net' = ends_of net \<union> set (block ch k)" "hosts net' (servername (g_gid gg) k)" "\<forall>v. hosts net v \<longrightarrow> hosts net' v"
      and kv: "sk_gid kv = g_gid gg" "sk_me kv = int k" by (auto simp: u block_def)
    let ?gg = "gg\<lparr>g_endnames := (g_endnames gg)[k := ch_names ch k], g_mendnames := (g_mendnames gg)[k := ch_mnames ch k],
      g_saved := (g_saved gg)[k := Some MakePersister], g_servers := (g_servers gg)[k := Some kv]\<rparr>"
    have "group_up (xt_n cfg) (xt_nctrlers cfg) (Suc k) net' ?gg"
      using up net' kv at by (auto simp: group_up_def less_Suc_eq nth_list_update)
    moreover have "ends_of net' = ends_of (xt_net cfg) \<union> set (concat (map (block ch) [0..<Suc k]))" using net'(1) ends by auto
    moreover have "?v = cfg\<lparr>xt_net := net', xt_groups := (xt_groups cfg)[gi := ?gg]\<rparr>" by (simp add: u)
    moreover have "g_gid ?gg = g_gid (xt_groups cfg ! gi)" "\<forall>v. hosts (xt_net cfg) v \<longrightarrow> hosts net' v" using gid keep net'(3) by auto
    ultimately have "group_started cfg gi ch (Suc k) ?v" unfolding group_started_def by blast
    with r True show ?thesis by auto
  next
    case False
    with S show ?thesis by simp
  qed
qed

lemma StartGroup_total:
  assumes "gi < length (xt_groups cfg)" and "block_ok (xt_n cfg) (xt_nctrlers cfg) ch"
    and "distinct (concat (map (block ch) [0..<xt_n cfg]))" and "set (concat (map (block ch) [0..<xt_n cfg])) \<inter> ends_of (xt_net cfg) = {}"
    and "group_up (xt_n cfg) (xt_nctrlers cfg) 0 (xt_net cfg) (xt_groups cfg ! gi)"
  shows "if xt_n cfg \<le> xt_nctrlers cfg then \<exists>cfg'. StartGroup cfg gi ch = Inr cfg' \<and> group_started cfg gi ch (xt_n cfg) cfg'
    else StartGroup cfg gi ch = Inl (TPanic IndexOutOfRange)"
proof -
  let ?f = "\<lambda>c i. StartShardServer c gi i (ch_names ch i) (ch_mnames ch i) (ch_rnd ch i) (ch_svc ch i) (ch_rfsvc ch i)"
  note step = StartGroup_step [OF assms(1-4)]
  have start: "group_started cfg gi ch 0 cfg"
    using assms(5) by (auto simp: group_started_def intro!: exI [of _ "xt_net cfg"] exI [of _ "xt_groups cfg ! gi"])
  have upto: "\<exists>t. go_foldM ?f cfg [0..<k] = Inr t \<and> group_started cfg gi ch k t" if "k \<le> xt_n cfg" "k \<le> xt_nctrlers cfg" for k
    by (rule go_foldM_upto_total [where I = "group_started cfg gi ch"]) (use start step that in \<open>auto split: if_splits\<close>)
  show ?thesis
  proof (cases "xt_n cfg \<le> xt_nctrlers cfg")
    case True
    with upto [of "xt_n cfg"] show ?thesis by (simp add: StartGroup_def)
  next
    case False
    then obtain t where t: "go_foldM ?f cfg [0..<xt_nctrlers cfg] = Inr t" "group_started cfg gi ch (xt_nctrlers cfg) t"
      using upto [of "xt_nctrlers cfg"] by auto
    with step [of "xt_nctrlers cfg" t] False have "?f t (xt_nctrlers cfg) = Inl (TPanic IndexOutOfRange)" by auto
    moreover have "[0..<xt_n cfg] = [0..<xt_nctrlers cfg] @ xt_nctrlers cfg # [Suc (xt_nctrlers cfg)..<xt_n cfg]"
      using False by (intro upt_split) simp
    ultimately show ?thesis using False t(1) by (simp add: StartGroup_def go_foldM_append)
  qed
qed

subsection \<open>Making a configuration\<close>

definition ctrlers_up :: "nat \<Rightarrow> ('e, 'a, 'w, 'r) shconfig \<Rightarrow> bool" where
  "ctrlers_up k cfg \<longleftrightarrow> (\<forall>i < k. hosts (xt_net cfg) (ctrlername i)
     \<and> (\<exists>sc. xt_ctrlerservers cfg ! i = Some sc \<and> sc_me sc = int i \<and> sc_allConfs sc = [zero_config] \<and> sc_curNum sc = 0))"

lemma StartCtrlerserver_total:
  assumes "length names = xt_nctrlers cfg" and "distinct names" and "set names \<inter> ends_of (xt_net cfg) = {}"
    and "k < length (xt_ctrlerservers cfg)" and "ctrlers_up k cfg"
  shows "\<exists>net scs. StartCtrlerserver cfg k names svc rfsvc = Inr (cfg\<lparr>xt_ctrlerservers := scs, xt_net := net\<rparr>)
    \<and> ends_of net = ends_of (xt_net cfg) \<union> set names \<and> length scs = length (xt_ctrlerservers cfg)
    \<and> ctrlers_up (Suc k) (cfg\<lparr>xt_ctrlerservers := scs, xt_net := net\<rparr>)"
proof -
  let ?c = "map ctrlername [0..<xt_nctrlers cfg]"
  have z: "map fst (zip names ?c) = names" "fst ` set (zip names ?c) = set names"
    using assms(1) by (simp_all add: set_map [symmetric] del: set_map)
  from openEnds_total [of "zip names ?c" "xt_net cfg"] assms(2,3) obtain net1
    where 1: "openEnds (xt_net cfg) (zip names ?c) = Inr net1" "ends_of net1 = ends_of (xt_net cfg) \<union> set names"
      "hosts net1 = hosts (xt_net cfg)" by (auto simp: z)
  obtain sc where sc: "StartCtrler (xt_nctrlers cfg) (int k) MakePersister = Inr sc" "sc_me sc = int k"
    "sc_allConfs sc = [zero_config]" "sc_curNum sc = 0" by (simp add: StartCtrler_def Make_fresh)
  let ?net = "addServices net1 (ctrlername k) svc rfsvc" and ?scs = "(xt_ctrlerservers cfg)[k := Some sc]"
  have "StartCtrlerserver cfg k names svc rfsvc = Inr (cfg\<lparr>xt_ctrlerservers := ?scs, xt_net := ?net\<rparr>)"
    using assms(4) by (simp add: StartCtrlerserver_def 1 sc from_go_def upd_def)
  moreover have "ctrlers_up (Suc k) (cfg\<lparr>xt_ctrlerservers := ?scs, xt_net := ?net\<rparr>)"
    using assms(4,5) sc 1(3) by (auto simp: ctrlers_up_def less_Suc_eq nth_list_update addServices_facts)
  ultimately show ?thesis using 1(2) by (metis addServices_facts(1) length_list_update)
qed

text \<open>The names that \<open>make_config\<close> takes, and what it has set up when \<open>k\<close> groups run.\<close>

definition ctrl_block :: "('e, 'a, 'w, 'r) choices \<Rightarrow> 'e list \<Rightarrow> 'e list" where
  "ctrl_block cch cnames = concat (map (ch_names cch) [0..<3]) @ cnames"

definition group_block :: "nat \<Rightarrow> (nat \<Rightarrow> ('e, 'a, 'w, 'r) choices) \<Rightarrow> nat \<Rightarrow> 'e list" where
  "group_block n gch gi = concat (map (block (gch gi)) [0..<n])"

definition shards_up :: "nat \<Rightarrow> (nat \<Rightarrow> ('e, 'a, 'w, 'r) choices) \<Rightarrow> 'e list \<Rightarrow> nat \<Rightarrow> ('e, 'a, 'w, 'r) shconfig \<Rightarrow> bool" where
  "shards_up n gch cnames k cfg \<longleftrightarrow> xt_n cfg = n \<and> xt_nctrlers cfg = 3 \<and> length (xt_groups cfg) = 3 \<and> ctrlers_up 3 cfg
     \<and> ends_of (xt_net cfg) = set cnames \<union> set (concat (map (group_block n gch) [0..<k]))
     \<and> (\<forall>gi < 3. g_gid (xt_groups cfg ! gi) = 100 + int gi
          \<and> group_up n 3 (if gi < k then n else 0) (xt_net cfg) (xt_groups cfg ! gi))"

lemma shards_up_step:
  assumes "shards_up n gch cnames k cfg" and "k < 3" and "\<forall>gi < 3. block_ok n 3 (gch gi)"
    and "distinct (cnames @ concat (map (group_block n gch) [0..<3]))"
  shows "if n \<le> 3 then \<exists>cfg'. StartGroup cfg k (gch k) = Inr cfg' \<and> shards_up n gch cnames (Suc k) cfg'
    else StartGroup cfg k (gch k) = Inl (TPanic IndexOutOfRange)"
proof -
  have n: "xt_n cfg = n" "xt_nctrlers cfg = 3" "length (xt_groups cfg) = 3" "ctrlers_up 3 cfg"
    and ends: "ends_of (xt_net cfg) = set cnames \<union> set (concat (map (group_block n gch) [0..<k]))"
    and gs: "\<And>gi. gi < 3 \<Longrightarrow> g_gid (xt_groups cfg ! gi) = 100 + int gi
          \<and> group_up n 3 (if gi < k then n else 0) (xt_net cfg) (xt_groups cfg ! gi)"
    using assms(1) by (auto simp: shards_up_def)
  have gb: "concat (map (block (gch k)) [0..<xt_n cfg]) = group_block n gch k" by (simp add: group_block_def n)
  have "distinct (group_block n gch k)" "set (group_block n gch k) \<inter> set (concat (map (group_block n gch) [0..<k])) = {}"
    using distinct_block [of "group_block n gch" 3 k] assms(2,4) by auto
  moreover have "set (group_block n gch k) \<subseteq> set (concat (map (group_block n gch) [0..<3]))" using assms(2) by auto
  ultimately have fresh: "distinct (concat (map (block (gch k)) [0..<xt_n cfg]))"
    "set (concat (map (block (gch k)) [0..<xt_n cfg])) \<inter> ends_of (xt_net cfg) = {}"
    unfolding gb ends using assms(4) by auto
  have "block_ok (xt_n cfg) (xt_nctrlers cfg) (gch k)" "group_up (xt_n cfg) (xt_nctrlers cfg) 0 (xt_net cfg) (xt_groups cfg ! k)"
    "k < length (xt_groups cfg)" using assms(2,3) gs [of k] by (simp_all add: n)
  from StartGroup_total [OF this(3,1) fresh this(2)]
  have S: "if n \<le> 3 then \<exists>cfg'. StartGroup cfg k (gch k) = Inr cfg' \<and> group_started cfg k (gch k) n cfg'
    else StartGroup cfg k (gch k) = Inl (TPanic IndexOutOfRange)" unfolding n .
  have "shards_up n gch cnames (Suc k) cfg'" if st: "group_started cfg k (gch k) n cfg'" for cfg'
  proof -
    from st obtain net gg where c: "cfg' = cfg\<lparr>xt_net := net, xt_groups := (xt_groups cfg)[k := gg]\<rparr>"
      and gg: "g_gid gg = 100 + int k" "group_up n 3 n net gg"
      and net: "ends_of net = ends_of (xt_net cfg) \<union> set (group_block n gch k)" "\<And>v. hosts (xt_net cfg) v \<Longrightarrow> hosts net v"
      using gs [OF assms(2)] by (auto simp: group_started_def n gb [unfolded n])
    have "group_up n 3 (if gi < Suc k then n else 0) net ((xt_groups cfg)[k := gg] ! gi)
        \<and> g_gid ((xt_groups cfg)[k := gg] ! gi) = 100 + int gi" if "gi < 3" for gi
      using gs [OF that] gg n(3) that net(2) group_up_hosts [of n 3 _ "xt_net cfg" "xt_groups cfg ! gi" net]
      by (cases "gi = k") (auto simp: less_Suc_eq)
    moreover have "ctrlers_up 3 cfg'" using n(4) net(2) by (auto simp: ctrlers_up_def c)
    moreover have "ends_of net = set cnames \<union> set (concat (map (group_block n gch) [0..<Suc k]))" using net(1) ends by auto
    ultimately show ?thesis using n by (simp add: shards_up_def c)
  qed
  with S show ?thesis by (auto split: if_splits)
qed

lemma shardclerk_total:
  assumes "length names = xt_nctrlers cfg" and "distinct names" and "set names \<inter> ends_of (xt_net cfg) = {}"
  shows "\<exists>net. shardclerk cfg names rnd = Inr (cfg\<lparr>xt_net := net\<rparr>, MakeCtrlClerk rnd)
    \<and> ends_of net = ends_of (xt_net cfg) \<union> set names \<and> hosts net = hosts (xt_net cfg)"
proof -
  let ?c = "map ctrlername [0..<xt_nctrlers cfg]"
  have z: "map fst (zip names ?c) = names" "fst ` set (zip names ?c) = set names"
    using assms(1) by (simp_all add: set_map [symmetric] del: set_map)
  from openEnds_total [of "zip names ?c" "xt_net cfg"] assms(2,3) show ?thesis by (auto simp: z shardclerk_def)
qed

lemma ctrlers_started:
  fixes cch :: "('e, 'a, 'w, 'r) choices"
  assumes "\<forall>i < 3. length (ch_names cch i) = 3" and "distinct (concat (map (ch_names cch) [0..<3]))"
  shows "\<exists>net scs. go_foldM (\<lambda>c i. StartCtrlerserver c i (ch_names cch i) (ch_svc cch i) (ch_rfsvc cch i)) (emptyShardConfig n mp) [0..<3]
      = Inr ((emptyShardConfig n mp)\<lparr>xt_ctrlerservers := scs, xt_net := net\<rparr>)
    \<and> ends_of net = set (concat (map (ch_names cch) [0..<3])) \<and> ctrlers_up 3 ((emptyShardConfig n mp)\<lparr>xt_ctrlerservers := scs, xt_net := net\<rparr>)"
proof -
  define I where "I k c \<longleftrightarrow> (\<exists>net scs. c = (emptyShardConfig n mp :: ('e, 'a, 'w, 'r) shconfig)\<lparr>xt_ctrlerservers := scs, xt_net := net\<rparr>
    \<and> ends_of net = set (concat (map (ch_names cch) [0..<k])) \<and> length scs = 3 \<and> ctrlers_up k c)" for k c
  let ?f = "\<lambda>c i. StartCtrlerserver c i (ch_names cch i) (ch_svc cch i) (ch_rfsvc cch i)"
  have init: "I 0 (emptyShardConfig n mp)"
    unfolding I_def
    by (intro exI [of _ MakeNetwork] exI [of _ "replicate 3 None"])
       (simp add: emptyShardConfig_def ends_of_def MakeNetwork_def ctrlers_up_def)
  have step: "\<exists>v. ?f u k = Inr v \<and> I (Suc k) v" if k: "k < 3" and I: "I k u" for k u
  proof -
    from I obtain net scs where u: "u = (emptyShardConfig n mp)\<lparr>xt_ctrlerservers := scs, xt_net := net\<rparr>"
      and ends: "ends_of net = set (concat (map (ch_names cch) [0..<k]))" and l: "length scs = 3" and up: "ctrlers_up k u"
      by (auto simp: I_def)
    have "length (ch_names cch k) = xt_nctrlers u" "k < length (xt_ctrlerservers u)"
      using k l assms(1) by (simp_all add: u emptyShardConfig_def)
    moreover have "distinct (ch_names cch k)" "set (ch_names cch k) \<inter> ends_of (xt_net u) = {}"
      using distinct_block [OF assms(2) k] by (simp_all add: u ends)
    ultimately obtain net' scs' where "StartCtrlerserver u k (ch_names cch k) (ch_svc cch k) (ch_rfsvc cch k)
        = Inr (u\<lparr>xt_ctrlerservers := scs', xt_net := net'\<rparr>)" "ends_of net' = ends_of (xt_net u) \<union> set (ch_names cch k)"
      "length scs' = length (xt_ctrlerservers u)" "ctrlers_up (Suc k) (u\<lparr>xt_ctrlerservers := scs', xt_net := net'\<rparr>)"
      using StartCtrlerserver_total [of "ch_names cch k" u k "ch_svc cch k" "ch_rfsvc cch k"] up by auto
    then show ?thesis unfolding I_def using l by (auto simp: u ends intro!: exI [of _ net'] exI [of _ scs'])
  qed
  have "\<exists>t. go_foldM ?f (emptyShardConfig n mp) [0..<3] = Inr t \<and> I 3 t"
    by (rule go_foldM_upto_total [where I = I, OF init step])
  then show ?thesis by (auto simp: I_def)
qed

lemma Reliable_facts: "hosts (Reliable net yes) = hosts net" "ends_of (Reliable net yes) = ends_of net"
  by (simp_all add: hosts_def ends_of_def served_def Reliable_def fun_eq_iff)

lemma shards_up_Reliable: "shards_up n gch cnames k (cfg\<lparr>xt_net := Reliable (xt_net cfg) yes\<rparr>) = shards_up n gch cnames k cfg"
  by (simp add: shards_up_def ctrlers_up_def group_up_def Reliable_facts)

lemma make_config_up:
  fixes cch :: "('e, 'a, 'w, 'r) choices"
  assumes "\<forall>i < 3. length (ch_names cch i) = 3" and "length cnames = 3" and "\<forall>gi < 3. block_ok n 3 (gch gi)"
    and "distinct (ctrl_block cch cnames @ concat (map (group_block n gch) [0..<3]))"
  shows "if n \<le> 3
    then \<exists>cfg. make_shard_config n unreliable mp cch cnames crnd gch = Inr cfg \<and> shards_up n gch (ctrl_block cch cnames) 3 cfg
    else make_shard_config n unreliable mp cch cnames crnd gch = Inl (TPanic IndexOutOfRange)"
proof -
  let ?f = "\<lambda>c i. StartCtrlerserver c i (ch_names cch i) (ch_svc cch i) (ch_rfsvc cch i)" and ?g = "\<lambda>c gi. StartGroup c gi (gch gi)"
  have d: "distinct (concat (map (ch_names cch) [0..<3]))" "distinct cnames" "set cnames \<inter> set (concat (map (ch_names cch) [0..<3])) = {}"
    using assms(4) by (auto simp: ctrl_block_def)
  from ctrlers_started [OF assms(1) d(1), of n mp] obtain net scs
    where 1: "go_foldM ?f (emptyShardConfig n mp) [0..<3] = Inr ((emptyShardConfig n mp)\<lparr>xt_ctrlerservers := scs, xt_net := net\<rparr>)"
      and c1: "ends_of net = set (concat (map (ch_names cch) [0..<3]))"
        "ctrlers_up 3 ((emptyShardConfig n mp)\<lparr>xt_ctrlerservers := scs, xt_net := net\<rparr>)" by blast
  let ?c1 = "(emptyShardConfig n mp)\<lparr>xt_ctrlerservers := scs, xt_net := net\<rparr>"
  have n3: "xt_nctrlers ?c1 = 3" "xt_net ?c1 = net" by (simp_all add: emptyShardConfig_def)
  have "length cnames = xt_nctrlers ?c1" "set cnames \<inter> ends_of (xt_net ?c1) = {}" unfolding n3 c1 using assms(2) d(3) by auto
  from shardclerk_total [OF this(1) d(2) this(2), of crnd, unfolded n3] obtain net2
    where 2: "shardclerk ?c1 cnames crnd = Inr (?c1\<lparr>xt_net := net2\<rparr>, MakeCtrlClerk crnd)"
      and n2: "ends_of net2 = ends_of net \<union> set cnames" "hosts net2 = hosts net" by blast
  let ?c2 = "?c1\<lparr>xt_net := net2, xt_mck := MakeCtrlClerk crnd\<rparr>"
  have "ctrlers_up 3 ?c2" using c1(2) n2(2) by (simp add: ctrlers_up_def)
  then have up: "shards_up n gch (ctrl_block cch cnames) 0 ?c2"
    using n2(1) by (simp add: shards_up_def emptyShardConfig_def ctrl_block_def c1(1) group_up_empty Un_commute) (simp add: emptyGroup_def)
  note step = shards_up_step [OF _ _ assms(3,4)]
  show ?thesis
  proof (cases "n \<le> 3")
    case True
    have "\<exists>t. go_foldM ?g ?c2 [0..<3] = Inr t \<and> shards_up n gch (ctrl_block cch cnames) 3 t"
      by (rule go_foldM_upto_total [where I = "shards_up n gch (ctrl_block cch cnames)", OF up]) (use step True in auto)
    then obtain t where t: "go_foldM ?g ?c2 [0..<3] = Inr t" "shards_up n gch (ctrl_block cch cnames) 3 t" by blast
    with True 1 2 show ?thesis by (simp add: make_shard_config_def shards_up_Reliable)
  next
    case False
    then have "?g ?c2 0 = Inl (TPanic IndexOutOfRange)" using step [OF up] by simp
    then have "go_foldM ?g ?c2 [0..<3] = Inl (TPanic IndexOutOfRange)" by (simp add: upt_conv_Cons)
    with False 1 2 show ?thesis by (simp add: make_shard_config_def)
  qed
qed

text \<open>
  C37: making a configuration of the sharded service.  With fresh names for the end points, \<open>make_config\<close>
  starts three controllers and three groups of \<open>n\<close> servers, each registered under its own name and with
  the initial configuration, if \<open>n\<close> is at most three; with more servers in a group it panics, because
  the table \<open>mendnames\<close> has one row per controller and is indexed by the server.
\<close>
theorem make_config_starts_groups:
  fixes cch :: "('e, 'a, 'w, 'r) choices"
  assumes "\<forall>i < 3. length (ch_names cch i) = 3" and "length cnames = 3" and "\<forall>gi < 3. block_ok n 3 (gch gi)"
    and "distinct (ctrl_block cch cnames @ concat (map (group_block n gch) [0..<3]))"
  shows "if n \<le> 3
    then \<exists>cfg. make_shard_config n unreliable mp cch cnames crnd gch = Inr cfg \<and> shards_up n gch (ctrl_block cch cnames) 3 cfg
    else make_shard_config n unreliable mp cch cnames crnd gch = Inl (TPanic IndexOutOfRange)"
  using assms by (rule make_config_up)

definition silent :: "(unit, unit, unit) Service" where
  "silent = MakeService ''ShardKV'' []"

definition numbered :: "nat \<Rightarrow> nat \<Rightarrow> (nat \<times> nat \<times> bool \<times> nat, unit, unit, unit) choices" where
  "numbered n b = \<lparr>ch_names = \<lambda>i. map (\<lambda>j. (b, i, False, j)) [0..<n], ch_mnames = \<lambda>i. map (\<lambda>j. (b, i, True, j)) [0..<3],
     ch_rnd = int, ch_svc = \<lambda>_. silent, ch_rfsvc = \<lambda>_. silent\<rparr>"

definition clerk_names :: "(nat \<times> nat \<times> bool \<times> nat) list" where
  "clerk_names = map (\<lambda>j. (0, 3, False, j)) [0..<3]"

lemma distinct_tagged:
  assumes "distinct xs" and "\<And>x. x \<in> set xs \<Longrightarrow> distinct (b x)" and "\<And>x e. x \<in> set xs \<Longrightarrow> e \<in> set (b x) \<Longrightarrow> tag e = x"
  shows "distinct (concat (map b xs))"
  using assms
proof (induction xs)
  case (Cons x xs)
  have "e \<notin> set (b y)" if "e \<in> set (b x)" "y \<in> set xs" for e y
    using Cons.prems(1,3) that by (metis distinct.simps(2) list.set_intros)
  with Cons show ?case by auto
qed simp

lemma numbered_distinct:
  "distinct (ctrl_block (numbered 3 0) clerk_names @ concat (map (group_block n (\<lambda>gi. numbered n (gi + 1))) [0..<3]))"
proof -
  have "distinct (concat (map (ch_names (numbered 3 0)) [0..<3]))"
    by (rule distinct_tagged [where tag = "\<lambda>e. fst (snd e)"]) (auto simp: numbered_def distinct_map inj_on_def)
  then have "distinct (ctrl_block (numbered 3 0) clerk_names)"
    by (auto simp: ctrl_block_def clerk_names_def numbered_def distinct_map inj_on_def)
  moreover have "distinct (group_block n (\<lambda>gi. numbered n (gi + 1)) gi)" for gi
    unfolding group_block_def
    by (rule distinct_tagged [where tag = "\<lambda>e. fst (snd e)"]) (auto simp: block_def numbered_def distinct_map inj_on_def)
  then have "distinct (concat (map (group_block n (\<lambda>gi. numbered n (gi + 1))) [0..<3]))"
    by (intro distinct_tagged [where tag = "\<lambda>e. fst e - 1"]) (auto simp: group_block_def block_def numbered_def)
  moreover have "fst e = 0" if "e \<in> set (ctrl_block (numbered 3 0) clerk_names)" for e
    using that by (auto simp: ctrl_block_def clerk_names_def numbered_def)
  moreover have "fst e \<noteq> 0" if "e \<in> set (concat (map (group_block n (\<lambda>gi. numbered n (gi + 1))) [0..<3]))" for e
    using that by (auto simp: group_block_def block_def numbered_def)
  ultimately show ?thesis unfolding distinct_append by blast
qed

lemma numbered_ok:
  "\<forall>i < 3. length (ch_names (numbered 3 0) i) = 3" "length clerk_names = 3" "\<forall>gi < 3. block_ok n 3 (numbered n (gi + 1))"
  by (simp_all add: numbered_def block_ok_def clerk_names_def)

lemma two_per_group:
  "\<exists>cfg. make_shard_config 2 True (- 1) (numbered 3 0) clerk_names 7 (\<lambda>gi. numbered 2 (gi + 1)) = Inr cfg
      \<and> shards_up 2 (\<lambda>gi. numbered 2 (gi + 1)) (ctrl_block (numbered 3 0) clerk_names) 3 cfg"
  using make_config_up [OF numbered_ok numbered_distinct, of 2 True "- 1" 7] by simp

theorem make_config_starts_groups_witness:
  "(\<exists>cfg. make_shard_config 2 True (- 1) (numbered 3 0) clerk_names 7 (\<lambda>gi. numbered 2 (gi + 1)) = Inr cfg
      \<and> shards_up 2 (\<lambda>gi. numbered 2 (gi + 1)) (ctrl_block (numbered 3 0) clerk_names) 3 cfg)
   \<and> make_shard_config 4 True (- 1) (numbered 3 0) clerk_names 7 (\<lambda>gi. numbered 4 (gi + 1)) = Inl (TPanic IndexOutOfRange)"
  using make_config_starts_groups [OF numbered_ok numbered_distinct, of 2 True "- 1" 7]
    make_config_starts_groups [OF numbered_ok numbered_distinct, of 4 True "- 1" 7] by simp

subsection \<open>Joining\<close>

lemma joinMap_total:
  assumes "\<forall>g \<in> set gis. g < length (xt_groups cfg)"
  shows "\<exists>m. joinMap cfg gis = Inr m \<and> gomap_ok m \<and> fst ` set m = (\<lambda>g. g_gid (xt_groups cfg ! g)) ` set gis
    \<and> (\<forall>g \<in> set gis. map_of m (g_gid (xt_groups cfg ! g)) = Some (map (servername (g_gid (xt_groups cfg ! g))) [0..<xt_n cfg]))"
proof -
  let ?f = "\<lambda>m g. res_bind (idx (xt_groups cfg) g) (\<lambda>gg. Inr (mput (g_gid gg) (map (servername (g_gid gg)) [0..<xt_n cfg]) m))"
    and ?G = "\<lambda>g. g_gid (xt_groups cfg ! g)"
  have "\<exists>m'. go_foldM ?f m gis = Inr m' \<and> gomap_ok m' \<and> fst ` set m' = ?G ` set gis \<union> fst ` set m
      \<and> (\<forall>k. map_of m' k = (if k \<in> ?G ` set gis then Some (map (servername k) [0..<xt_n cfg]) else map_of m k))"
    if "gomap_ok m" for m
    using assms that
  proof (induction gis arbitrary: m)
    case (Cons g gis)
    let ?m = "mput (?G g) (map (servername (?G g)) [0..<xt_n cfg]) m"
    have "?f m g = Inr ?m" using Cons.prems by (simp add: idx_def)
    moreover obtain m' where "go_foldM ?f ?m gis = Inr m'" "gomap_ok m'" "fst ` set m' = ?G ` set gis \<union> fst ` set ?m"
      "\<forall>k. map_of m' k = (if k \<in> ?G ` set gis then Some (map (servername k) [0..<xt_n cfg]) else map_of ?m k)"
      using Cons.IH [of ?m] Cons.prems by auto
    ultimately show ?case by (intro exI [of _ m']) auto
  qed simp
  from this [of "[]"] show ?thesis by (auto simp: joinMap_def)
qed

lemma joined_groups:
  assumes "joinOwners cmd c = (all, c1)" and "gomap_ok (cc_Servers cmd)" and "map_of (cc_Servers cmd) g = Some srv"
  shows "map_of (cf_Groups c1) g = Some srv"
proof -
  have "map_of gs' g = (case map_of ss g of None \<Rightarrow> map_of gs g | Some v \<Rightarrow> Some v)"
    if "fold (\<lambda>(gid, srv) (all, gs). (mput gid [] all, mput gid srv gs)) ss (al :: owners, gs) = (all', gs')" "gomap_ok ss"
    for ss :: "(int, string list) gomap" and al gs all' gs'
    using that
  proof (induction ss arbitrary: al gs)
    case (Cons x ss)
    obtain h v where x: "x = (h, v)" by fastforce
    with Cons.prems(2) have "map_of ss h = None" "gomap_ok ss" by (auto simp: map_of_eq_None_iff)
    with Cons.IH [of "mput h [] al" "mput h v gs"] Cons.prems(1) x show ?case by (auto split: option.splits)
  qed simp
  with assms show ?thesis by (auto simp: joinOwners_def split: prod.splits)
qed

lemma applySwitch_join:
  assumes ok: "confs_ok sc" "config_ok (current sc)"
    and c: "cc_Command c = Join" "cc_Servers c \<noteq> []" "0 \<notin> fst ` set (cc_Servers c)" "gomap_ok (cc_Servers c)"
  shows "\<exists>sc' r. applySwitch sc c = Inr (sc', r) \<and> confs_ok sc' \<and> config_ok (current sc')
    \<and> gids (current sc') = fst ` set (cc_Servers c) \<union> gids (current sc)
    \<and> (\<forall>g srv. map_of (cc_Servers c) g = Some srv \<longrightarrow> map_of (cf_Groups (current sc')) g = Some srv)"
proof -
  note n = next_config_ok [OF ok(1)] and nok = config_ok_next [OF ok(2)]
  obtain all c1 where j: "joinOwners c (next_config sc) = (all, c1)" by fastforce
  from join_balanced [OF nok j c(3)] c(2) n(4) obtain c2 where c2: "balance all c1 1 = Some (Inr c2)" "config_ok c2"
    "cf_Num c2 = cf_Num (next_config sc)" "gids c2 = fst ` set (cc_Servers c) \<union> gids (current sc)" by (auto simp: gids_def)
  have l: "length (cf_Shards c2) = NShards" using c2(2) by (simp add: config_ok_def)
  have "applySwitch sc c = Inr (add_conf sc c2, reply_with c c2)"
    using c(1) c2(1) by (simp add: applySwitch_def command_names applyJoin_eq [OF ok(1) j])
  moreover have "cf_Groups c2 = cf_Groups c1" using balance_frame [OF c2(1) refl] by simp
  ultimately show ?thesis using add_conf_ok [OF ok(1) _ l] c2 n(1) joined_groups [OF j c(4)] by auto
qed

text \<open>
  C38: a group that joins can be reached.  The join of any of the groups the harness has started is
  executed by a controller in good order without failing, and the configuration it leads to names,
  for each of these groups, \<open>n\<close> servers such that every end point made for one of the names gets
  through to a server.
\<close>
theorem joined_groups_are_reachable:
  assumes "shards_up n gch cnames 3 cfg" and "gis \<noteq> []" and "\<forall>g \<in> set gis. g < 3"
    and "confs_ok sc" and "config_ok (current sc)"
  shows "\<exists>cfg' cmd r sc' res. joinm cfg gis replies = Inr (cfg', cmd, r) \<and> xt_net cfg' = xt_net cfg
    \<and> applySwitch sc cmd = Inr (sc', res) \<and> config_ok (current sc')
    \<and> gids (current sc') = (\<lambda>g. 100 + int g) ` set gis \<union> gids (current sc)
    \<and> (\<forall>g \<in> set gis. \<exists>names. map_of (cf_Groups (current sc')) (100 + int g) = Some names \<and> length names = n
         \<and> (\<forall>name \<in> set names. \<forall>e net. openEnd (xt_net cfg') e name = Inr net \<longrightarrow> reaches net e \<noteq> None))"
proof -
  have n: "xt_n cfg = n" "length (xt_groups cfg) = 3"
    and up: "\<And>g. g < 3 \<Longrightarrow> g_gid (xt_groups cfg ! g) = 100 + int g \<and> group_up n 3 n (xt_net cfg) (xt_groups cfg ! g)"
    using assms(1) by (auto simp: shards_up_def)
  have gid: "(\<lambda>g. g_gid (xt_groups cfg ! g)) ` set gis = (\<lambda>g. 100 + int g) ` set gis"
    by (rule image_cong) (use up assms(3) in auto)
  from joinMap_total [of gis cfg] assms(3) n obtain m where m: "joinMap cfg gis = Inr m" "gomap_ok m"
      "fst ` set m = (\<lambda>g. g_gid (xt_groups cfg ! g)) ` set gis"
      "\<forall>g \<in> set gis. map_of m (g_gid (xt_groups cfg ! g)) = Some (map (servername (g_gid (xt_groups cfg ! g))) [0..<n])"
    by auto
  have names: "map_of m (100 + int g) = Some (map (servername (100 + int g)) [0..<n])" if "g \<in> set gis" for g
    using bspec [OF m(4) that] up [of g] assms(3) that by simp
  let ?cmd = "joinCommand (cl_clientId (xt_mck cfg)) (cl_requestId (xt_mck cfg)) m"
  obtain ck r where j: "joinm cfg gis replies = Inr (cfg\<lparr>xt_mck := ck\<rparr>, ?cmd, r)"
    by (simp add: joinm_def m clerkJoin_def Let_def)
  have cmd: "cc_Command ?cmd = Join" "cc_Servers ?cmd = m" by (simp_all add: joinCommand_def)
  have keys: "fst ` set m = (\<lambda>g. 100 + int g) ` set gis" by (rule m(3) [unfolded gid])
  have "m \<noteq> []" using assms(2) keys by auto
  moreover have "0 \<notin> fst ` set m" unfolding keys by auto
  ultimately obtain sc' res where S: "applySwitch sc ?cmd = Inr (sc', res)" "config_ok (current sc')"
    "gids (current sc') = (\<lambda>g. 100 + int g) ` set gis \<union> gids (current sc)"
    "\<forall>g srv. map_of m g = Some srv \<longrightarrow> map_of (cf_Groups (current sc')) g = Some srv"
    using applySwitch_join [OF assms(4,5) cmd(1)] m(2) unfolding cmd(2) keys by auto
  have "reaches net e \<noteq> None" if "g \<in> set gis" "i < n" "openEnd (xt_net cfg) e (servername (100 + int g) i) = Inr net" for g i e net
    using up [of g] assms(3) that by (intro openEnd_reaches [OF that(3)]) (auto simp: group_up_def)
  with names S(4) have "\<forall>g \<in> set gis. \<exists>ns. map_of (cf_Groups (current sc')) (100 + int g) = Some ns \<and> length ns = n
         \<and> (\<forall>name \<in> set ns. \<forall>e net. openEnd (xt_net cfg) e name = Inr net \<longrightarrow> reaches net e \<noteq> None)" by fastforce
  with j S show ?thesis by auto
qed

theorem joined_groups_are_reachable_witness:
  "\<exists>cfg cfg' cmd r sc' res. make_shard_config 2 True (- 1) (numbered 3 0) clerk_names 7 (\<lambda>gi. numbered 2 (gi + 1)) = Inr cfg
     \<and> joinm cfg [0, 2] (\<lambda>_. []) = Inr (cfg', cmd, r) \<and> applySwitch ctrl0 cmd = Inr (sc', res)
     \<and> gids (current sc') = {100, 102}
     \<and> (\<exists>names. map_of (cf_Groups (current sc')) 102 = Some names \<and> length names = 2
         \<and> (\<forall>name \<in> set names. \<forall>e net. openEnd (xt_net cfg') e name = Inr net \<longrightarrow> reaches net e \<noteq> None))"
proof -
  from two_per_group obtain cfg where cfg: "make_shard_config 2 True (- 1) (numbered 3 0) clerk_names 7 (\<lambda>gi. numbered 2 (gi + 1)) = Inr cfg"
    and up: "shards_up 2 (\<lambda>gi. numbered 2 (gi + 1)) (ctrl_block (numbered 3 0) clerk_names) 3 cfg" by blast
  have "confs_ok ctrl0" "config_ok (current ctrl0)" "gids (current ctrl0) = {}"
    by (simp_all add: ctrl0_def ctrl_of_def confs_ok_def current_def zero_config_def config_ok_def gids_def receivers_def within_one_def)
  with joined_groups_are_reachable [OF up, of "[0, 2]" ctrl0 "\<lambda>_. []"] cfg show ?thesis by fastforce
qed

subsection \<open>Shutting a group down\<close>

lemma disableEnds_Inr:
  assumes "disableEnds net row k = Inr net'"
  shows "same_but_enabled net net'" and "enabled net' e \<longleftrightarrow> enabled net e \<and> e \<notin> set (take k row)"
proof -
  note s = switchEnds_Inr [OF assms [unfolded disableEnds_def]]
  show "same_but_enabled net net'" by (rule s(1))
  show "enabled net' e \<longleftrightarrow> enabled net e \<and> e \<notin> set (take k row)"
    using s(2) [of e] by (auto simp: idx_iff in_set_conv_nth)
qed

text \<open>A network without the end points \<open>E\<close> and the servers \<open>V\<close>, and what its end points reach.\<close>

definition cut_off :: "'e set \<Rightarrow> 'v set \<Rightarrow> ('e, 'v, 'a, 'w, 'r) Network \<Rightarrow> ('e, 'v, 'a, 'w, 'r) Network \<Rightarrow> bool" where
  "cut_off E V net net' \<longleftrightarrow> (\<forall>e. enabled net' e \<longleftrightarrow> enabled net e \<and> e \<notin> E) \<and> linked_to net' = linked_to net
     \<and> (\<forall>v. served net' v = (if v \<in> V then None else served net v)) \<and> rn_heap net' = rn_heap net"

lemma cut_off_refl: "cut_off {} {} net net"
  by (simp add: cut_off_def)

lemma cut_off_trans: "cut_off E V net net1 \<Longrightarrow> cut_off E' V' net1 net2 \<Longrightarrow> cut_off (E \<union> E') (V \<union> V') net net2"
  by (auto simp: cut_off_def)

lemma cut_off_hosts: "cut_off E V net net' \<Longrightarrow> hosts net' v \<longleftrightarrow> hosts net v \<and> v \<notin> V"
  by (auto simp: cut_off_def hosts_def)

lemma reaches_eq:
  "reaches net e = (if enabled net e then Option.bind (linked_to net e) (\<lambda>v. Option.bind (served net v) (\<lambda>p.
     map_option (\<lambda>rs. (v, p, rs)) (map_of (rn_heap net) p))) else None)"
  by (simp add: reaches_def enabled_def linked_to_def served_def)

lemma cut_off_reaches:
  assumes "cut_off E V net net'"
  shows "reaches net' e = (if e \<in> E \<or> (\<exists>v \<in> V. linked_to net e = Some v) then None else reaches net e)"
  using assms by (cases "linked_to net e") (auto simp: cut_off_def reaches_eq)

lemma DeleteServer_cut: "cut_off {} {v} net (DeleteServer net v)"
  by (auto simp: cut_off_def enabled_def linked_to_def served_def DeleteServer_def fun_eq_iff)

lemma disableEnds_cut: "disableEnds net row k = Inr net' \<Longrightarrow> cut_off (set (take k row)) {} net net'"
  by (simp add: cut_off_def disableEnds_Inr same_but_enabled_simps [OF disableEnds_Inr(1)])

text \<open>The end points of the \<open>i\<close>-th server of a group.\<close>

definition own_ends :: "'e group \<Rightarrow> nat \<Rightarrow> 'e set" where
  "own_ends gg i = set (take (length (g_servers gg)) (g_endnames gg ! i)) \<union> set (g_mendnames gg ! i)"

lemma ShutdownShardServer_Inr:
  assumes "ShutdownShardServer cfg gi i = Inr cfg'"
  obtains gg net where "gi < length (xt_groups cfg)" "gg = xt_groups cfg ! gi" "i < length (g_servers gg)" "i < length (g_saved gg)"
    "cfg' = cfg\<lparr>xt_net := net, xt_groups := (xt_groups cfg)[gi := gg\<lparr>g_saved := (g_saved gg)[i := map_option Copy (savedIn gg i)],
       g_servers := (g_servers gg)[i := None]\<rparr>]\<rparr>"
    "cut_off (own_ends gg i) {servername (g_gid gg) i} (xt_net cfg) net"
proof -
  from assms obtain gg net1 net2 where g: "gi < length (xt_groups cfg)" "gg = xt_groups cfg ! gi" "i < length (g_servers gg)" "i < length (g_saved gg)"
    and 1: "disableEnds (xt_net cfg) (g_endnames gg ! i) (length (g_servers gg)) = Inr net1"
    and 2: "disableEnds net1 (g_mendnames gg ! i) (length (g_mendnames gg ! i)) = Inr net2"
    and c: "cfg' = cfg\<lparr>xt_net := DeleteServer net2 (servername (g_gid gg) i), xt_groups := (xt_groups cfg)[gi := gg\<lparr>
       g_saved := (g_saved gg)[i := map_option Copy (savedIn gg i)], g_servers := (g_servers gg)[i := None]\<rparr>]\<rparr>"
    by (auto simp: ShutdownShardServer_def upd_iff idx_iff)
  from cut_off_trans [OF cut_off_trans [OF disableEnds_cut [OF 1] disableEnds_cut [OF 2]] DeleteServer_cut [of "servername (g_gid gg) i"]]
  show ?thesis by (intro that [OF g c]) (simp add: own_ends_def)
qed

definition group_down :: "('e, 'a, 'w, 'r) shconfig \<Rightarrow> nat \<Rightarrow> nat \<Rightarrow> ('e, 'a, 'w, 'r) shconfig \<Rightarrow> bool" where
  "group_down cfg gi k cfg' \<longleftrightarrow> (let gg = xt_groups cfg ! gi in \<exists>net gg'. cfg' = cfg\<lparr>xt_net := net, xt_groups := (xt_groups cfg)[gi := gg']\<rparr>
     \<and> g_gid gg' = g_gid gg \<and> g_endnames gg' = g_endnames gg \<and> g_mendnames gg' = g_mendnames gg
     \<and> length (g_servers gg') = length (g_servers gg) \<and> length (g_saved gg') = length (g_saved gg)
     \<and> (\<forall>i < k. i < length (g_servers gg) \<and> g_servers gg' ! i = None \<and> g_saved gg' ! i = map_option Copy (savedIn gg i))
     \<and> (\<forall>i. k \<le> i \<longrightarrow> g_servers gg' ! i = g_servers gg ! i \<and> g_saved gg' ! i = g_saved gg ! i)
     \<and> cut_off (\<Union>i < k. own_ends gg i) (servername (g_gid gg) ` {..<k}) (xt_net cfg) net)"

lemma group_down_step:
  assumes "group_down cfg gi k u" and "gi < length (xt_groups cfg)" and "ShutdownShardServer u gi k = Inr v"
  shows "group_down cfg gi (Suc k) v"
proof -
  let ?gg = "xt_groups cfg ! gi"
  from assms(1) obtain net gg where u: "u = cfg\<lparr>xt_net := net, xt_groups := (xt_groups cfg)[gi := gg]\<rparr>"
    and gg: "g_gid gg = g_gid ?gg" "g_endnames gg = g_endnames ?gg" "g_mendnames gg = g_mendnames ?gg"
      "length (g_servers gg) = length (g_servers ?gg)" "length (g_saved gg) = length (g_saved ?gg)"
    and off: "\<And>i. i < k \<Longrightarrow> i < length (g_servers ?gg) \<and> g_servers gg ! i = None \<and> g_saved gg ! i = map_option Copy (savedIn ?gg i)"
    and rest: "\<And>i. k \<le> i \<Longrightarrow> g_servers gg ! i = g_servers ?gg ! i \<and> g_saved gg ! i = g_saved ?gg ! i"
    and cut: "cut_off (\<Union>i < k. own_ends ?gg i) (servername (g_gid ?gg) ` {..<k}) (xt_net cfg) net"
    by (auto simp: group_down_def Let_def)
  have at: "xt_groups u ! gi = gg" "xt_net u = net" using assms(2) by (simp_all add: u)
  from assms(3) obtain net' where k: "k < length (g_servers gg)" "k < length (g_saved gg)"
    and v: "v = u\<lparr>xt_net := net', xt_groups := (xt_groups u)[gi := gg\<lparr>g_saved := (g_saved gg)[k := map_option Copy (savedIn gg k)],
       g_servers := (g_servers gg)[k := None]\<rparr>]\<rparr>"
    and cut': "cut_off (own_ends gg k) {servername (g_gid gg) k} net net'"
    by (rule ShutdownShardServer_Inr) (simp add: at)
  let ?new = "gg\<lparr>g_saved := (g_saved gg)[k := map_option Copy (savedIn gg k)], g_servers := (g_servers gg)[k := None]\<rparr>"
  have same: "savedIn gg k = savedIn ?gg k" "own_ends gg k = own_ends ?gg k"
    using rest [of k] by (auto simp: savedIn_def own_ends_def gg split: option.splits)
  have "v = cfg\<lparr>xt_net := net', xt_groups := (xt_groups cfg)[gi := ?new]\<rparr>" by (simp add: v u)
  moreover have "cut_off (\<Union>i < Suc k. own_ends ?gg i) (servername (g_gid ?gg) ` {..<Suc k}) (xt_net cfg) net'"
    using cut_off_trans [OF cut cut'] by (simp add: same(2) gg(1) lessThan_Suc Un_commute)
  moreover have "g_servers ?new ! i = None \<and> g_saved ?new ! i = map_option Copy (savedIn ?gg i) \<and> i < length (g_servers ?gg)" if "i < Suc k" for i
    using that off [of i] k same(1) gg by (cases "i = k") (auto simp: less_Suc_eq)
  moreover have "g_servers ?new ! i = g_servers ?gg ! i \<and> g_saved ?new ! i = g_saved ?gg ! i" if "Suc k \<le> i" for i
    using that rest [of i] by simp
  ultimately show ?thesis unfolding group_down_def Let_def using gg by (intro exI [of _ net'] exI [of _ ?new]) simp
qed

lemma ShutdownGroup_down:
  assumes "ShutdownGroup cfg gi = Inr cfg'" and "gi < length (xt_groups cfg)"
  shows "group_down cfg gi (xt_n cfg) cfg'"
proof (rule go_foldM_upto [where I = "group_down cfg gi"])
  show "go_foldM (\<lambda>c i. ShutdownShardServer c gi i) cfg [0..<xt_n cfg] = Inr cfg'" using assms(1) by (simp add: ShutdownGroup_def)
  show "group_down cfg gi 0 cfg"
    unfolding group_down_def Let_def using assms(2) by (intro exI [of _ "xt_net cfg"] exI [of _ "xt_groups cfg ! gi"]) (simp add: cut_off_refl)
qed (use assms(2) in \<open>blast intro: group_down_step\<close>)

text \<open>
  C39: shutting a group down cuts off exactly that group.  After \<open>ShutdownGroup\<close> none of its servers
  runs, what they had stored is kept, and nothing else of the configuration but the network has changed.
  On the network their own end points are disabled and no others: the end points that \<open>make_end\<close> opened
  stay enabled.  An end point reaches what it reached before unless it is one of the group's own or it
  is linked to a server of the group; then it reaches nothing.  And an end point that \<open>make_end\<close> opens
  afterwards reaches a server exactly if that server was there and is not of the group.
\<close>
theorem shutdown_cuts_off_group:
  assumes "ShutdownGroup cfg gi = Inr cfg'" and "gi < length (xt_groups cfg)" and "gg = xt_groups cfg ! gi"
  shows "\<exists>gg' net'. cfg' = cfg\<lparr>xt_net := net', xt_groups := (xt_groups cfg)[gi := gg']\<rparr>
    \<and> (\<forall>i < xt_n cfg. g_servers gg' ! i = None \<and> g_saved gg' ! i = map_option Copy (savedIn gg i))
    \<and> (\<forall>e. enabled net' e \<longleftrightarrow> enabled (xt_net cfg) e \<and> (\<forall>i < xt_n cfg. e \<notin> own_ends gg i))
    \<and> (\<forall>e. reaches net' e =
         (if \<exists>i < xt_n cfg. e \<in> own_ends gg i \<or> linked_to (xt_net cfg) e = Some (servername (g_gid gg) i) then None
          else reaches (xt_net cfg) e))
    \<and> (\<forall>e v cfg''. make_end cfg' e v = Inr cfg'' \<longrightarrow>
         (reaches (xt_net cfg'') e \<noteq> None \<longleftrightarrow> hosts (xt_net cfg) v \<and> (\<forall>i < xt_n cfg. v \<noteq> servername (g_gid gg) i)))"
proof -
  from ShutdownGroup_down [OF assms(1,2)] obtain gg' net' where g: "cfg' = cfg\<lparr>xt_net := net', xt_groups := (xt_groups cfg)[gi := gg']\<rparr>"
    and off: "\<And>i. i < xt_n cfg \<Longrightarrow> g_servers gg' ! i = None \<and> g_saved gg' ! i = map_option Copy (savedIn gg i)"
    and cut: "cut_off (\<Union>i < xt_n cfg. own_ends gg i) (servername (g_gid gg) ` {..<xt_n cfg}) (xt_net cfg) net'"
    by (auto simp: group_down_def Let_def assms(3))
  have "reaches (xt_net cfg'') e \<noteq> None \<longleftrightarrow> hosts (xt_net cfg) v \<and> (\<forall>i < xt_n cfg. v \<noteq> servername (g_gid gg) i)"
    if "make_end cfg' e v = Inr cfg''" for e v cfg''
  proof -
    from that have o: "openEnd net' e v = Inr (xt_net cfg'')" by (auto simp: make_end_def g)
    show ?thesis unfolding reaches_hosts using openEnd_Inr(3-5) [OF o] cut_off_hosts [OF cut] by auto
  qed
  moreover have "reaches net' e =
      (if \<exists>i < xt_n cfg. e \<in> own_ends gg i \<or> linked_to (xt_net cfg) e = Some (servername (g_gid gg) i) then None
       else reaches (xt_net cfg) e)" for e
    unfolding cut_off_reaches [OF cut] by (rule if_cong) auto
  moreover have "enabled net' e \<longleftrightarrow> enabled (xt_net cfg) e \<and> (\<forall>i < xt_n cfg. e \<notin> own_ends gg i)" for e
    using cut by (auto simp: cut_off_def)
  ultimately show ?thesis using g off by (intro exI [of _ gg'] exI [of _ net']) blast
qed

lemma StartShardServer_Inr:
  assumes "StartShardServer cfg gi i names mnames rnd svc rfsvc = Inr cfg'" and "gg = xt_groups cfg ! gi"
  obtains ends mends ps kv net where "gi < length (xt_groups cfg)" "ps = (case savedIn gg i of Some ps \<Rightarrow> Copy ps | None \<Rightarrow> MakePersister)"
    "i < length (g_servers gg)" "i < length (g_saved gg)" "StartShardKV (xt_n cfg) (int i) ps (g_gid gg) rnd = Inr kv"
    "cfg' = cfg\<lparr>xt_net := net, xt_groups := (xt_groups cfg)[gi := gg\<lparr>g_endnames := ends, g_mendnames := mends,
       g_saved := (g_saved gg)[i := Some ps], g_servers := (g_servers gg)[i := Some kv]\<rparr>]\<rparr>"
  using assms by (auto simp: StartShardServer_def upd_iff idx_iff Let_def from_go_iff)

text \<open>What the loop of \<open>StartGroup\<close> has started after \<open>k\<close> rounds, from the storage it found.\<close>

definition restarted :: "('e, 'a, 'w, 'r) shconfig \<Rightarrow> nat \<Rightarrow> nat \<Rightarrow> ('e, 'a, 'w, 'r) shconfig \<Rightarrow> bool" where
  "restarted cfg gi k cfg' \<longleftrightarrow> (let gg = xt_groups cfg ! gi; gg' = xt_groups cfg' ! gi in
     xt_n cfg' = xt_n cfg \<and> g_gid gg' = g_gid gg \<and> length (xt_groups cfg') = length (xt_groups cfg)
     \<and> (\<forall>h. h \<noteq> gi \<longrightarrow> xt_groups cfg' ! h = xt_groups cfg ! h)
     \<and> (\<forall>i < k. \<exists>kv rnd. g_servers gg' ! i = Some kv
          \<and> StartShardKV (xt_n cfg) (int i) (case savedIn gg i of Some ps \<Rightarrow> Copy ps | None \<Rightarrow> MakePersister) (g_gid gg) rnd = Inr kv)
     \<and> (\<forall>i. k \<le> i \<longrightarrow> g_servers gg' ! i = g_servers gg ! i \<and> g_saved gg' ! i = g_saved gg ! i))"

lemma restarted_step:
  assumes "restarted cfg gi k u" and "StartShardServer u gi k names mnames rnd svc rfsvc = Inr v"
  shows "restarted cfg gi (Suc k) v"
proof -
  let ?gg = "xt_groups cfg ! gi" and ?gu = "xt_groups u ! gi"
  have gu: "xt_n u = xt_n cfg" "g_gid ?gu = g_gid ?gg" "length (xt_groups u) = length (xt_groups cfg)"
    "\<And>h. h \<noteq> gi \<Longrightarrow> xt_groups u ! h = xt_groups cfg ! h"
    and up: "\<And>i. i < k \<Longrightarrow> \<exists>kv rnd. g_servers ?gu ! i = Some kv
      \<and> StartShardKV (xt_n cfg) (int i) (case savedIn ?gg i of Some ps \<Rightarrow> Copy ps | None \<Rightarrow> MakePersister) (g_gid ?gg) rnd = Inr kv"
    and rest: "\<And>i. k \<le> i \<Longrightarrow> g_servers ?gu ! i = g_servers ?gg ! i \<and> g_saved ?gu ! i = g_saved ?gg ! i"
    using assms(1) by (auto simp: restarted_def Let_def)
  from assms(2) obtain ends mends ps kv net where gi: "gi < length (xt_groups u)"
    and k: "k < length (g_servers ?gu)" "k < length (g_saved ?gu)"
    and ps: "ps = (case savedIn ?gu k of Some ps \<Rightarrow> Copy ps | None \<Rightarrow> MakePersister)"
    and kv: "StartShardKV (xt_n u) (int k) ps (g_gid ?gu) rnd = Inr kv"
    and v: "v = u\<lparr>xt_net := net, xt_groups := (xt_groups u)[gi := ?gu\<lparr>g_endnames := ends, g_mendnames := mends,
       g_saved := (g_saved ?gu)[k := Some ps], g_servers := (g_servers ?gu)[k := Some kv]\<rparr>]\<rparr>"
    by (rule StartShardServer_Inr) (rule refl)
  have at: "xt_groups v ! gi = ?gu\<lparr>g_endnames := ends, g_mendnames := mends,
       g_saved := (g_saved ?gu)[k := Some ps], g_servers := (g_servers ?gu)[k := Some kv]\<rparr>" using gi by (simp add: v)
  have "savedIn ?gu k = savedIn ?gg k" using rest [of k] by (auto simp: savedIn_def split: option.splits)
  then have new: "StartShardKV (xt_n cfg) (int k) (case savedIn ?gg k of Some ps \<Rightarrow> Copy ps | None \<Rightarrow> MakePersister) (g_gid ?gg) rnd = Inr kv"
    using kv unfolding ps gu(1,2) by simp
  have "\<exists>kv rnd. g_servers (xt_groups v ! gi) ! i = Some kv
      \<and> StartShardKV (xt_n cfg) (int i) (case savedIn ?gg i of Some ps \<Rightarrow> Copy ps | None \<Rightarrow> MakePersister) (g_gid ?gg) rnd = Inr kv"
    if "i < Suc k" for i
    using that up [of i] new k unfolding at by (cases "i = k") auto
  moreover have "g_servers (xt_groups v ! gi) ! i = g_servers ?gg ! i \<and> g_saved (xt_groups v ! gi) ! i = g_saved ?gg ! i" if "Suc k \<le> i" for i
    using that rest [of i] unfolding at by simp
  moreover have "xt_n v = xt_n cfg" "g_gid (xt_groups v ! gi) = g_gid ?gg" "length (xt_groups v) = length (xt_groups cfg)"
    "\<And>h. h \<noteq> gi \<Longrightarrow> xt_groups v ! h = xt_groups cfg ! h"
    using gu unfolding at by (simp_all add: v)
  ultimately show ?thesis unfolding restarted_def Let_def by blast
qed

lemma StartGroup_restarts:
  assumes "StartGroup cfg gi ch = Inr cfg'"
  shows "restarted cfg gi (xt_n cfg) cfg'"
proof (rule go_foldM_upto [where I = "restarted cfg gi"])
  show "go_foldM (\<lambda>c i. StartShardServer c gi i (ch_names ch i) (ch_mnames ch i) (ch_rnd ch i) (ch_svc ch i) (ch_rfsvc ch i)) cfg [0..<xt_n cfg]
    = Inr cfg'" using assms by (simp add: StartGroup_def)
  show "restarted cfg gi 0 cfg" by (simp add: restarted_def Let_def)
qed (blast intro: restarted_step)

text \<open>
  A group survives a shutdown.  When \<open>ShutdownGroup\<close> and \<open>StartGroup\<close> have replaced running servers that
  satisfy the server invariant, every new server has the persistent state of the one it replaces and
  its channel delivers every decided operation again, in order, to a store, a configuration and a table
  of requests that start empty; the other groups are untouched.
\<close>
theorem restarted_group_recovers:
  assumes "ShutdownGroup cfg gi = Inr cfg1" and "StartGroup cfg1 gi ch = Inr cfg2" and "gi < length (xt_groups cfg)"
    and "\<forall>i < xt_n cfg. \<exists>kv. g_servers (xt_groups cfg ! gi) ! i = Some kv \<and> server_inv (sk_op kv)
      \<and> op_peers (sk_op kv) = xt_n cfg \<and> op_me (sk_op kv) = int i"
  shows "(\<forall>i < xt_n cfg. \<exists>kv kv'. g_servers (xt_groups cfg ! gi) ! i = Some kv \<and> g_servers (xt_groups cfg2 ! gi) ! i = Some kv'
      \<and> op_os (sk_op kv') = op_os (sk_op kv) \<and> op_applyCh (sk_op kv') = replay (sk_op kv)
      \<and> sk_store kv' = emptyStore \<and> sk_config kv' = zero_config \<and> sk_prevReq kv' = [])
    \<and> (\<forall>h. h \<noteq> gi \<longrightarrow> xt_groups cfg2 ! h = xt_groups cfg ! h)"
proof -
  let ?gg = "xt_groups cfg ! gi" and ?g1 = "xt_groups cfg1 ! gi"
  from ShutdownGroup_down [OF assms(1,3)] obtain gg1 where n: "xt_n cfg1 = xt_n cfg" and g1: "xt_groups cfg1 = (xt_groups cfg)[gi := gg1]"
    and off: "\<And>i. i < xt_n cfg \<Longrightarrow> g_servers gg1 ! i = None \<and> g_saved gg1 ! i = map_option Copy (savedIn ?gg i)"
    by (auto simp: group_down_def Let_def)
  have at: "?g1 = gg1" using assms(3) by (simp add: g1)
  note R = StartGroup_restarts [OF assms(2), unfolded restarted_def Let_def at n]
  have "\<exists>kv kv'. g_servers ?gg ! i = Some kv \<and> g_servers (xt_groups cfg2 ! gi) ! i = Some kv'
      \<and> op_os (sk_op kv') = op_os (sk_op kv) \<and> op_applyCh (sk_op kv') = replay (sk_op kv)
      \<and> sk_store kv' = emptyStore \<and> sk_config kv' = zero_config \<and> sk_prevReq kv' = []" if i: "i < xt_n cfg" for i
  proof -
    from assms(4) i obtain kv where kv: "g_servers ?gg ! i = Some kv" "server_inv (sk_op kv)"
      and me: "op_peers (sk_op kv) = xt_n cfg" "op_me (sk_op kv) = int i" by blast
    have "savedIn gg1 i = Some (Copy (op_persister (sk_op kv)))" using off [OF i] kv(1) by (simp add: savedIn_def)
    with R i obtain kv' rnd where kv': "g_servers (xt_groups cfg2 ! gi) ! i = Some kv'"
      and st: "StartShardKV (xt_n cfg) (int i) (Copy (op_persister (sk_op kv))) (g_gid gg1) rnd = Inr kv'" by fastforce
    from st have mk: "Make (op_peers (sk_op kv)) (op_me (sk_op kv)) (Copy (op_persister (sk_op kv))) = Inr (sk_op kv')"
      and new: "sk_store kv' = emptyStore" "sk_config kv' = zero_config" "sk_prevReq kv' = []"
      using me by (auto simp: StartShardKV_def)
    note r = Make_restart [OF kv(2) mk]
    have "op_applyCh (sk_op kv') = replay (sk_op kv)" unfolding r(1) by (simp add: freshServer_def replay_def)
    with kv(1) kv' r(3) new show ?thesis by blast
  qed
  moreover have "xt_groups cfg2 ! h = xt_groups cfg ! h" if "h \<noteq> gi" for h using R that by (simp add: g1)
  ultimately show ?thesis by blast
qed

lemma restarted_fresh:
  assumes "restarted cfg gi k cfg'" and "i < k" and "savedIn (xt_groups cfg ! gi) i = None"
  shows "\<exists>kv gid rnd. g_servers (xt_groups cfg' ! gi) ! i = Some kv \<and> StartShardKV (xt_n cfg) (int i) MakePersister gid rnd = Inr kv"
proof -
  from assms(1,2) obtain kv rnd where "g_servers (xt_groups cfg' ! gi) ! i = Some kv"
    "StartShardKV (xt_n cfg) (int i) (case savedIn (xt_groups cfg ! gi) i of Some ps \<Rightarrow> Copy ps | None \<Rightarrow> MakePersister)
       (g_gid (xt_groups cfg ! gi)) rnd = Inr kv" unfolding restarted_def Let_def by blast
  with assms(3) show ?thesis by auto
qed

definition cycle :: "tester_stop + ((nat \<times> nat \<times> bool \<times> nat, unit, unit, unit) shconfig \<times> (nat \<times> nat \<times> bool \<times> nat, unit, unit, unit) shconfig
    \<times> (nat \<times> nat \<times> bool \<times> nat, unit, unit, unit) shconfig)" where
  "cycle = res_bind (StartGroup (emptyShardConfig 1 (- 1)) 0 (numbered 1 1)) (\<lambda>c. res_bind (ShutdownGroup c 0) (\<lambda>c1.
     res_bind (StartGroup c1 0 (numbered 1 2)) (\<lambda>c2. Inr (c, c1, c2))))"

lemma cycle_runs: "(case cycle of Inl _ \<Rightarrow> False | Inr (c, c1, c2) \<Rightarrow> xt_n c = 1 \<and> length (xt_groups c) = 3
    \<and> g_gid (xt_groups c ! 0) = 100 \<and> own_ends (xt_groups c ! 0) 0 = {(1, 0, False, 0), (1, 0, True, 0), (1, 0, True, 1), (1, 0, True, 2)}
    \<and> map_of (rn_ends (xt_net c1)) (9, 9, False, 9) = None)"
  by code_simp

lemma cycle_facts:
  obtains c c1 c2 where "StartGroup (emptyShardConfig 1 (- 1)) 0 (numbered 1 1) = Inr c" "ShutdownGroup c 0 = Inr c1"
    "StartGroup c1 0 (numbered 1 2) = Inr c2" "xt_n c = 1" "length (xt_groups c) = 3" "g_gid (xt_groups c ! 0) = 100"
    "own_ends (xt_groups c ! 0) 0 = {(1, 0, False, 0), (1, 0, True, 0), (1, 0, True, 1), (1, 0, True, 2)}"
    "(9, 9, False, 9) \<notin> ends_of (xt_net c1)"
proof -
  from cycle_runs obtain c c1 c2 where "cycle = Inr (c, c1, c2)" and c: "xt_n c = 1" "length (xt_groups c) = 3" "g_gid (xt_groups c ! 0) = 100"
    "own_ends (xt_groups c ! 0) 0 = {(1, 0, False, 0), (1, 0, True, 0), (1, 0, True, 1), (1, 0, True, 2)}"
    "(9, 9, False, 9) \<notin> ends_of (xt_net c1)"
    by (auto simp: ends_of_def split: sum.splits)
  then show ?thesis by (intro that [OF _ _ _ c]) (auto simp: cycle_def)
qed

theorem shutdown_cuts_off_group_witness:
  "\<exists>c c1. StartGroup (emptyShardConfig 1 (- 1)) 0 (numbered 1 1) = Inr c \<and> ShutdownGroup c 0 = Inr c1
     \<and> g_servers (xt_groups c1 ! 0) ! 0 = None \<and> reaches (xt_net c1) (1, 0, True, 2) = None
     \<and> (\<exists>c2. make_end c1 (9, 9, False, 9) (servername 100 0) = Inr c2 \<and> reaches (xt_net c2) (9, 9, False, 9) = None)"
proof -
  obtain c c1 c2 where r: "StartGroup (emptyShardConfig 1 (- 1)) 0 (numbered 1 1) = Inr c" "ShutdownGroup c 0 = Inr c1"
    and c: "xt_n c = 1" "length (xt_groups c) = 3" "g_gid (xt_groups c ! 0) = 100"
      "own_ends (xt_groups c ! 0) 0 = {(1, 0, False, 0), (1, 0, True, 0), (1, 0, True, 1), (1, 0, True, 2)}"
    and new: "(9, 9, False, 9) \<notin> ends_of (xt_net c1)" by (rule cycle_facts)
  have l: "0 < length (xt_groups c)" using c(2) by simp
  from shutdown_cuts_off_group [OF r(2) l refl] obtain gg' net' where c1: "c1 = c\<lparr>xt_net := net', xt_groups := (xt_groups c)[0 := gg']\<rparr>"
    and off: "\<forall>i < xt_n c. g_servers gg' ! i = None \<and> g_saved gg' ! i = map_option Copy (savedIn (xt_groups c ! 0) i)"
    and at: "\<forall>e. reaches net' e = (if \<exists>i < xt_n c. e \<in> own_ends (xt_groups c ! 0) i
        \<or> linked_to (xt_net c) e = Some (servername (g_gid (xt_groups c ! 0)) i) then None else reaches (xt_net c) e)"
    and made: "\<forall>e v c2. make_end c1 e v = Inr c2 \<longrightarrow> (reaches (xt_net c2) e \<noteq> None
        \<longleftrightarrow> hosts (xt_net c) v \<and> (\<forall>i < xt_n c. v \<noteq> servername (g_gid (xt_groups c ! 0)) i))"
    by blast
  have z: "0 < xt_n c" using c(1) by simp
  have cut: "reaches net' e = None" if "e \<in> own_ends (xt_groups c ! 0) 0" for e using at [THEN spec, of e] that z by auto
  have none: "reaches (xt_net c2) e = None" if "make_end c1 e (servername 100 0) = Inr c2" for e c2 using made that z c(3) by metis
  obtain c2 where m: "make_end c1 (9, 9, False, 9) (servername 100 0) = Inr c2" using new by (simp add: make_end_def openEnd_eq)
  have "g_servers (xt_groups c1 ! 0) ! 0 = None" "reaches (xt_net c1) (1, 0, True, 2) = None"
    using off z cut [of "(1, 0, True, 2)"] l by (simp_all add: c1 c(4))
  with r m none [OF m] show ?thesis by blast
qed

theorem restarted_group_recovers_witness:
  "\<exists>c c1 c2 kv kv'. StartGroup (emptyShardConfig 1 (- 1)) 0 (numbered 1 1) = Inr c \<and> ShutdownGroup c 0 = Inr c1
     \<and> StartGroup c1 0 (numbered 1 2) = Inr c2 \<and> g_servers (xt_groups c ! 0) ! 0 = Some kv \<and> g_servers (xt_groups c2 ! 0) ! 0 = Some kv'
     \<and> op_os (sk_op kv') = op_os (sk_op kv)"
proof -
  obtain c c1 c2 where r: "StartGroup (emptyShardConfig 1 (- 1)) 0 (numbered 1 1) = Inr c" "ShutdownGroup c 0 = Inr c1"
      "StartGroup c1 0 (numbered 1 2) = Inr c2"
    and c: "xt_n c = 1" "length (xt_groups c) = 3" by (rule cycle_facts)
  have "savedIn (xt_groups (emptyShardConfig 1 (- 1)) ! 0) 0 = None" by (simp add: emptyShardConfig_def savedIn_def emptyGroup_def)
  from restarted_fresh [OF StartGroup_restarts [OF r(1)] _ this] obtain kv gid rnd where kv: "g_servers (xt_groups c ! 0) ! 0 = Some kv"
    "StartShardKV 1 0 MakePersister gid rnd = Inr kv" by (auto simp: emptyShardConfig_def)
  then have "sk_op kv = freshServer 1 0 MakePersister zero_os" by (auto simp: StartShardKV_def Make_fresh)
  then have inv: "server_inv (sk_op kv)" "op_peers (sk_op kv) = 1" "op_me (sk_op kv) = 0"
    using Make_fresh_inv [of 0 1] by (simp_all add: freshServer_def)
  have l: "0 < length (xt_groups c)" using c(2) by simp
  have "\<forall>i < xt_n c. \<exists>kv. g_servers (xt_groups c ! 0) ! i = Some kv \<and> server_inv (sk_op kv) \<and> op_peers (sk_op kv) = xt_n c \<and> op_me (sk_op kv) = int i"
    using kv(1) inv c(1) by simp
  from restarted_group_recovers [OF r(2,3) l this] c(1) r show ?thesis by auto
qed

end
