(* ===== verification/Links.thy ===== *)
theory Links
  imports Cluster
begin

text \<open>
  OmniPaxos servers connected by links that keep the order of requests and lose none: the state,
  its steps, and executable runs.  Every run over links is a run of the cluster of the theory
  \<open>Cluster\<close>, whose network is free to deliver in any order (\<open>link_run_initial\<close>), so all that is shown
  there holds here as well.  \<open>term_step\<close> are the steps that occur while no server stands for election
  and no link is reported as lost: delivery of the oldest request of a link, a client's proposal,
  and a tick of a timer that only sends heartbeats.
\<close>

subsection \<open>Servers connected by links\<close>

text \<open>The requests in transit are kept with their sender and addressee, oldest first.\<close>

record 'c linked =
  ln_servers :: "'c OmniPaxos list"
  ln_net :: "(nat \<times> int \<times> 'c rpc) list"

abbreviation srv :: "'c linked \<Rightarrow> nat \<Rightarrow> 'c OmniPaxos" where
  "srv s i \<equiv> ln_servers s ! i"

abbreviation ln_n :: "'c linked \<Rightarrow> nat" where
  "ln_n s \<equiv> length (ln_servers s)"

definition calls_to :: "nat \<Rightarrow> 'c calls \<Rightarrow> 'c rpc list" where
  "calls_to j ms = map snd (filter (\<lambda>(d, _). d = int j) ms)"

definition ln_link :: "'c linked \<Rightarrow> nat \<Rightarrow> nat \<Rightarrow> 'c rpc list" where
  "ln_link s i j = map (\<lambda>(_, _, m). m) (filter (\<lambda>(a, d, _). a = i \<and> d = int j) (ln_net s))"

text \<open>Server \<open>i\<close> becomes \<open>op\<close> and puts its requests \<open>ms\<close> on its links.\<close>

definition transmit :: "'c linked \<Rightarrow> nat \<Rightarrow> 'c OmniPaxos \<Rightarrow> 'c calls \<Rightarrow> 'c linked" where
  "transmit s i op ms =
     \<lparr>ln_servers = (ln_servers s)[i := op], ln_net = ln_net s @ map (\<lambda>(d, m). (i, d, m)) ms\<rparr>"

fun pop_net :: "nat \<Rightarrow> int \<Rightarrow> (nat \<times> int \<times> 'c rpc) list \<Rightarrow> (nat \<times> int \<times> 'c rpc) list" where
  "pop_net i d [] = []"
| "pop_net i d ((a, b, m) # q) = (if a = i \<and> b = d then q else (a, b, m) # pop_net i d q)"

definition pop :: "'c linked \<Rightarrow> nat \<Rightarrow> nat \<Rightarrow> 'c linked" where
  "pop s i j = s\<lparr>ln_net := pop_net i (int j) (ln_net s)\<rparr>"

fun heartbeat :: "'c rpc \<Rightarrow> bool" where
  "heartbeat (HBRequest f r) \<longleftrightarrow> True"
| "heartbeat (HBResponse f r h) \<longleftrightarrow> True"
| "heartbeat _ \<longleftrightarrow> False"

inductive deliver_step :: "'c linked \<Rightarrow> 'c linked \<Rightarrow> bool" where
  ds_deliver: "i < ln_n s \<Longrightarrow> j < ln_n s \<Longrightarrow> ln_link s i j = m # q \<Longrightarrow> range_order rng
    \<Longrightarrow> handle rng (srv s j) m = Inr (op', ms) \<Longrightarrow> deliver_step s (transmit (pop s i j) j op' ms)"

inductive term_step :: "'c linked \<Rightarrow> 'c linked \<Rightarrow> bool" where
  ts_deliver: "deliver_step s t \<Longrightarrow> term_step s t"
| ts_propose: "i < ln_n s \<Longrightarrow> Proposal (srv s i) c = Inr ((op', ms), res) \<Longrightarrow> term_step s (transmit s i op' ms)"
| ts_tick: "i < ln_n s \<Longrightarrow> startTimer (srv s i) = Inr (op', ms) \<Longrightarrow> os_L (op_os op') = os_L (op_os (srv s i))
    \<Longrightarrow> list_all (\<lambda>(_, m). heartbeat m) ms \<Longrightarrow> term_step s (transmit s i op' ms)"

subsection \<open>Links\<close>

lemma calls_to_simps [simp]:
  "calls_to b [] = []"
  "calls_to b ((d, m) # ms) = (if d = int b then m # calls_to b ms else calls_to b ms)"
  "calls_to b (ms @ ms') = calls_to b ms @ calls_to b ms'"
  by (simp_all add: calls_to_def)

lemma calls_to_mem: "m \<in> set (calls_to b ms) \<longleftrightarrow> (int b, m) \<in> set ms"
  by (force simp: calls_to_def)

lemma transmit_simps [simp]:
  "ln_servers (transmit s i op ms) = (ln_servers s)[i := op]"
  "ln_link (transmit s i op ms) a b = (if a = i then ln_link s a b @ calls_to b ms else ln_link s a b)"
proof -
  have "map (\<lambda>(_, _, m). m) (filter (\<lambda>(c, d, _). c = a \<and> d = int b) (map (\<lambda>(d, m). (i, d, m)) ms))
      = (if a = i then calls_to b ms else [])"
    by (induction ms) auto
  then show "ln_link (transmit s i op ms) a b = (if a = i then ln_link s a b @ calls_to b ms else ln_link s a b)"
    by (simp add: transmit_def ln_link_def)
qed (simp add: transmit_def)

lemma pop_net_link:
  "map (\<lambda>(_, _, m). m) (filter (\<lambda>(c, d, _). c = a \<and> d = int b) (pop_net i (int j) net))
   = (if a = i \<and> b = j then tl (map (\<lambda>(_, _, m). m) (filter (\<lambda>(c, d, _). c = a \<and> d = int b) net))
      else map (\<lambda>(_, _, m). m) (filter (\<lambda>(c, d, _). c = a \<and> d = int b) net))"
  by (induction i "int j" net rule: pop_net.induct) auto

lemma pop_simps [simp]:
  "ln_servers (pop s i j) = ln_servers s"
  "ln_link (pop s i j) a b = (if a = i \<and> b = j then tl (ln_link s a b) else ln_link s a b)"
  using pop_net_link [of a b i j "ln_net s"] by (simp_all add: pop_def ln_link_def)

subsection \<open>Executions over links are executions of the cluster\<close>

datatype 'c link_action = LDeliver nat nat | LTick nat | LPropose nat 'c

definition linked_initial :: "nat \<Rightarrow> 'c linked" where
  "linked_initial n = \<lparr>ln_servers = cl_servers (initial n), ln_net = []\<rparr>"

fun link_exec :: "'c linked \<Rightarrow> 'c link_action \<Rightarrow> 'c linked option" where
  "link_exec s (LDeliver i j) =
     (if i < ln_n s \<and> j < ln_n s
      then (case ln_link s i j of [] \<Rightarrow> None
            | m # _ \<Rightarrow> (case handle id (srv s j) m of Inl _ \<Rightarrow> None
                        | Inr (op', ms) \<Rightarrow> Some (transmit (pop s i j) j op' ms)))
      else None)"
| "link_exec s (LTick i) =
     (if i < ln_n s
      then (case startTimer (srv s i) of Inl _ \<Rightarrow> None | Inr (op', ms) \<Rightarrow> Some (transmit s i op' ms)) else None)"
| "link_exec s (LPropose i c) =
     (if i < ln_n s
      then (case Proposal (srv s i) c of Inl _ \<Rightarrow> None | Inr ((op', ms), _) \<Rightarrow> Some (transmit s i op' ms)) else None)"

fun link_run :: "'c linked \<Rightarrow> 'c link_action list \<Rightarrow> 'c linked option" where
  "link_run s [] = Some s"
| "link_run s (a # as) = (case link_exec s a of None \<Rightarrow> None | Some t \<Rightarrow> link_run t as)"

text \<open>The cluster has the same servers and has seen every request that is on a link.\<close>

definition embeds :: "'c linked \<Rightarrow> 'c cluster \<Rightarrow> bool" where
  "embeds s c \<longleftrightarrow> cl_servers c = ln_servers s
     \<and> (\<forall>i j. \<forall>m \<in> set (ln_link s i j). (int j, m) \<in> set (cl_net c))"

lemma embeds_transmit:
  "embeds s c \<Longrightarrow> embeds (transmit s i op ms) (put_server c i op ms)"
  by (auto simp: embeds_def put_server_def calls_to_mem)

lemma embeds_pop: "embeds s c \<Longrightarrow> embeds (pop s i j) c"
  by (auto simp: embeds_def dest: list.set_sel(2) [rotated] split: if_splits) (metis list.sel(2) list.set_sel(2))

lemma link_exec_cluster:
  assumes "link_exec s a = Some t" and emb: "embeds s c"
  shows "\<exists>c'. cluster_step c c' \<and> embeds t c'"
proof (cases a)
  case (LDeliver i j)
  with assms(1) obtain m q op' ms where h: "j < ln_n s" "ln_link s i j = m # q"
    "handle id (srv s j) m = Inr (op', ms)" "t = transmit (pop s i j) j op' ms"
    by (auto split: if_splits list.splits sum.splits)
  have "(int j, m) \<in> set (cl_net c)" using emb h(2) unfolding embeds_def by (metis list.set_intros(1))
  with h emb have "cluster_step c (put_server c j op' ms)"
    by (intro cs_deliver [of j c m id]) (auto simp: embeds_def)
  with h(4) emb embeds_transmit embeds_pop show ?thesis by blast
next
  case (LTick i)
  with assms(1) obtain op' ms where h: "i < ln_n s" "startTimer (srv s i) = Inr (op', ms)" "t = transmit s i op' ms"
    by (auto split: if_splits sum.splits)
  then have "cluster_step c (put_server c i op' ms)" using emb by (intro cs_timer) (auto simp: embeds_def)
  with h(3) emb embeds_transmit show ?thesis by blast
next
  case (LPropose i x)
  with assms(1) obtain op' ms res where h: "i < ln_n s" "Proposal (srv s i) x = Inr ((op', ms), res)" "t = transmit s i op' ms"
    by (auto split: if_splits sum.splits)
  then have "cluster_step c (put_server c i op' ms)" using emb by (intro cs_propose) (auto simp: embeds_def)
  with h(3) emb embeds_transmit show ?thesis by blast
qed

lemma link_run_cluster:
  assumes "link_run s as = Some t" and "embeds s c" and "cluster_reach n c"
  shows "\<exists>c'. cluster_reach n c' \<and> embeds t c'"
  using assms
proof (induction s as arbitrary: c rule: link_run.induct)
  case (2 s a as)
  then obtain u where u: "link_exec s a = Some u" "link_run u as = Some t" by (auto split: option.splits)
  from link_exec_cluster [OF u(1) 2(3)] obtain c' where "cluster_step c c'" "embeds u c'" by blast
  with 2 u show ?case by (auto intro: reach_step)
qed auto

lemma link_run_initial:
  assumes "link_run (linked_initial n) as = Some t"
  obtains c where "cluster_reach n c" "embeds t c"
  using link_run_cluster [OF assms, of "initial n" n] initial_init [of n]
  by (auto simp: embeds_def linked_initial_def ln_link_def intro: reach_init)

lemma link_run_server_inv:
  assumes "link_run (linked_initial n) as = Some t"
  shows "ln_n t = n" and "j < n \<Longrightarrow> server_inv (srv t j) \<and> op_me (srv t j) = int j \<and> op_peers (srv t j) = n"
proof -
  from assms obtain c where c: "cluster_reach n c" "embeds t c" by (rule link_run_initial)
  from reach_facts(1) [OF c(1)] c(2) show "ln_n t = n"
    and "j < n \<Longrightarrow> server_inv (srv t j) \<and> op_me (srv t j) = int j \<and> op_peers (srv t j) = n"
    by (auto simp: cluster_ok_def embeds_def)
qed

text \<open>
  Server 2 becomes the leader of round \<open>(1, 2)\<close>; the heartbeats of server 1 are slow, and the
  synchronisation of both followers is still on its way.
\<close>

definition elect_links :: "'c link_action list" where
  "elect_links =
     [LTick 2, LDeliver 2 0, LDeliver 2 1, LDeliver 0 2, LDeliver 1 2,
      LTick 2, LDeliver 2 2, LDeliver 2 0, LDeliver 2 0, LDeliver 0 2,
      LTick 2, LDeliver 2 0, LDeliver 0 2,
      LTick 2, LDeliver 2 0, LDeliver 0 2, LDeliver 2 1, LDeliver 2 1, LDeliver 2 1, LDeliver 2 1,
      LDeliver 1 2, LDeliver 1 2, LDeliver 1 2]"

definition term_start :: "nat linked" where
  "term_start = the (link_run (linked_initial 3) elect_links)"

lemma term_start_run: "link_run (linked_initial 3) elect_links = Some term_start"
proof -
  have "link_run (linked_initial 3 :: nat linked) elect_links \<noteq> None" by code_simp
  then show ?thesis by (simp add: term_start_def)
qed

lemma link_exec_term:
  assumes "link_exec s a = Some t" and "\<forall>i. a \<noteq> LTick i"
  shows "term_step s t"
proof (cases a)
  case (LDeliver i j)
  with assms(1) obtain m q op' ms where h: "i < ln_n s" "j < ln_n s" "ln_link s i j = m # q"
    "handle id (srv s j) m = Inr (op', ms)" "t = transmit (pop s i j) j op' ms"
    by (auto split: if_splits list.splits sum.splits)
  then show ?thesis using ts_deliver [OF ds_deliver [OF h(1-3) range_order_id h(4)]] by simp
next
  case (LPropose i x)
  with assms(1) show ?thesis by (auto split: if_splits sum.splits intro: ts_propose)
qed (use assms in simp)

lemma link_run_term:
  "link_run s as = Some t \<Longrightarrow> \<forall>i. LTick i \<notin> set as \<Longrightarrow> term_step\<^sup>*\<^sup>* s t"
proof (induction s as rule: link_run.induct)
  case (2 s a as)
  then obtain u where u: "link_exec s a = Some u" "link_run u as = Some t" by (auto split: option.splits)
  with 2 have "term_step s u" "term_step\<^sup>*\<^sup>* u t" by (auto intro: link_exec_term)
  then show ?case by (rule converse_rtranclp_into_rtranclp)
qed simp

end
