(* ===== verification/Stable.thy ===== *)
theory Stable
  imports Links "HOL-Library.Sublist"
begin

text \<open>
  A term of one leader over ordered links.  The theory \<open>Cluster\<close> shows that a single lost \<open>Accept\<close>
  breaks agreement; this theory shows what the same handlers guarantee when requests arrive in
  order and none is lost.  \<open>stable_term l r\<close> says that server \<open>l\<close> leads round \<open>r\<close> in its accept phase,
  and that the log of every server that promised the round, continued by the requests on the way
  to it (\<open>arrive\<close>), is the leader's log.  Every step keeps it, so the servers implement one
  replicated log (\<open>rlog_step\<close>) and agree on what they apply.
\<close>

subsection \<open>The stable term\<close>

text \<open>What a follower's phase, log and decided index become when the requests on a link arrive.\<close>

fun arrive :: "Phase \<times> 'c list \<times> int \<Rightarrow> 'c rpc list \<Rightarrow> Phase \<times> 'c list \<times> int" where
  "arrive st [] = st"
| "arrive (ph, lg, d) (AcceptSyncRequest l b sfx k # q) =
     arrive (if ph = PREPARE then (ACCEPT, take (nat k) lg @ sfx, d) else (ph, lg, d)) q"
| "arrive (ph, lg, d) (AcceptRequest l b k c # q) = arrive (if ph = ACCEPT then (ph, lg @ [c], d) else (ph, lg, d)) q"
| "arrive (ph, lg, d) (DecideRequest l b k # q) =
     arrive (if ph = ACCEPT \<and> d < k \<and> k \<le> int (length lg) then (ph, lg, k) else (ph, lg, d)) q"
| "arrive st (_ # q) = arrive st q"

definition future :: "'c linked \<Rightarrow> nat \<Rightarrow> nat \<Rightarrow> Phase \<times> 'c list \<times> int" where
  "future s l j = arrive (phase (op_state (srv s j)), oplog (srv s j), decidedIdx (srv s j)) (ln_link s l j)"

definition follows :: "'c linked \<Rightarrow> nat \<Rightarrow> nat \<Rightarrow> bool" where
  "follows s l j \<longleftrightarrow> j \<noteq> l \<and> int j \<in> fst ` set (op_promises (srv s l))"

fun carries :: "'c linked \<Rightarrow> nat \<Rightarrow> Ballot \<Rightarrow> nat \<Rightarrow> nat \<Rightarrow> 'c rpc \<Rightarrow> bool" where
  "carries s l r i j (AcceptSyncRequest l' b sfx k) \<longleftrightarrow>
     i = l \<and> l' = int l \<and> b = r \<and> 0 \<le> k \<and> (j = l \<or> follows s l j)"
| "carries s l r i j (AcceptRequest l' b k c) \<longleftrightarrow> i = l \<and> l' = int l \<and> b = r \<and> 1 \<le> k \<and> follows s l j"
| "carries s l r i j (DecideRequest l' b d) \<longleftrightarrow>
     i = l \<and> l' = int l \<and> b = r \<and> 0 \<le> d \<and> (j = l \<or> follows s l j)"
| "carries s l r i j (AcceptedRequest f b k) \<longleftrightarrow> j = l \<and> f = int i \<and> b = r \<and> 0 \<le> k \<and> follows s l i"
| "carries s l r i j (HBRequest f k) \<longleftrightarrow> f = int i"
| "carries s l r i j (HBResponse f k h) \<longleftrightarrow> f = int i"
| "carries s l r i j _ \<longleftrightarrow> False"

fun acks :: "'c rpc list \<Rightarrow> int list" where
  "acks [] = []"
| "acks (AcceptedRequest f b k # q) = k # acks q"
| "acks (_ # q) = acks q"

text \<open>Server \<open>j\<close> stores the first \<open>k\<close> commands of the term.\<close>

definition holds :: "'c linked \<Rightarrow> nat \<Rightarrow> nat \<Rightarrow> int \<Rightarrow> bool" where
  "holds s l j k \<longleftrightarrow> k \<le> 0 \<or> (j = l \<or> follows s l j \<and> phase (op_state (srv s j)) = ACCEPT)
     \<and> k \<le> int (length (oplog (srv s j)))"

definition applied :: "'c linked \<Rightarrow> nat \<Rightarrow> 'c list" where
  "applied s i = map Command (op_applyCh (srv s i))"

definition leader_ok :: "'c linked \<Rightarrow> nat \<Rightarrow> Ballot \<Rightarrow> bool" where
  "leader_ok s l r \<longleftrightarrow> l < ln_n s \<and> in_state (srv s l) LEADER ACCEPT \<and> promised (srv s l) = r"

definition server_in_term :: "'c linked \<Rightarrow> nat \<Rightarrow> nat \<Rightarrow> bool" where
  "server_in_term s l j \<longleftrightarrow> server_inv (srv s j) \<and> op_me (srv s j) = int j \<and> op_peers (srv s j) = ln_n s
     \<and> (leads (srv s j) \<longleftrightarrow> j = l)
     \<and> decidedIdx (srv s j) \<le> int (length (oplog (srv s l)))
     \<and> applied s j = take (nat (decidedIdx (srv s j))) (oplog (srv s l))"

definition follower_ok :: "'c linked \<Rightarrow> nat \<Rightarrow> Ballot \<Rightarrow> nat \<Rightarrow> bool" where
  "follower_ok s l r j \<longleftrightarrow> promised (srv s j) = r
     \<and> fst (future s l j) = ACCEPT \<and> fst (snd (future s l j)) = oplog (srv s l)"

definition stable_term :: "nat \<Rightarrow> Ballot \<Rightarrow> 'c linked \<Rightarrow> bool" where
  "stable_term l r s \<longleftrightarrow> leader_ok s l r
     \<and> (\<forall>j < ln_n s. server_in_term s l j)
     \<and> (\<forall>i < ln_n s. \<forall>j < ln_n s. list_all (carries s l r i j) (ln_link s i j))
     \<and> (\<forall>j < ln_n s. follows s l j \<longrightarrow> follower_ok s l r j)
     \<and> (\<forall>j < ln_n s. list_all (holds s l j) (op_accepted (srv s l) ! j # acks (ln_link s j l)))"

subsection \<open>Replay\<close>

lemma arrive_append: "arrive st (p @ q) = arrive (arrive st p) q"
proof (induction p arbitrary: st)
  case (Cons m p)
  obtain ph lg d where "st = (ph, lg, d)" by (cases st)
  with Cons show ?case by (cases m) simp_all
qed simp

lemma arrive_heartbeat: "heartbeat m \<Longrightarrow> arrive st (m # q) = arrive st q"
  by (cases st; cases m) simp_all

lemma arrive_heartbeats: "list_all heartbeat q \<Longrightarrow> arrive st q = st"
  by (induction q) (simp_all add: arrive_heartbeat)

lemma arrive_decide:
  "fst (arrive st [DecideRequest l b k]) = fst st" "fst (snd (arrive st [DecideRequest l b k])) = fst (snd st)"
  by (cases st, simp)+

lemma arrive_accept:
  "fst st = ACCEPT \<Longrightarrow> arrive st [AcceptRequest l b k c] = (ACCEPT, fst (snd st) @ [c], snd (snd st))"
  by (cases st) simp

text \<open>In the accept phase a follower only appends, and its decided index only grows.\<close>

lemma arrive_accept_phase:
  "arrive (ACCEPT, lg, d) q = (ph, lg', d') \<Longrightarrow> ph = ACCEPT \<and> prefix lg lg' \<and> d \<le> d'"
proof (induction q arbitrary: lg d)
  case (Cons m q)
  show ?case
  proof (cases m)
    case (AcceptRequest l b k c)
    with Cons.prems have "arrive (ACCEPT, lg @ [c], d) q = (ph, lg', d')" by simp
    from Cons.IH [OF this] show ?thesis by (auto dest: append_prefixD)
  next
    case (DecideRequest l b k)
    with Cons.prems have "arrive (ACCEPT, lg, if d < k \<and> k \<le> int (length lg) then k else d) q = (ph, lg', d')"
      by (auto split: if_splits)
    from Cons.IH [OF this] show ?thesis by (auto split: if_splits)
  qed (use Cons in simp_all)
qed simp

lemma acks_append [simp]: "acks (p @ q) = acks p @ acks q"
  by (induction p rule: acks.induct) simp_all

lemma acks_mem: "k \<in> set (acks q) \<longleftrightarrow> (\<exists>f b. AcceptedRequest f b k \<in> set q)"
  by (induction q rule: acks.induct) auto

lemma acks_heartbeats: "list_all heartbeat q \<Longrightarrow> acks q = []"
  by (induction q rule: acks.induct) auto

text \<open>One request to every promised server puts one request on the link to each of them.\<close>

lemma calls_to_promises:
  assumes "promises_ok n m"
  shows "calls_to b (map (\<lambda>p. (p_f p, x)) (filter (\<lambda>p. P (p_f p)) (map snd m))) =
    (if int b \<in> fst ` set m \<and> P (int b) then [x] else [])"
  using assms
proof (induction m)
  case (Cons kp m)
  have "promises_ok n m" and f: "p_f (snd kp) = fst kp" "fst kp \<notin> fst ` set m"
    using Cons.prems by (cases kp, force simp: promises_ok_def promise_ok_def)+
  from Cons.IH [OF this(1)] f show ?case by (auto simp: image_iff)
qed simp

subsection \<open>Every step keeps the term stable\<close>

lemma stableI:
  assumes "leader_ok s l r" and "\<And>j. j < ln_n s \<Longrightarrow> server_in_term s l j"
    and "\<And>i j m. i < ln_n s \<Longrightarrow> j < ln_n s \<Longrightarrow> m \<in> set (ln_link s i j) \<Longrightarrow> carries s l r i j m"
    and "\<And>j. j < ln_n s \<Longrightarrow> follows s l j \<Longrightarrow> follower_ok s l r j"
    and "\<And>j. j < ln_n s \<Longrightarrow> holds s l j (op_accepted (srv s l) ! j)"
    and "\<And>j k. j < ln_n s \<Longrightarrow> k \<in> set (acks (ln_link s j l)) \<Longrightarrow> holds s l j k"
  shows "stable_term l r s"
  using assms by (simp add: stable_term_def list_all_iff)

lemma stableD:
  assumes "stable_term l r s"
  shows "leader_ok s l r" and "j < ln_n s \<Longrightarrow> server_in_term s l j"
    and "i < ln_n s \<Longrightarrow> j < ln_n s \<Longrightarrow> m \<in> set (ln_link s i j) \<Longrightarrow> carries s l r i j m"
    and "j < ln_n s \<Longrightarrow> follows s l j \<Longrightarrow> follower_ok s l r j"
    and "j < ln_n s \<Longrightarrow> holds s l j (op_accepted (srv s l) ! j)"
    and "j < ln_n s \<Longrightarrow> k \<in> set (acks (ln_link s j l)) \<Longrightarrow> holds s l j k"
  using assms by (simp_all add: stable_term_def list_all_iff)

lemma stable_leader:
  assumes "stable_term l r s"
  shows "l < ln_n s" "in_state (srv s l) LEADER ACCEPT" "promised (srv s l) = r" "op_currentRnd (srv s l) = r"
    "op_me (srv s l) = int l" "op_peers (srv s l) = ln_n s" "server_inv (srv s l)"
    "length (op_accepted (srv s l)) = ln_n s" "promises_ok (ln_n s) (op_promises (srv s l))"
  using stableD(1) [OF assms] stableD(2) [OF assms, of l]
  by (auto simp: leader_ok_def server_in_term_def server_inv_def rounds_ok_def server_ok_def)

text \<open>A change of a server that only heartbeats can see.\<close>

definition same_core :: "'c OmniPaxos \<Rightarrow> 'c OmniPaxos \<Rightarrow> bool" where
  "same_core op op' \<longleftrightarrow> op_os op' = op_os op \<and> op_state op' = op_state op \<and> op_promises op' = op_promises op
     \<and> op_accepted op' = op_accepted op \<and> op_applyCh op' = op_applyCh op
     \<and> op_me op' = op_me op \<and> op_peers op' = op_peers op"

lemma same_core_refl [simp]: "same_core op op"
  by (simp add: same_core_def)

lemma carries_cong: "follows t l = follows s l \<Longrightarrow> carries t l r i j m = carries s l r i j m"
  by (cases m) simp_all

lemma carries_heartbeat: "heartbeat m \<Longrightarrow> carries s l r i j m \<longleftrightarrow> sender m = int i"
  by (cases m) simp_all

lemma stable_pop:
  assumes st: "stable_term l r s" and ln: "ln_link s i j = m # q" and irr: "heartbeat m \<or> \<not> (i = l \<and> follows s l j)"
  shows "stable_term l r (pop s i j)"
proof (rule stableI)
  have same: "follows (pop s i j) l = follows s l" "holds (pop s i j) l = holds s l" "applied (pop s i j) = applied s"
    by (simp_all add: follows_def holds_def applied_def fun_eq_iff)
  show "leader_ok (pop s i j) l r" using stableD(1) [OF st] by (simp add: leader_ok_def)
  show "server_in_term (pop s i j) l a" if "a < ln_n (pop s i j)" for a
    using stableD(2) [OF st, of a] that by (simp add: server_in_term_def same)
  show "carries (pop s i j) l r a b m'" if "a < ln_n (pop s i j)" "b < ln_n (pop s i j)"
    "m' \<in> set (ln_link (pop s i j) a b)" for a b m'
    using stableD(3) [OF st, of a b m'] that ln carries_cong [OF same(1)] by (auto split: if_splits)
  show "follower_ok (pop s i j) l r a" if "a < ln_n (pop s i j)" "follows (pop s i j) l a" for a
  proof -
    have "future (pop s i j) l a = future s l a"
      using irr that ln by (auto simp: future_def same arrive_heartbeat)
    with stableD(4) [OF st, of a] that show ?thesis by (simp add: follower_ok_def same)
  qed
  show "holds (pop s i j) l a (op_accepted (srv (pop s i j) l) ! a)" if "a < ln_n (pop s i j)" for a
    using stableD(5) [OF st, of a] that by (simp add: same)
  show "holds (pop s i j) l a k" if "a < ln_n (pop s i j)" "k \<in> set (acks (ln_link (pop s i j) a l))" for a k
    using stableD(6) [OF st, of a k] that ln by (cases m) (auto simp: same split: if_splits)
qed

lemma stable_quiet:
  assumes st: "stable_term l r s" and j: "j < ln_n s" and core: "same_core (srv s j) op'" and inv: "server_inv op'"
    and hb: "list_all (\<lambda>(_, m). heartbeat m \<and> sender m = int j) ms"
  shows "stable_term l r (transmit s j op' ms)" (is "stable_term l r ?t")
proof (rule stableI)
  have core': "same_core (srv s a) (srv ?t a)" if "a < ln_n s" for a
    using core j that by (auto simp: nth_list_update)
  note cl = core' [OF stable_leader(1) [OF st], unfolded same_core_def]
  have calls: "list_all heartbeat (calls_to b ms)" for b
    using hb by (auto simp: calls_to_mem list_all_iff)
  have fl: "follows ?t l = follows s l" using cl by (simp add: follows_def fun_eq_iff)
  have same: "holds ?t l a k = holds s l a k" "applied ?t a = applied s a" "future ?t l a = future s l a"
    if "a < ln_n s" for a k
    using core' [OF that] cl
    by (simp_all add: same_core_def holds_def applied_def fl future_def arrive_append arrive_heartbeats [OF calls])
  show "leader_ok ?t l r" using stableD(1) [OF st] cl by (simp add: leader_ok_def)
  show "server_in_term ?t l a" if "a < ln_n ?t" for a
    using stableD(2) [OF st, of a] core' [of a] that cl inv j
    by (auto simp: server_in_term_def same same_core_def nth_list_update)
  show "carries ?t l r a b m" if "a < ln_n ?t" "b < ln_n ?t" "m \<in> set (ln_link ?t a b)" for a b m
  proof (cases "m \<in> set (ln_link s a b)")
    case True
    with stableD(3) [OF st, of a b m] that carries_cong [OF fl] show ?thesis by simp
  next
    case False
    with that have "a = j" "(int b, m) \<in> set ms" by (auto simp: calls_to_mem split: if_splits)
    with hb show ?thesis by (auto simp: list_all_iff carries_heartbeat)
  qed
  show "follower_ok ?t l r a" if "a < ln_n ?t" "follows ?t l a" for a
    using stableD(4) [OF st, of a] that core' [of a] cl
    by (simp add: follower_ok_def same same_core_def fl)
  show "holds ?t l a (op_accepted (srv ?t l) ! a)" if "a < ln_n ?t" for a
    using stableD(5) [OF st, of a] that cl by (simp add: same)
  show "holds ?t l a k" if "a < ln_n ?t" "k \<in> set (acks (ln_link ?t a l))" for a k
    using stableD(6) [OF st, of a k] that
    by (auto simp: same acks_heartbeats [OF calls] split: if_splits)
qed

text \<open>A follower handles the oldest request of its leader as \<open>arrive\<close> says.\<close>

lemma stable_follower:
  assumes st: "stable_term l r s" and j: "j < ln_n s" "follows s l j" and ln: "ln_link s l j = m # q"
    and inv: "server_inv op'" and me: "op_me op' = int j" "op_peers op' = ln_n s" "\<not> leads op'" "promised op' = r"
    and rep: "arrive (phase (op_state op'), oplog op', decidedIdx op') q = future s l j"
    and grow: "phase (op_state (srv s j)) = ACCEPT \<Longrightarrow>
      phase (op_state op') = ACCEPT \<and> length (oplog (srv s j)) \<le> length (oplog op')"
    and app: "decidedIdx op' \<le> int (length (oplog (srv s l)))"
      "map Command (op_applyCh op') = take (nat (decidedIdx op')) (oplog (srv s l))"
    and ms: "ms = [] \<or> phase (op_state op') = ACCEPT
      \<and> ms = [(int l, AcceptedRequest (int j) r (int (length (oplog op'))))]"
  shows "stable_term l r (transmit (pop s l j) j op' ms)" (is "stable_term l r ?t")
proof (rule stableI)
  have jl: "j \<noteq> l" using j(2) by (simp add: follows_def)
  have srv: "(ln_servers s)[j := op'] ! a = (if a = j then op' else srv s a)" if "a < ln_n s" for a
    using that j(1) by (simp add: nth_list_update)
  have sl [simp]: "(ln_servers s)[j := op'] ! l = srv s l" using jl by simp
  have fl: "follows ?t l = follows s l" using jl by (simp add: follows_def fun_eq_iff)
  have link: "set (ln_link ?t a b) \<subseteq> set (ln_link s a b) \<union> (if a = j then set (calls_to b ms) else {})" for a b
    using ln by (auto dest: list.set_sel(2))
  have hd: "holds ?t l a k" if "a < ln_n s" "holds s l a k" for a k
    using that grow j(1) jl by (auto simp: holds_def fl nth_list_update)
  show "leader_ok ?t l r" using stableD(1) [OF st] by (simp add: leader_ok_def)
  show "server_in_term ?t l a" if "a < ln_n ?t" for a
    using stableD(2) [OF st, of a] that inv me app jl j(1)
    by (auto simp: server_in_term_def applied_def nth_list_update)
  show "carries ?t l r a b m'" if "a < ln_n ?t" "b < ln_n ?t" "m' \<in> set (ln_link ?t a b)" for a b m'
    using stableD(3) [OF st, of a b m'] that carries_cong [OF fl] link [of a b] ms j(2)
    by (auto simp: calls_to_mem fl split: if_splits)
  show "follower_ok ?t l r a" if "a < ln_n ?t" "follows ?t l a" for a
  proof -
    have "future ?t l a = future s l a"
      using rep ln srv [of a] that jl by (auto simp: future_def nth_list_update)
    with stableD(4) [OF st, of a] that j(1) me show ?thesis by (auto simp: follower_ok_def fl nth_list_update)
  qed
  show "holds ?t l a (op_accepted (srv ?t l) ! a)" if "a < ln_n ?t" for a
    using stableD(5) [OF st, of a] that hd by simp
  show "holds ?t l a k" if a: "a < ln_n ?t" and k: "k \<in> set (acks (ln_link ?t a l))" for a k
  proof (cases "k \<in> set (acks (ln_link s a l))")
    case True
    with stableD(6) [OF st, of a k] a hd show ?thesis by simp
  next
    case False
    with k jl ms have "a = j" "k = int (length (oplog op'))" "phase (op_state op') = ACCEPT"
      by (auto split: if_splits)
    with j srv [of j] show ?thesis by (simp add: holds_def fl)
  qed
qed

text \<open>The leader counts an acknowledgement and possibly decides, or appends a command.\<close>

lemma stable_update_leader:
  assumes st: "stable_term l r s" and inv: "server_inv op'"
    and fr: "op_me op' = int l" "op_peers op' = ln_n s" "op_state op' = op_state (srv s l)"
      "promised op' = r" "op_promises op' = op_promises (srv s l)"
    and log: "oplog op' = oplog (srv s l) @ cs"
    and acc: "op_accepted op' = (op_accepted (srv s l))[f := k]" "f < ln_n s"
      "k \<le> 0 \<or> f = l \<and> k \<le> int (length (oplog op')) \<or> f \<noteq> l \<and> holds s l f k"
    and app: "decidedIdx op' \<le> int (length (oplog op'))"
      "map Command (op_applyCh op') = take (nat (decidedIdx op')) (oplog op')"
    and ms: "\<And>b m. b < ln_n s \<Longrightarrow> m \<in> set (calls_to b ms) \<Longrightarrow> carries s l r l b m \<and> (\<forall>f b k. m \<noteq> AcceptedRequest f b k)"
    and rep: "\<And>b st. b < ln_n s \<Longrightarrow> follows s l b \<Longrightarrow> fst st = ACCEPT \<Longrightarrow> fst (snd st) = oplog (srv s l)
      \<Longrightarrow> fst (arrive st (calls_to b ms)) = ACCEPT \<and> fst (snd (arrive st (calls_to b ms))) = oplog op'"
  shows "stable_term l r (transmit s l op' ms)" (is "stable_term l r ?t")
proof (rule stableI)
  note ld = stable_leader [OF st]
  have srv: "(ln_servers s)[l := op'] ! a = (if a = l then op' else srv s a)" if "a < ln_n s" for a
    using that ld(1) by (simp add: nth_list_update)
  have sl [simp]: "(ln_servers s)[l := op'] ! l = op'" using ld(1) by simp
  have fl: "follows ?t l = follows s l" using fr ld(1) by (simp add: follows_def fun_eq_iff)
  have hd: "holds ?t l a k" if "a < ln_n s" "holds s l a k" for a k
    using that ld(1) log by (auto simp: holds_def fl nth_list_update)
  have dec: "decidedIdx (srv s a) \<le> int (length (oplog (srv s l)))" if "a < ln_n s" for a
    using stableD(2) [OF st that] by (simp add: server_in_term_def)
  show "leader_ok ?t l r" using stableD(1) [OF st] fr by (simp add: leader_ok_def)
  show "server_in_term ?t l a" if "a < ln_n ?t" for a
    using stableD(2) [OF st, of a] srv [of a] that inv fr app dec [of a] ld(2) log
    by (auto simp: server_in_term_def applied_def)
  show "carries ?t l r a b m" if "a < ln_n ?t" "b < ln_n ?t" "m \<in> set (ln_link ?t a b)" for a b m
    using stableD(3) [OF st, of a b m] that carries_cong [OF fl] ms [of b m] by (auto split: if_splits)
  show "follower_ok ?t l r a" if "a < ln_n ?t" "follows ?t l a" for a
  proof -
    have a: "a < ln_n s" "follows s l a" "a \<noteq> l" using that by (simp_all add: fl follows_def)
    have "future ?t l a = arrive (future s l a) (calls_to a ms)"
      using a by (simp add: future_def arrive_append)
    with rep [OF a(1,2), of "future s l a"] stableD(4) [OF st a(1,2)] a(3) show ?thesis
      by (simp add: follower_ok_def)
  qed
  show "holds ?t l a (op_accepted (srv ?t l) ! a)" if "a < ln_n ?t" for a
  proof (cases "a = f")
    case True
    with acc ld(8) hd [of f k] show ?thesis by (auto simp: holds_def)
  next
    case False
    with stableD(5) [OF st, of a] that hd acc ld(8) show ?thesis by simp
  qed
  show "holds ?t l a k'" if "a < ln_n ?t" "k' \<in> set (acks (ln_link ?t a l))" for a k'
  proof -
    have "acks (calls_to l ms) = []" using ms [of l] ld(1) by (metis acks_mem last_in_set)
    with stableD(6) [OF st, of a k'] that hd show ?thesis by (auto split: if_splits)
  qed
qed

text \<open>What a decision adds to the apply channel continues what is already there.\<close>

lemma apply_extend:
  assumes "map Command xs = take (nat a) lg" and "0 \<le> a" and "a \<le> d" and "d \<le> int (length lg)"
    and "prefix lg lg'"
  shows "map Command (xs @ map (\<lambda>i. \<lparr>CommandValid = True, Command = lg ! nat i, CommandIndex = i\<rparr>) [a..d - 1])
    = take (nat d) lg'"
proof -
  have "map (\<lambda>i. lg ! nat i) [a..d - 1] = drop (nat a) (take (nat d) lg)"
    using assms by (intro nth_equalityI) (auto simp: nth_upto nat_add_distrib)
  then have "map Command (xs @ map (\<lambda>i. \<lparr>CommandValid = True, Command = lg ! nat i, CommandIndex = i\<rparr>) [a..d - 1])
      = take (nat a) (take (nat d) lg) @ drop (nat a) (take (nat d) lg)"
    using assms by (simp add: o_def min_def nat_mono)
  also have "\<dots> = take (nat d) lg'"
    unfolding append_take_drop_id using assms by (auto simp: prefix_def)
  finally show ?thesis .
qed

lemma carries_rpc_ok:
  assumes "stable_term l r s" and "i < ln_n s" and "carries s l r i j m"
  shows "rpc_ok (ln_n s) m"
  using assms stable_leader(1) [OF assms(1)] by (cases m) auto

lemma heartbeat_result:
  assumes "heartbeat m" and "sender m = int i" and "handle rng op m = Inr (op', ms)"
  shows "same_core op op'" and "list_all (\<lambda>(_, m). heartbeat m \<and> sender m = op_me op) ms"
  using assms by (cases m; auto simp: same_core_def heartBeatReturn_def split: if_splits)+

lemma follower_log_prefix:
  assumes "stable_term l r s" and "j < ln_n s" and "follows s l j" and "phase (op_state (srv s j)) = ACCEPT"
  shows "prefix (oplog (srv s j)) (oplog (srv s l))"
  using stableD(4) [OF assms(1-3)] assms(4) arrive_accept_phase
  by (metis follower_ok_def future_def prod.collapse)

lemma role_cases: "role st \<noteq> LEADER \<longleftrightarrow> role st = FOLLOWER"
  by (cases "role st") simp_all

lemma stable_follower_handle:
  assumes st: "stable_term l r s" and j: "j < ln_n s" "follows s l j" and ln: "ln_link s l j = m # q"
    and rng: "range_order rng" and h: "handle rng (srv s j) m = Inr (op', ms)" and hb: "\<not> heartbeat m"
  shows "stable_term l r (transmit (pop s l j) j op' ms)"
proof -
  let ?op = "srv s j"
  note ld = stable_leader [OF st]
  have it: "server_inv ?op" "op_me ?op = int j" "op_peers ?op = ln_n s" "role (op_state ?op) = FOLLOWER"
    "decidedIdx ?op \<le> int (length (oplog (srv s l)))"
    "map Command (op_applyCh ?op) = take (nat (decidedIdx ?op)) (oplog (srv s l))" "promised ?op = r"
    using stableD(2) [OF st j(1)] stableD(4) [OF st j] j(2)
    by (auto simp: server_in_term_def follows_def role_cases applied_def follower_ok_def)
  have cm: "carries s l r l j m" using stableD(3) [OF st ld(1) j(1), of m] ln by simp
  have inv: "server_inv op'"
    using op_step_inv [OF step_handle [OF rng _ h] it(1)] carries_rpc_ok [OF st ld(1) cm] it(3) by simp
  have fut: "future s l j = arrive (phase (op_state ?op), oplog ?op, decidedIdx ?op) (m # q)"
    using ln by (simp add: future_def)
  note goal = stable_follower [OF st j ln inv]
  show ?thesis
  proof (cases m)
    case (AcceptSyncRequest l' b sfx k)
    then show ?thesis using h it cm
      by (intro goal) (auto simp: AcceptSyncHandler_def Let_def fut op_prefix_nonneg split: if_splits)
  next
    case (AcceptRequest l' b k c)
    then show ?thesis using h it cm
      by (intro goal) (auto simp: AcceptHandler_def Let_def fut split: if_splits)
  next
    case (DecideRequest l' b d)
    show ?thesis
    proof (cases "phase (op_state ?op) = ACCEPT \<and> decidedIdx ?op < d \<and> d \<le> int (length (oplog ?op))")
      case False
      then show ?thesis using h it cm DecideRequest
        by (intro goal) (auto simp: DecideHandler_def fut split: if_splits)
    next
      case True
      let ?ch = "op_applyCh ?op @ map (\<lambda>i. \<lparr>CommandValid = True, Command = oplog ?op ! nat i, CommandIndex = i\<rparr>)
        [decidedIdx ?op..d - 1]"
      have op': "op' = persist (?op\<lparr>op_applyCh := ?ch, op_os := (op_os ?op)\<lparr>os_DecidedIdx := d\<rparr>\<rparr>)" "ms = []"
        using True h it cm DecideRequest by (auto simp: DecideHandler_def addToApplyChan_Inr)
      have pre: "prefix (oplog ?op) (oplog (srv s l))" using follower_log_prefix [OF st j] True by simp
      have "0 \<le> decidedIdx ?op" using it(1) by (simp add: server_inv_def server_ok_def)
      moreover have "map Command (op_applyCh ?op) = take (nat (decidedIdx ?op)) (oplog ?op)"
        using it(6) pre True by (auto simp: prefix_def)
      ultimately have "map Command ?ch = take (nat d) (oplog (srv s l))"
        using True by (intro apply_extend [OF _ _ _ _ pre]) auto
      then show ?thesis using True it cm DecideRequest prefix_length_le [OF pre]
        by (intro goal) (simp_all add: op' fut)
    qed
  qed (use cm hb j(2) in \<open>auto simp: follows_def\<close>)
qed

lemma decide_calls:
  assumes "stable_term l r s"
  shows "calls_to b (map (\<lambda>p. (p_f p, x)) (map snd (op_promises (srv s l)))) =
    (if int b \<in> fst ` set (op_promises (srv s l)) then [x] else [])"
  using calls_to_promises [OF stable_leader(9) [OF assms], of b x "\<lambda>_. True"] by simp

lemma accept_calls:
  assumes "stable_term l r s"
  shows "calls_to b (map (\<lambda>p. (p_f p, x)) (filter (\<lambda>p. p_f p \<noteq> int l) (map snd (op_promises (srv s l))))) =
    (if follows s l b then [x] else [])"
  using calls_to_promises [OF stable_leader(9) [OF assms], of b x "\<lambda>k. k \<noteq> int l"] by (auto simp: follows_def)

lemma stable_ack:
  assumes st: "stable_term l r s" and f: "f < ln_n s" "f \<noteq> l" "holds s l f k" "0 \<le> k"
    and h: "AcceptedHandler (srv s l) (int f) r k = Inr (op', ms)" and inv: "server_inv op'"
  shows "stable_term l r (transmit s l op' ms)"
proof -
  let ?op = "srv s l"
  note ld = stable_leader [OF st]
  have it: "decidedIdx ?op \<le> int (length (oplog ?op))" "map Command (op_applyCh ?op) = take (nat (decidedIdx ?op)) (oplog ?op)"
    using stableD(2) [OF st ld(1)] by (simp_all add: server_in_term_def applied_def)
  note goal = stable_update_leader [OF st inv, where f = f and k = k and cs = "[]"]
  from h show ?thesis
  proof (cases rule: AcceptedHandler_Inr)
    case ignored
    then show ?thesis by (simp add: stable_quiet [OF st ld(1) same_core_refl ld(7)])
  next
    case (count acc)
    then show ?thesis using ld f it by (intro goal) simp_all
  next
    case (decide acc)
    note [simp] = decide_calls [OF st]
    show ?thesis
    proof (rule goal)
      show "map Command (op_applyCh op') = take (nat (decidedIdx op')) (oplog op')"
        using apply_extend [OF it(2) decide(8) less_imp_le [OF decide(6)] decide(9) prefix_order.refl] decide(10)
        by simp
      show "carries s l r l b m \<and> (\<forall>f b k. m \<noteq> AcceptedRequest f b k)" if "m \<in> set (calls_to b ms)" for b m
        using that ld f(4) unfolding decide(11) by (auto simp: follows_def simp del: map_map split: if_splits)
      show "fst (arrive st (calls_to b ms)) = ACCEPT \<and> fst (snd (arrive st (calls_to b ms))) = oplog op'"
        if "fst st = ACCEPT" "fst (snd st) = oplog ?op" for b st
        using that unfolding decide(11) by (simp add: arrive_decide decide(10) del: map_map)
    qed (use decide ld f it in simp_all)
  qed
qed

lemma stable_propose:
  assumes st: "stable_term l r s" and j: "j < ln_n s" and h: "Proposal (srv s j) c = Inr ((op', ms), res)"
  shows "stable_term l r (transmit s j op' ms)"
proof (cases "j = l")
  case False
  with stableD(2) [OF st j] have "role (op_state (srv s j)) = FOLLOWER" "server_inv (srv s j)"
    by (auto simp: server_in_term_def role_cases)
  with h have "op' = srv s j" "ms = []" by (auto simp: Proposal_def stopped_def Let_def)
  then show ?thesis using stable_quiet [OF st j same_core_refl] \<open>server_inv (srv s j)\<close> by simp
next
  case True
  let ?op = "srv s l" and ?i = "int (length (oplog (srv s l))) + 1"
  note ld = stable_leader [OF st]
  have inv: "server_inv op'" using op_step_inv [OF step_propose [OF h]] ld(7) True by simp
  have it: "decidedIdx ?op \<le> int (length (oplog ?op))" "map Command (op_applyCh ?op) = take (nat (decidedIdx ?op)) (oplog ?op)"
    using stableD(2) [OF st ld(1)] by (simp_all add: server_in_term_def applied_def)
  have op': "op' = persist (?op\<lparr>op_os := (op_os ?op)\<lparr>os_Log := oplog ?op @ [c]\<rparr>, op_accepted := (op_accepted ?op)[l := ?i]\<rparr>)"
    and ms: "ms = map (\<lambda>p. (p_f p, AcceptRequest (int l) r ?i c))
      (filter (\<lambda>p. p_f p \<noteq> int l) (map snd (op_promises ?op)))"
    using h ld True by (auto simp: Proposal_def stopped_def Let_def go_set_def add.commute)
  note [simp] = accept_calls [OF st]
  show ?thesis unfolding True
  proof (rule stable_update_leader [OF st inv, where f = l and k = ?i and cs = "[c]"])
    show "carries s l r l b m \<and> (\<forall>f b k. m \<noteq> AcceptedRequest f b k)" if "m \<in> set (calls_to b ms)" for b m
      using that unfolding ms by (auto simp del: map_map split: if_splits)
    show "fst (arrive st (calls_to b ms)) = ACCEPT \<and> fst (snd (arrive st (calls_to b ms))) = oplog op'"
      if "follows s l b" "fst st = ACCEPT" "fst (snd st) = oplog ?op" for b st
      using that unfolding ms by (simp add: arrive_accept op' del: map_map)
  qed (use op' ld it in simp_all)
qed

lemma calm_tick:
  assumes inv: "server_inv op" and res: "startTimer op = Inr (op', ms)" and L: "os_L (op_os op') = os_L (op_os op)"
  shows "same_core op op'"
  using res
proof (rule startTimer_Inr)
  fix op1 op2 ms2 op3 ms3
  assume 1: "op1 = op\<lparr>op_ballots := mput (op_b op) (op_qc op) (op_ballots op)\<rparr>"
    and 2: "(if majority (op_peers op1) \<le> length (op_ballots op1) then checkLeader op1
             else Inr (op1\<lparr>op_qc := False\<rparr>, [])) = Inr (op2, ms2)"
    and 3: "updateMissedHbsAndReconnect op2 = Inr (op3, ms3)"
    and 4: "op' = op3\<lparr>op_ballots := [], op_r := op_r op3 + 1\<rparr>"
  have d: "0 \<le> decidedIdx op1" using inv 1 by (simp add: server_inv_def server_ok_def)
  have 5: "same_core op2 op'" using 3 4 by (auto elim!: updateMissed_Inr simp: same_core_def)
  with L 1 have "os_L (op_os op2) = os_L (op_os op1)" by (simp add: same_core_def)
  with 2 d have "same_core op1 op2"
    by (auto simp: same_core_def checkLeader_def Let_def triggerLeader_eq split: if_splits)
  with 1 5 show ?thesis by (simp add: same_core_def)
qed

text \<open>The requests of a term, by their addressee.\<close>

lemma carries_cases:
  assumes "carries s l r i j m"
  obtains (hb) "heartbeat m" "sender m = int i" | (lead) "\<not> heartbeat m" "i = l" "follows s l j"
    | (own) "\<not> heartbeat m" "i = l" "j = l" "\<forall>f b k. m \<noteq> AcceptedRequest f b k"
    | (ack) k where "m = AcceptedRequest (int i) r k" "j = l" "i \<noteq> l" "follows s l i" "0 \<le> k"
  using assms by (cases m) (auto simp: follows_def)

lemma own_ignored:
  assumes "carries s l r l l m" "\<not> heartbeat m" "\<forall>f b k. m \<noteq> AcceptedRequest f b k"
    and "handle rng op m = Inr (op', ms)" and "leads op"
  shows "op' = op" "ms = []"
  using assms by (cases m; auto simp: AcceptSyncHandler_def AcceptHandler_def DecideHandler_def split: if_splits)+

lemma stable_deliver:
  assumes st: "stable_term l r s" and "deliver_step s t"
  shows "stable_term l r t"
  using assms(2)
proof cases
  case (ds_deliver i j m q rng op' ms)
  have cm: "carries s l r i j m" using stableD(3) [OF st ds_deliver(2,3), of m] ds_deliver(4) by simp
  have it: "server_inv (srv s j)" "op_peers (srv s j) = ln_n s" "op_me (srv s j) = int j"
    using stableD(2) [OF st ds_deliver(3)] by (auto simp: server_in_term_def)
  have inv: "server_inv op'"
    using op_step_inv [OF step_handle [OF ds_deliver(5) _ ds_deliver(6)] it(1)]
      carries_rpc_ok [OF st ds_deliver(2) cm] it(2) by simp
  note ld = stable_leader [OF st]
  have pop: "stable_term l r (pop s i j)" if "heartbeat m \<or> \<not> (i = l \<and> follows s l j)"
    by (rule stable_pop [OF st ds_deliver(4) that])
  from cm show ?thesis
  proof (cases rule: carries_cases)
    case hb
    from heartbeat_result [OF hb ds_deliver(6)] hb ds_deliver inv it(3) show ?thesis
      by (auto intro!: stable_quiet pop)
  next
    case lead
    with ds_deliver st show ?thesis by (auto intro!: stable_follower_handle)
  next
    case own
    with cm ds_deliver(6) ld(2) have "op' = srv s l" "ms = []" using own_ignored by blast+
    moreover have "stable_term l r (pop s l l)" using own pop by (simp add: follows_def)
    ultimately show ?thesis using own ds_deliver inv by (auto intro: stable_quiet)
  next
    case (ack k)
    then have "holds s l i k" using stableD(6) [OF st ds_deliver(2)] ds_deliver(4) by simp
    then have "holds (pop s i l) l i k" by (simp add: holds_def follows_def)
    then have "stable_term l r (transmit (pop s i l) l op' ms)"
      using ack ds_deliver inv pop by (intro stable_ack [where f = i and k = k]) auto
    with ack ds_deliver show ?thesis by simp
  qed
qed

lemma stable_step:
  assumes st: "stable_term l r s" and "term_step s t"
  shows "stable_term l r t"
  using assms(2)
proof cases
  case ts_deliver
  then show ?thesis by (rule stable_deliver [OF st])
next
  case (ts_propose i c op' ms res)
  then show ?thesis using stable_propose [OF st] by blast
next
  case (ts_tick i op' ms)
  have it: "server_inv (srv s i)" "op_me (srv s i) = int i"
    using stableD(2) [OF st ts_tick(2)] by (auto simp: server_in_term_def)
  have core: "same_core (srv s i) op'" by (rule calm_tick [OF it(1) ts_tick(3,4)])
  have "list_all (\<lambda>(_, m). heartbeat m \<and> sender m = int i) ms"
    using startTimer_issued [OF it(1) ts_tick(3)] ts_tick(5) core it(2)
    by (auto simp: issued_def list_all_iff same_core_def)
  with stable_quiet [OF st ts_tick(2) core op_step_inv [OF step_timer [OF ts_tick(3)] it(1)]] ts_tick(1)
  show ?thesis by simp
qed

interpretation steady: inductive_invariant "stable_term l r" term_step "stable_term l r" for l r
  by unfold_locales (auto intro: stable_step)

subsection \<open>What one step changes\<close>

definition term_effect :: "'c OmniPaxos \<Rightarrow> 'c OmniPaxos \<Rightarrow> bool" where
  "term_effect op op' \<longleftrightarrow> op_promises op' = op_promises op \<and> decidedIdx op \<le> decidedIdx op'
     \<and> (phase (op_state op) = ACCEPT \<longrightarrow> phase (op_state op') = ACCEPT \<and> prefix (oplog op) (oplog op'))
     \<and> (leads op \<longrightarrow> oplog op' = oplog op \<or> decidedIdx op' = decidedIdx op \<and> (\<exists>c. oplog op' = oplog op @ [c]))
     \<and> (leads op \<and> decidedIdx op < decidedIdx op' \<longrightarrow> hasMajorityAccepted op' (decidedIdx op'))"

lemma same_core_effect: "same_core op op' \<Longrightarrow> term_effect op op'"
  by (simp add: same_core_def term_effect_def)

lemma hasMajorityAccepted_persist [simp]: "hasMajorityAccepted (persist op) = hasMajorityAccepted op"
  by (simp add: hasMajorityAccepted_def fun_eq_iff)

lemma handle_effect:
  assumes "carries s l r i j m" and "handle rng op m = Inr (op', ms)"
  shows "term_effect op op'"
proof (cases m)
  case (AcceptedRequest f b k)
  with assms(2) have "AcceptedHandler op f b k = Inr (op', ms)" by simp
  then show ?thesis
    by (cases rule: AcceptedHandler_Inr) (auto simp: term_effect_def hasMajorityAccepted_def)
next
  case (DecideRequest l' b d)
  with assms(2) have "DecideHandler op l' b d = Inr (op', ms)" by simp
  then show ?thesis by (cases rule: DecideHandler_Inr) (auto simp: term_effect_def)
next
  case (HBResponse p k rep)
  with assms(2) show ?thesis by (auto simp: term_effect_def heartBeatReturn_def split: if_splits)
qed (use assms in \<open>auto simp: term_effect_def AcceptSyncHandler_def AcceptHandler_def Let_def split: if_splits\<close>)

lemma Proposal_effect:
  assumes "Proposal op c = Inr ((op', ms), res)"
  shows "term_effect op op'"
  using assms by (auto simp: term_effect_def Proposal_def stopped_def Let_def split: if_splits)

lemma term_step_effect:
  assumes st: "stable_term l r s" and "term_step s t"
  obtains j op' where "j < ln_n s" "ln_servers t = (ln_servers s)[j := op']" "term_effect (srv s j) op'"
  using assms(2)
proof cases
  case ts_deliver
  then show ?thesis
  proof cases
    case (ds_deliver i j m q rng op' ms)
    have "carries s l r i j m" using stableD(3) [OF st ds_deliver(2,3), of m] ds_deliver(4) by simp
    from handle_effect [OF this ds_deliver(6)] ds_deliver show ?thesis by (intro that) auto
  qed
next
  case (ts_propose i c op' ms res)
  then show ?thesis using Proposal_effect [OF ts_propose(3)] by (intro that) auto
next
  case (ts_tick i op' ms)
  then show ?thesis using stableD(2) [OF st ts_tick(2)]
    by (intro that [of i op']) (auto simp: server_in_term_def intro: same_core_effect calm_tick)
qed

lemma term_step_frame:
  assumes "stable_term l r s" and "term_step s t"
  shows "ln_n t = ln_n s" and "follows t l = follows s l"
    and "prefix (oplog (srv s l)) (oplog (srv t l))"
    and "a < ln_n s \<Longrightarrow> decidedIdx (srv s a) \<le> decidedIdx (srv t a)"
    and "a < ln_n s \<Longrightarrow> holds s l a k \<Longrightarrow> holds t l a k"
proof -
  from assms obtain j op' where j: "j < ln_n s" "ln_servers t = (ln_servers s)[j := op']" "term_effect (srv s j) op'"
    by (rule term_step_effect)
  note ld = stable_leader [OF assms(1)]
  show n: "ln_n t = ln_n s" using j by simp
  show fl: "follows t l = follows s l"
    using j ld(1) by (auto simp: follows_def fun_eq_iff nth_list_update term_effect_def)
  show "prefix (oplog (srv s l)) (oplog (srv t l))"
    using j ld(1,2) by (auto simp: nth_list_update term_effect_def)
  show "decidedIdx (srv s a) \<le> decidedIdx (srv t a)" if "a < ln_n s"
    using j that by (auto simp: nth_list_update term_effect_def)
  show "holds t l a k" if "a < ln_n s" "holds s l a k"
    using j that ld(2) unfolding holds_def fl
    by (auto simp: nth_list_update term_effect_def dest: prefix_length_le)
qed

lemma term_steps:
  assumes "term_step\<^sup>*\<^sup>* s t" and "stable_term l r s"
  shows "stable_term l r t" and "ln_n t = ln_n s" and "follows t l = follows s l"
    and "prefix (oplog (srv s l)) (oplog (srv t l))"
    and "a < ln_n s \<Longrightarrow> decidedIdx (srv s a) \<le> decidedIdx (srv t a)"
proof -
  have "stable_term l r t \<and> ln_n t = ln_n s \<and> follows t l = follows s l \<and> prefix (oplog (srv s l)) (oplog (srv t l))
      \<and> (\<forall>a < ln_n s. decidedIdx (srv s a) \<le> decidedIdx (srv t a))"
    using assms
  proof (induction rule: rtranclp_induct)
    case (step t u)
    note f = term_step_frame [OF _ step(2), of l r]
    from step f show ?case by (auto intro: stable_step prefix_order.trans order_trans)
  qed simp
  then show "stable_term l r t" and "ln_n t = ln_n s" and "follows t l = follows s l"
    and "prefix (oplog (srv s l)) (oplog (srv t l))"
    and "a < ln_n s \<Longrightarrow> decidedIdx (srv s a) \<le> decidedIdx (srv t a)" by auto
qed

subsection \<open>One replicated log\<close>

text \<open>
  The contract of the servers during a term: a log that commands are appended to, and for every
  server the number of commands it has applied, which grows up to the length of the log.
\<close>

record 'c rlog =
  rl_log :: "'c list"
  rl_applied :: "nat list"

inductive rlog_step :: "'c rlog \<Rightarrow> 'c rlog \<Rightarrow> bool" where
  rl_append: "rlog_step a (a\<lparr>rl_log := rl_log a @ [c]\<rparr>)"
| rl_apply: "i < length (rl_applied a) \<Longrightarrow> rl_applied a ! i < d \<Longrightarrow> d \<le> length (rl_log a)
    \<Longrightarrow> rlog_step a (a\<lparr>rl_applied := (rl_applied a)[i := d]\<rparr>)"

definition rlog_of :: "nat \<Rightarrow> 'c linked \<Rightarrow> 'c rlog" where
  "rlog_of l s = \<lparr>rl_log = oplog (srv s l), rl_applied = map (\<lambda>op. length (op_applyCh op)) (ln_servers s)\<rparr>"

lemma applied_length:
  assumes "stable_term l r s" and "j < ln_n s"
  shows "length (op_applyCh (srv s j)) = nat (decidedIdx (srv s j))" "0 \<le> decidedIdx (srv s j)"
    "length (op_applyCh (srv s j)) \<le> length (oplog (srv s l))"
proof -
  have it: "server_inv (srv s j)" "decidedIdx (srv s j) \<le> int (length (oplog (srv s l)))"
    "applied s j = take (nat (decidedIdx (srv s j))) (oplog (srv s l))"
    using stableD(2) [OF assms] by (simp_all add: server_in_term_def)
  show "0 \<le> decidedIdx (srv s j)" using it(1) by (simp add: server_inv_def server_ok_def)
  have "length (op_applyCh (srv s j)) = length (applied s j)" by (simp add: applied_def)
  with it(2,3) show "length (op_applyCh (srv s j)) = nat (decidedIdx (srv s j))"
    "length (op_applyCh (srv s j)) \<le> length (oplog (srv s l))" by auto
qed

lemma applied_take:
  assumes "stable_term l r s" and "j < ln_n s"
  shows "applied s j = take (length (applied s j)) (oplog (srv s l))"
  using stableD(2) [OF assms] applied_length [OF assms] by (simp add: server_in_term_def applied_def)

lemma term_step_rlog:
  assumes st: "stable_term l r s" and step: "term_step s t"
  shows "rlog_of l t = rlog_of l s \<or> rlog_step (rlog_of l s) (rlog_of l t)"
proof -
  from assms obtain j op' where j: "j < ln_n s" "ln_servers t = (ln_servers s)[j := op']" "term_effect (srv s j) op'"
    by (rule term_step_effect)
  note ld = stable_leader [OF st] and st' = stable_step [OF st step]
  have len: "length (op_applyCh (srv s j)) = nat (decidedIdx (srv s j))" "length (op_applyCh op') = nat (decidedIdx op')"
    "length (op_applyCh op') \<le> length (oplog (srv t l))"
    using applied_length [OF st j(1)] applied_length [OF st', of j] j by simp_all
  have mono: "length (op_applyCh (srv s j)) \<le> length (op_applyCh op')"
    using j(3) len by (auto simp: term_effect_def)
  have ap: "rl_applied (rlog_of l t) = (rl_applied (rlog_of l s))[j := length (op_applyCh op')]"
    using j by (simp add: rlog_of_def map_update)
  have same: "rl_applied (rlog_of l t) = rl_applied (rlog_of l s)" if "length (op_applyCh op') = length (op_applyCh (srv s j))"
    using that j(1) unfolding ap by (simp add: rlog_of_def list_update_same_conv)
  consider (log) "oplog (srv t l) = oplog (srv s l)"
    | (app) c where "oplog (srv t l) = oplog (srv s l) @ [c]" "j = l" "decidedIdx op' = decidedIdx (srv s l)"
    using j ld(1,2) by (cases "j = l") (auto simp: term_effect_def)
  then show ?thesis
  proof cases
    case log
    then have eq: "rlog_of l t = (rlog_of l s)\<lparr>rl_applied := (rl_applied (rlog_of l s))[j := length (op_applyCh op')]\<rparr>"
      using ap by (simp add: rlog_of_def)
    show ?thesis
    proof (cases "length (op_applyCh op') = length (op_applyCh (srv s j))")
      case True
      with log same show ?thesis by (simp add: rlog_of_def)
    next
      case False
      then have "rlog_step (rlog_of l s) ((rlog_of l s)\<lparr>rl_applied := (rl_applied (rlog_of l s))[j := length (op_applyCh op')]\<rparr>)"
        using mono len(3) log j(1) by (intro rl_apply) (simp_all add: rlog_of_def)
      with eq show ?thesis by simp
    qed
  next
    case (app c)
    with same len have "rlog_of l t = (rlog_of l s)\<lparr>rl_log := rl_log (rlog_of l s) @ [c]\<rparr>"
      by (simp add: rlog_of_def)
    then show ?thesis by (metis rl_append)
  qed
qed

text \<open>What has to be evaluated of a state that an execution over links has reached.\<close>

definition term_check :: "nat \<Rightarrow> Ballot \<Rightarrow> 'c linked \<Rightarrow> bool" where
  "term_check l r s \<longleftrightarrow> leader_ok s l r
     \<and> list_all (\<lambda>j. (leads (srv s j) \<longleftrightarrow> j = l) \<and> decidedIdx (srv s j) \<le> int (length (oplog (srv s l)))
          \<and> applied s j = take (nat (decidedIdx (srv s j))) (oplog (srv s l))
          \<and> list_all (\<lambda>i. list_all (carries s l r i j) (ln_link s i j)) [0..<ln_n s]
          \<and> (follows s l j \<longrightarrow> follower_ok s l r j)
          \<and> list_all (holds s l j) (op_accepted (srv s l) ! j # acks (ln_link s j l))) [0..<ln_n s]"

lemma stable_term_check:
  assumes "link_run (linked_initial n) as = Some s" and "term_check l r s"
  shows "stable_term l r s"
  using assms(2) link_run_server_inv [OF assms(1)]
  by (auto simp: stable_term_def term_check_def server_in_term_def list_all_iff)

lemma term_start_simps:
  "ln_n term_start = 3" "oplog (srv term_start 2) = []" "decidedIdx (srv term_start 2) = 0"
  "follows term_start 2 0" "follows term_start 2 1" "\<not> follows term_start 2 2"
  "list_all (\<lambda>j. phase (op_state (srv term_start j)) = PREPARE) [0, 1]" "op_accepted (srv term_start 2) = [0, 0, 0]"
  by code_simp+

lemma term_start_stable: "stable_term 2 (Ballot 1 2) term_start"
  by (rule stable_term_check [OF term_start_run]) code_simp

subsection \<open>What a term guarantees\<close>

lemma holds_mono: "holds s l j k \<Longrightarrow> d \<le> k \<Longrightarrow> holds s l j d"
  by (auto simp: holds_def)

lemma majority_holds:
  assumes st: "stable_term l r s" and maj: "hasMajorityAccepted (srv s l) d"
  shows "is_quorum (ln_n s) (int ` {j. j < ln_n s \<and> holds s l j d})"
proof -
  note ld = stable_leader [OF st]
  have "{j. j < ln_n s \<and> d \<le> op_accepted (srv s l) ! j} \<subseteq> {j. j < ln_n s \<and> holds s l j d}"
    using stableD(5) [OF st] holds_mono by blast
  then have "card {j. j < ln_n s \<and> d \<le> op_accepted (srv s l) ! j} \<le> card {j. j < ln_n s \<and> holds s l j d}"
    by (intro card_mono) simp_all
  moreover have "majority (ln_n s) \<le> card {j. j < ln_n s \<and> d \<le> op_accepted (srv s l) ! j}"
    using maj ld(6,8) by (simp add: hasMajorityAccepted_def length_filter_conv_card)
  ultimately show ?thesis by (auto simp: is_quorum_def card_image)
qed

lemma decision_held:
  assumes "term_step\<^sup>*\<^sup>* s0 s" and st: "stable_term l r s0" and "decidedIdx (srv s0 l) < decidedIdx (srv s l)"
  shows "is_quorum (ln_n s) (int ` {j. j < ln_n s \<and> holds s l j (decidedIdx (srv s l))})"
  using assms(1,3)
proof (induction rule: rtranclp_induct)
  case (step s t)
  have st': "stable_term l r s" by (rule term_steps(1) [OF step(1) st])
  note ld = stable_leader [OF st'] and fr = term_step_frame [OF st' step(2)]
  show ?case
  proof (cases "decidedIdx (srv s l) < decidedIdx (srv t l)")
    case True
    from st' step(2) obtain j op' where "j < ln_n s" "ln_servers t = (ln_servers s)[j := op']" "term_effect (srv s j) op'"
      by (rule term_step_effect)
    with True ld(1,2) have "hasMajorityAccepted (srv t l) (decidedIdx (srv t l))"
      by (cases "j = l") (auto simp: term_effect_def)
    then show ?thesis by (rule majority_holds [OF stable_step [OF st' step(2)]])
  next
    case False
    with fr(4) [OF ld(1)] have eq: "decidedIdx (srv t l) = decidedIdx (srv s l)" by simp
    let ?A = "\<lambda>u. int ` {j. j < ln_n s \<and> holds u l j (decidedIdx (srv s l))}"
    have "is_quorum (ln_n s) (?A s)" using step.IH step.prems eq by simp
    moreover have "?A s \<subseteq> ?A t" using fr(5) by blast
    ultimately have "is_quorum (ln_n s) (?A t)" by (rule maj.quorum_grows) auto
    then show ?thesis by (simp add: eq fr(1))
  qed
qed simp

lemma holds_prefix:
  assumes "stable_term l r s" and "j < ln_n s" and "holds s l j d"
  shows "prefix (take (nat d) (oplog (srv s l))) (oplog (srv s j))"
proof (cases "0 < d \<and> j \<noteq> l")
  case True
  with assms(3) have d: "follows s l j" "phase (op_state (srv s j)) = ACCEPT" "d \<le> int (length (oplog (srv s j)))"
    by (auto simp: holds_def)
  from follower_log_prefix [OF assms(1,2) d(1,2)] obtain zs where "oplog (srv s l) = oplog (srv s j) @ zs"
    by (auto simp: prefix_def)
  with d(3) show ?thesis by (simp add: take_is_prefix)
qed (auto simp: take_is_prefix)

lemma decision_stored:
  assumes "term_step\<^sup>*\<^sup>* s0 s" and "stable_term l r s0" and "decidedIdx (srv s0 l) < decidedIdx (srv s l)"
  shows "is_quorum (ln_n s) (int ` {j. j < ln_n s \<and> prefix (take (nat (decidedIdx (srv s l))) (oplog (srv s l))) (oplog (srv s j))})"
proof (rule maj.quorum_grows [OF decision_held [OF assms]])
  show "int ` {j. j < ln_n s \<and> holds s l j (decidedIdx (srv s l))}
      \<subseteq> int ` {j. j < ln_n s \<and> prefix (take (nat (decidedIdx (srv s l))) (oplog (srv s l))) (oplog (srv s j))}"
    using holds_prefix [OF term_steps(1) [OF assms(1,2)]] by blast
qed auto

text \<open>
  C15: during a stable term the servers implement one replicated log: every step appends one
  command to the leader's log, or lets one server apply further commands of it, or is invisible;
  and what a server has sent on its apply channel is exactly that many commands from the front of
  the log.
\<close>

theorem stable_term_refines_log:
  assumes "stable_term l r s0" and "term_step\<^sup>*\<^sup>* s0 s" and "term_step s t"
  shows "(rlog_of l t = rlog_of l s \<or> rlog_step (rlog_of l s) (rlog_of l t))
    \<and> (\<forall>i < ln_n t. applied t i = take (rl_applied (rlog_of l t) ! i) (rl_log (rlog_of l t)))"
proof -
  have st: "stable_term l r s" by (rule term_steps(1) [OF assms(2,1)])
  have "applied t i = take (rl_applied (rlog_of l t) ! i) (rl_log (rlog_of l t))" if "i < ln_n t" for i
    using applied_take [OF stable_step [OF st assms(3)] that] that by (simp add: rlog_of_def applied_def)
  with term_step_rlog [OF st assms(3)] show ?thesis by blast
qed

lemma term_agreement:
  assumes "stable_term l r s0" and "term_step\<^sup>*\<^sup>* s0 s" and "i < ln_n s" and "j < ln_n s"
  shows "prefix (applied s i) (applied s j) \<or> prefix (applied s j) (applied s i)"
    and "prefix (applied s0 i) (applied s i)"
    and "prefix (oplog (srv s0 l)) (oplog (srv s l))"
    and "decidedIdx (srv s0 l) < decidedIdx (srv s l) \<Longrightarrow>
      is_quorum (ln_n s) (int ` {k. k < ln_n s \<and> prefix (take (nat (decidedIdx (srv s l))) (oplog (srv s l))) (oplog (srv s k))})"
proof -
  note ts = term_steps [OF assms(2,1)]
  have a: "prefix (applied s k) (oplog (srv s l))" if "k < ln_n s" for k
    using applied_take [OF ts(1) that] by (metis take_is_prefix)
  show "prefix (applied s i) (applied s j) \<or> prefix (applied s j) (applied s i)"
    using a [OF assms(3)] a [OF assms(4)] by (metis prefix_same_cases)
  have i: "i < ln_n s0" using assms(3) ts(2) by simp
  have "length (applied s0 i) \<le> length (applied s i)"
    using applied_length(1) [OF assms(1) i] applied_length(1) [OF ts(1) assms(3)] ts(5) [OF i]
    by (simp add: applied_def nat_mono)
  moreover have "prefix (applied s0 i) (oplog (srv s l))"
    using applied_take [OF assms(1) i] ts(4) by (metis take_is_prefix prefix_order.trans)
  ultimately show "prefix (applied s0 i) (applied s i)" using a [OF assms(3)] by (metis prefix_length_prefix)
  show "prefix (oplog (srv s0 l)) (oplog (srv s l))" by (rule ts(4))
  show "is_quorum (ln_n s) (int ` {k. k < ln_n s \<and> prefix (take (nat (decidedIdx (srv s l))) (oplog (srv s l))) (oplog (srv s k))})"
    if "decidedIdx (srv s0 l) < decidedIdx (srv s l)"
    by (rule decision_stored [OF assms(2,1) that])
qed

text \<open>
  C2: agreement during a stable term.  Whatever the order in which the links are served, of two
  servers one has applied a prefix of what the other has applied, no server takes back what it
  applied, the leader's log only grows, and an index the leader decided during the term is backed
  by a majority of servers that store the same commands up to it.
\<close>

theorem stable_term_agreement:
  assumes "stable_term l r s0" and "term_step\<^sup>*\<^sup>* s0 s" and "i < ln_n s" and "j < ln_n s"
  shows "(prefix (applied s i) (applied s j) \<or> prefix (applied s j) (applied s i))
    \<and> prefix (applied s0 i) (applied s i) \<and> prefix (oplog (srv s0 l)) (oplog (srv s l))
    \<and> (decidedIdx (srv s0 l) < decidedIdx (srv s l) \<longrightarrow>
      is_quorum (ln_n s) (int ` {k. k < ln_n s \<and> prefix (take (nat (decidedIdx (srv s l))) (oplog (srv s l))) (oplog (srv s k))}))"
  using term_agreement [OF assms] by blast

text \<open>
  Two proposals before any request of the term is delivered; server 0 is served first, so the
  leader decides both commands while server 0 knows of the first decision and server 1 of none.
\<close>

definition serve_0 :: "nat link_action list" where
  "serve_0 = [LPropose 2 7, LPropose 2 8] @ replicate 4 (LDeliver 2 0) @ replicate 4 (LDeliver 0 2) @ [LDeliver 2 0]"

definition term_later :: "nat linked" where
  "term_later = the (link_run term_start serve_0)"

lemma term_later_run: "link_run term_start serve_0 = Some term_later"
proof -
  have "link_run term_start serve_0 \<noteq> None" by code_simp
  then show ?thesis by (simp add: term_later_def)
qed

lemma term_later_steps: "term_step\<^sup>*\<^sup>* term_start term_later"
  by (rule link_run_term [OF term_later_run]) (simp add: serve_0_def)

lemma term_later_simps:
  "ln_n term_later = 3" "applied term_later 2 = [7, 8]" "applied term_later 0 = [7]" "applied term_later 1 = []"
  "decidedIdx (srv term_later 2) = 2" "oplog (srv term_later 2) = [7, 8]" "oplog (srv term_later 1) = []"
  by code_simp+

theorem stable_term_agreement_witness:
  "prefix (applied term_later 0) (applied term_later 2) \<and> applied term_later 2 = [7, 8]
   \<and> is_quorum 3 (int ` {k. k < 3 \<and> prefix [7, 8] (oplog (srv term_later k))})"
proof -
  have "decidedIdx (srv term_start 2) < decidedIdx (srv term_later 2)"
    by (simp add: term_later_simps term_start_simps)
  with stable_term_agreement [OF term_start_stable term_later_steps, of 0 2] show ?thesis
    by (simp add: term_later_simps)
qed

theorem stable_term_refines_log_witness:
  "\<exists>t. link_exec term_later (LDeliver 2 0) = Some t \<and> rlog_step (rlog_of 2 term_later) (rlog_of 2 t)
     \<and> applied t 0 = [7, 8]"
proof -
  have "link_exec term_later (LDeliver 2 0) \<noteq> None" by code_simp
  then obtain t where t: "link_exec term_later (LDeliver 2 0) = Some t" by auto
  have ap: "rl_applied (rlog_of 2 (the (link_exec term_later (LDeliver 2 0)))) = [2, 0, 2]"
    "rl_log (rlog_of 2 (the (link_exec term_later (LDeliver 2 0)))) = [7, 8]"
    "rl_applied (rlog_of 2 term_later) = [1, 0, 2]" "ln_n (the (link_exec term_later (LDeliver 2 0))) = 3" by code_simp+
  have "term_step term_later t" by (rule link_exec_term [OF t]) simp
  from stable_term_refines_log [OF term_start_stable term_later_steps this] t ap show ?thesis by auto
qed

end
