(* ===== verification/Progress.thy ===== *)
theory Progress
  imports Stable
begin

text \<open>
  Progress during a stable term: what the leader counts follows what its followers store
  (\<open>tracked\<close>), what it decides reaches them (\<open>informed\<close>), the links can be emptied by finitely many
  deliveries without a panic, and then the leader and every server that promised the round have
  applied the whole log.
\<close>

subsection \<open>Progress\<close>

text \<open>
  The steps of a term by what they do to the acknowledgements on the way to the leader and to
  the future of its followers.
\<close>

inductive progress_case :: "nat \<Rightarrow> 'c linked \<Rightarrow> 'c linked \<Rightarrow> bool" for l s t where
  pc_quiet: "(\<And>a. a < ln_n s \<Longrightarrow> same_core (srv s a) (srv t a))
    \<Longrightarrow> (\<And>a. a < ln_n s \<Longrightarrow> follows s l a \<Longrightarrow> acks (ln_link t a l) = acks (ln_link s a l) \<and> future t l a = future s l a)
    \<Longrightarrow> progress_case l s t"
| pc_follower: "j < ln_n s \<Longrightarrow> follows s l j \<Longrightarrow> ln_servers t = (ln_servers s)[j := op']
    \<Longrightarrow> (\<And>a. a < ln_n s \<Longrightarrow> follows s l a \<Longrightarrow> future t l a = future s l a)
    \<Longrightarrow> (\<And>a. a < ln_n s \<Longrightarrow> follows s l a \<Longrightarrow> a \<noteq> j \<Longrightarrow> acks (ln_link t a l) = acks (ln_link s a l))
    \<Longrightarrow> (phase (op_state op') = phase (op_state (srv s j)) \<and> oplog op' = oplog (srv s j)
          \<and> acks (ln_link t j l) = acks (ln_link s j l))
        \<or> acks (ln_link t j l) = acks (ln_link s j l) @ [int (length (oplog op'))]
    \<Longrightarrow> progress_case l s t"
| pc_ack: "f < ln_n s \<Longrightarrow> follows s l f \<Longrightarrow> ln_servers t = (ln_servers s)[l := op']
    \<Longrightarrow> acks (ln_link s f l) = k # acks (ln_link t f l)
    \<Longrightarrow> (\<And>a. a < ln_n s \<Longrightarrow> follows s l a \<Longrightarrow> a \<noteq> f \<Longrightarrow> acks (ln_link t a l) = acks (ln_link s a l))
    \<Longrightarrow> oplog op' = oplog (srv s l) \<Longrightarrow> op_accepted op' = (op_accepted (srv s l))[f := k]
    \<Longrightarrow> op_peers op' = op_peers (srv s l)
    \<Longrightarrow> (decidedIdx op' = decidedIdx (srv s l) \<and> \<not> (decidedIdx (srv s l) < k \<and> hasMajorityAccepted op' k)
          \<and> (\<forall>a < ln_n s. follows s l a \<longrightarrow> future t l a = future s l a))
        \<or> (decidedIdx op' = k \<and> k \<le> int (length (oplog (srv s l)))
          \<and> (\<forall>a < ln_n s. follows s l a \<longrightarrow> future t l a = arrive (future s l a) [DecideRequest (int l) (op_currentRnd (srv s l)) k]))
    \<Longrightarrow> progress_case l s t"
| pc_propose: "ln_servers t = (ln_servers s)[l := op']
    \<Longrightarrow> (\<And>a. a < ln_n s \<Longrightarrow> follows s l a \<Longrightarrow> acks (ln_link t a l) = acks (ln_link s a l)
          \<and> future t l a = arrive (future s l a) [AcceptRequest (int l) (op_currentRnd (srv s l)) k c])
    \<Longrightarrow> oplog op' = oplog (srv s l) @ [c] \<Longrightarrow> decidedIdx op' = decidedIdx (srv s l)
    \<Longrightarrow> op_peers op' = op_peers (srv s l)
    \<Longrightarrow> op_accepted op' = (op_accepted (srv s l))[l := int (length (oplog (srv s l))) + 1]
    \<Longrightarrow> progress_case l s t"

lemma quiet_transmit:
  assumes "stable_term l r s" and "j < ln_n s" and "same_core (srv s j) op'"
    and hb: "list_all (\<lambda>(_, m). heartbeat m) ms" and ln: "ln_servers u = ln_servers s"
    and u: "\<And>a. a < ln_n s \<Longrightarrow> follows s l a \<Longrightarrow> acks (ln_link u a l) = acks (ln_link s a l) \<and> future u l a = future s l a"
  shows "progress_case l s (transmit u j op' ms)"
proof (rule pc_quiet)
  have calls: "list_all heartbeat (calls_to b ms)" for b
    using hb by (auto simp: calls_to_mem list_all_iff)
  show same: "same_core (srv s a) (srv (transmit u j op' ms) a)" if "a < ln_n s" for a
    using assms(2,3) that ln by (auto simp: nth_list_update)
  show "acks (ln_link (transmit u j op' ms) a l) = acks (ln_link s a l)
      \<and> future (transmit u j op' ms) l a = future s l a" if "a < ln_n s" "follows s l a" for a
    using u [OF that] same [OF that(1)] ln
    by (auto simp: future_def same_core_def arrive_append arrive_heartbeats [OF calls] acks_heartbeats [OF calls])
qed

lemma pop_quiet:
  assumes "ln_link s i j = m # q" and "heartbeat m \<or> j = l \<and> i = l" and "follows s l a"
  shows "acks (ln_link (pop s i j) a l) = acks (ln_link s a l)" "future (pop s i j) l a = future s l a"
  using assms by (cases m; auto simp: future_def follows_def)+

lemma progress_propose:
  assumes st: "stable_term l r s" and j: "j < ln_n s" and h: "Proposal (srv s j) c = Inr ((op', ms), res)"
  shows "progress_case l s (transmit s j op' ms)"
proof (cases "j = l")
  case False
  with stableD(2) [OF st j] have "role (op_state (srv s j)) = FOLLOWER" by (auto simp: server_in_term_def role_cases)
  with h have "op' = srv s j" "ms = []" by (auto simp: Proposal_def stopped_def Let_def)
  then show ?thesis using quiet_transmit [OF st j same_core_refl] by simp
next
  case True
  let ?op = "srv s l" and ?i = "int (length (oplog (srv s l))) + 1"
  note ld = stable_leader [OF st]
  have op': "op' = persist (?op\<lparr>op_os := (op_os ?op)\<lparr>os_Log := oplog ?op @ [c]\<rparr>, op_accepted := (op_accepted ?op)[l := ?i]\<rparr>)"
    and ms: "ms = map (\<lambda>p. (p_f p, AcceptRequest (int l) r ?i c))
      (filter (\<lambda>p. p_f p \<noteq> int l) (map snd (op_promises ?op)))"
    using h ld True by (auto simp: Proposal_def stopped_def Let_def go_set_def add.commute)
  have calls: "calls_to b ms = (if follows s l b then [AcceptRequest (int l) r ?i c] else [])" for b
    unfolding ms by (rule accept_calls [OF st])
  show ?thesis unfolding True
  proof (rule pc_propose [where op' = op'])
    show "acks (ln_link (transmit s l op' ms) a l) = acks (ln_link s a l) \<and> future (transmit s l op' ms) l a
        = arrive (future s l a) [AcceptRequest (int l) (op_currentRnd ?op) ?i c]" if "follows s l a" for a
      using that ld by (simp add: future_def calls arrive_append follows_def)
  qed (simp_all add: op')
qed

lemma progress_follower:
  assumes st: "stable_term l r s" and j: "j < ln_n s" "follows s l j" and ln: "ln_link s l j = m # q"
    and h: "handle rng (srv s j) m = Inr (op', ms)" and hb: "\<not> heartbeat m"
  shows "progress_case l s (transmit (pop s l j) j op' ms)"
proof (rule pc_follower [where op' = op'])
  let ?op = "srv s j"
  have jl: "j \<noteq> l" using j(2) by (simp add: follows_def)
  have it: "op_me ?op = int j" "role (op_state ?op) = FOLLOWER" "promised ?op = r"
    using stableD(2) [OF st j(1)] stableD(4) [OF st j] jl by (auto simp: server_in_term_def role_cases follower_ok_def)
  have cm: "carries s l r l j m" using stableD(3) [OF st stable_leader(1) [OF st] j(1), of m] ln by simp
  have hd: "(phase (op_state op') = phase (op_state ?op) \<and> oplog op' = oplog ?op \<and> acks (calls_to l ms) = [])
      \<or> acks (calls_to l ms) = [int (length (oplog op'))]"
    and rep: "arrive (phase (op_state op'), oplog op', decidedIdx op') q = arrive (phase (op_state ?op), oplog ?op, decidedIdx ?op) (m # q)"
    using h cm hb it jl
    by (cases m; auto simp: AcceptSyncHandler_def AcceptHandler_def DecideHandler_def Let_def addToApplyChan_Inr
        op_prefix_nonneg split: if_splits)+
  show "future (transmit (pop s l j) j op' ms) l a = future s l a" if "a < ln_n s" "follows s l a" for a
    using that ln j jl rep by (auto simp: future_def follows_def)
  show "acks (ln_link (transmit (pop s l j) j op' ms) a l) = acks (ln_link s a l)" if "follows s l a" "a \<noteq> j" for a
    using that by (simp add: follows_def)
  show "phase (op_state op') = phase (op_state ?op) \<and> oplog op' = oplog ?op
        \<and> acks (ln_link (transmit (pop s l j) j op' ms) j l) = acks (ln_link s j l)
      \<or> acks (ln_link (transmit (pop s l j) j op' ms) j l) = acks (ln_link s j l) @ [int (length (oplog op'))]"
    using hd jl by simp
qed (use j in simp_all)

lemma progress_ack:
  assumes st: "stable_term l r s" and f: "f < ln_n s" "follows s l f" and ln: "ln_link s f l = AcceptedRequest (int f) r k # q"
    and h: "AcceptedHandler (srv s l) (int f) r k = Inr (op', ms)"
  shows "progress_case l s (transmit (pop s f l) l op' ms)"
proof (rule pc_ack [where op' = op' and f = f and k = k])
  let ?op = "srv s l" and ?t = "transmit (pop s f l) l op' ms"
  note ld = stable_leader [OF st]
  have fl: "f \<noteq> l" using f(2) by (simp add: follows_def)
  have fut: "future ?t l a = arrive (future s l a) (calls_to a ms)" if "follows s l a" for a
    using that fl by (simp add: future_def arrive_append follows_def)
  show "acks (ln_link s f l) = k # acks (ln_link ?t f l)" using ln fl by simp
  show "acks (ln_link ?t a l) = acks (ln_link s a l)" if "follows s l a" "a \<noteq> f" for a
    using that by (simp add: follows_def)
  from h have "oplog op' = oplog ?op \<and> op_accepted op' = (op_accepted ?op)[f := k] \<and> op_peers op' = op_peers ?op
    \<and> ((decidedIdx op' = decidedIdx ?op \<and> \<not> (decidedIdx ?op < k \<and> hasMajorityAccepted op' k)
          \<and> (\<forall>a < ln_n s. follows s l a \<longrightarrow> future ?t l a = future s l a))
        \<or> (decidedIdx op' = k \<and> k \<le> int (length (oplog ?op))
          \<and> (\<forall>a < ln_n s. follows s l a \<longrightarrow> future ?t l a = arrive (future s l a) [DecideRequest (int l) (op_currentRnd ?op) k])))"
  proof (cases "decidedIdx ?op < k \<and> hasMajorityAccepted (?op\<lparr>op_accepted := (op_accepted ?op)[f := k]\<rparr>) k")
    case False
    with h ld f(1) have "op' = ?op\<lparr>op_accepted := (op_accepted ?op)[f := k]\<rparr>" "ms = []"
      by (auto simp: AcceptedHandler_def Let_def go_set_def)
    with False fut show ?thesis by simp
  next
    case True
    with h ld f(1) have d: "op' = persist (?op\<lparr>op_accepted := (op_accepted ?op)[f := k], op_applyCh := op_applyCh ?op @
          map (\<lambda>i. \<lparr>CommandValid = True, Command = oplog ?op ! nat i, CommandIndex = i\<rparr>)
            [decidedIdx ?op..k - 1], op_os := (op_os ?op)\<lparr>os_DecidedIdx := k\<rparr>\<rparr>)" "k \<le> int (length (oplog ?op))"
      "ms = map (\<lambda>p. (p_f p, DecideRequest (int l) (op_currentRnd ?op) k)) (map snd (op_promises ?op))"
      by (auto simp: AcceptedHandler_def Let_def go_set_def addToApplyChan_Inr)
    have "calls_to b ms = (if int b \<in> fst ` set (op_promises ?op) then [DecideRequest (int l) (op_currentRnd ?op) k] else [])" for b
      unfolding d(3) by (rule decide_calls [OF st])
    with fut d(1,2) show ?thesis by (simp add: follows_def)
  qed
  then show "oplog op' = oplog ?op" "op_accepted op' = (op_accepted ?op)[f := k]" "op_peers op' = op_peers ?op"
    "(decidedIdx op' = decidedIdx ?op \<and> \<not> (decidedIdx ?op < k \<and> hasMajorityAccepted op' k)
          \<and> (\<forall>a < ln_n s. follows s l a \<longrightarrow> future ?t l a = future s l a))
        \<or> (decidedIdx op' = k \<and> k \<le> int (length (oplog ?op))
          \<and> (\<forall>a < ln_n s. follows s l a \<longrightarrow> future ?t l a = arrive (future s l a) [DecideRequest (int l) (op_currentRnd ?op) k]))"
    by blast+
qed (use f in simp_all)

lemma term_step_progress:
  assumes st: "stable_term l r s" and "term_step s t"
  shows "progress_case l s t"
  using assms(2)
proof cases
  case ts_deliver
  then show ?thesis
  proof cases
    case (ds_deliver i j m q rng op' ms)
    have cm: "carries s l r i j m" using stableD(3) [OF st ds_deliver(2,3), of m] ds_deliver(4) by simp
    note quiet = quiet_transmit [OF st ds_deliver(3), where u = "pop s i j"]
    from cm show ?thesis
    proof (cases rule: carries_cases)
      case hb
      from heartbeat_result [OF hb ds_deliver(6)] pop_quiet [OF ds_deliver(4) disjI1 [OF hb(1)]] show ?thesis
        unfolding ds_deliver(1) by (intro quiet) (auto simp: list_all_iff)
    next
      case lead
      with ds_deliver st show ?thesis by (auto intro!: progress_follower)
    next
      case own
      have "op' = srv s l" "ms = []"
        using own_ignored [OF _ own(1,4) ds_deliver(6)] cm own(2,3) stable_leader(2) [OF st] by auto
      with own pop_quiet [OF ds_deliver(4), of l] show ?thesis
        unfolding ds_deliver(1) by (intro quiet) auto
    next
      case (ack k)
      with ds_deliver show ?thesis by (auto intro!: progress_ack [OF st])
    qed
  qed
next
  case (ts_propose i c op' ms res)
  then show ?thesis using progress_propose [OF st] by blast
next
  case (ts_tick i op' ms)
  have "server_inv (srv s i)" using stableD(2) [OF st ts_tick(2)] by (simp add: server_in_term_def)
  from calm_tick [OF this ts_tick(3,4)] show ?thesis
    unfolding ts_tick(1) by (rule quiet_transmit [OF st ts_tick(2) _ ts_tick(5)]) simp_all
qed

text \<open>
  \<open>tracked\<close>: the newest acknowledgement of a follower, received or on its way, is its log length,
  the leader counts its own log, and a leader that counts a majority for its whole log has decided all of it.  \<open>informed\<close>: what
  the leader decided after index \<open>d\<close> reaches every follower.
\<close>

definition tracked :: "nat \<Rightarrow> 'c linked \<Rightarrow> bool" where
  "tracked l s \<longleftrightarrow>
     (\<forall>j < ln_n s. follows s l j \<and> phase (op_state (srv s j)) = ACCEPT
        \<longrightarrow> last (op_accepted (srv s l) ! j # acks (ln_link s j l)) = int (length (oplog (srv s j))))
     \<and> op_accepted (srv s l) ! l = int (length (oplog (srv s l)))
     \<and> (hasMajorityAccepted (srv s l) (int (length (oplog (srv s l))))
        \<longrightarrow> int (length (oplog (srv s l))) \<le> decidedIdx (srv s l))"

definition informed :: "int \<Rightarrow> nat \<Rightarrow> 'c linked \<Rightarrow> bool" where
  "informed d l s \<longleftrightarrow> d < decidedIdx (srv s l)
     \<longrightarrow> (\<forall>j < ln_n s. follows s l j \<longrightarrow> decidedIdx (srv s l) \<le> snd (snd (future s l j)))"

lemma arrive_decide_index:
  "fst st = ACCEPT \<Longrightarrow> k \<le> int (length (fst (snd st))) \<Longrightarrow> k \<le> snd (snd (arrive st [DecideRequest l b k]))"
  by (cases st) auto

lemma informed_step:
  assumes st: "stable_term l r s" and step: "term_step s t" and inf: "informed d l s"
  shows "informed d l t"
proof -
  note ld = stable_leader [OF st] and fr = term_step_frame [OF st step]
  have fut: "fst (future s l a) = ACCEPT" "fst (snd (future s l a)) = oplog (srv s l)" if "a < ln_n s" "follows s l a" for a
    using stableD(4) [OF st that] by (simp_all add: follower_ok_def)
  from term_step_progress [OF st step] show ?thesis
  proof cases
    case pc_quiet
    with inf fr(1,2) ld(1) show ?thesis by (auto simp: informed_def same_core_def)
  next
    case (pc_follower j op')
    then have "j \<noteq> l" by (simp add: follows_def)
    with pc_follower inf fr(1,2) show ?thesis by (auto simp: informed_def)
  next
    case (pc_ack f op' k)
    with inf fr(1,2) ld(1) fut show ?thesis
      by (auto simp: informed_def intro!: arrive_decide_index)
  next
    case (pc_propose op' k c)
    with inf fr(1,2) ld(1) fut show ?thesis by (auto simp: informed_def arrive_accept)
  qed
qed

lemma holds_bound:
  assumes "stable_term l r s" and "a < ln_n s" and "holds s l a k"
  shows "k \<le> int (length (oplog (srv s l)))"
  using assms(3) follower_log_prefix [OF assms(1,2)] prefix_length_le unfolding holds_def by fastforce

lemma filter_update_le:
  "\<not> P k \<Longrightarrow> length (filter P (xs[f := k])) \<le> length (filter P xs)"
proof (induction xs arbitrary: f)
  case (Cons x xs)
  from Cons.IH [OF Cons.prems] show ?case using Cons.prems
    by (cases f) (auto intro: le_SucI)
qed simp

lemma tracked_majority_step:
  assumes st: "stable_term l r s" and step: "term_step s t" and n: "3 \<le> ln_n s"
    and tr: "hasMajorityAccepted (srv s l) (int (length (oplog (srv s l)))) \<Longrightarrow> int (length (oplog (srv s l))) \<le> decidedIdx (srv s l)"
    and maj: "hasMajorityAccepted (srv t l) (int (length (oplog (srv t l))))"
  shows "int (length (oplog (srv t l))) \<le> decidedIdx (srv t l)"
proof -
  note ld = stable_leader [OF st] and fr = term_step_frame [OF st step]
  from term_step_progress [OF st step] show ?thesis
  proof cases
    case pc_quiet
    then have "same_core (srv s l) (srv t l)" using ld(1) by simp
    then show ?thesis using tr maj by (simp add: same_core_def hasMajorityAccepted_def)
  next
    case (pc_follower j op')
    then have "j \<noteq> l" by (simp add: follows_def)
    with pc_follower tr maj show ?thesis by simp
  next
    case (pc_ack f op' k)
    have t: "srv t l = op'" using pc_ack ld(1) by simp
    let ?v = "int (length (oplog (srv s l)))"
    have "k \<in> set (acks (ln_link s f l))" using pc_ack(4) by simp
    from holds_bound [OF st pc_ack(1) stableD(6) [OF st pc_ack(1) this]] have k: "k \<le> ?v" .
    show ?thesis
    proof (cases "k = ?v")
      case True
      with pc_ack(9) maj t pc_ack(6) show ?thesis by auto
    next
      case False
      have "length (filter (\<lambda>a. ?v \<le> a) (op_accepted op')) \<le> length (filter (\<lambda>a. ?v \<le> a) (op_accepted (srv s l)))"
        unfolding pc_ack(7) by (rule filter_update_le) (use k False in simp)
      with maj t pc_ack(6,8) have "?v \<le> decidedIdx (srv s l)"
        by (intro tr) (simp add: hasMajorityAccepted_def)
      with fr(4) [OF ld(1)] t pc_ack(6) show ?thesis by simp
    qed
  next
    case (pc_propose op' k c)
    have t: "srv t l = op'" using pc_propose ld(1) by simp
    let ?v = "int (length (oplog (srv s l)))"
    have "{i. i < length (op_accepted op') \<and> ?v + 1 \<le> op_accepted op' ! i} \<subseteq> {l}"
    proof (rule subsetI, rule ccontr)
      fix i assume i: "i \<in> {i. i < length (op_accepted op') \<and> ?v + 1 \<le> op_accepted op' ! i}" "i \<notin> {l}"
      with pc_propose(6) ld(8) have "i < ln_n s" "op_accepted op' ! i = op_accepted (srv s l) ! i" by auto
      with i holds_bound [OF st _ stableD(5) [OF st, of i]] show False by simp
    qed
    then have "length (filter (\<lambda>a. ?v + 1 \<le> a) (op_accepted op')) \<le> 1"
      using card_mono [of "{l}"] by (fastforce simp: length_filter_conv_card)
    then have False using maj t pc_propose(3,5) ld(6) n by (simp add: hasMajorityAccepted_def majority_def add.commute)
    then show ?thesis ..
  qed
qed

lemma tracked_step:
  assumes st: "stable_term l r s" and step: "term_step s t" and n: "3 \<le> ln_n s" and tr: "tracked l s"
  shows "tracked l t"
proof -
  note ld = stable_leader [OF st] and fr = term_step_frame [OF st step]
  have old: "last (op_accepted (srv s l) ! a # acks (ln_link s a l)) = int (length (oplog (srv s a)))"
    if "a < ln_n s" "follows s l a" "phase (op_state (srv s a)) = ACCEPT" for a
    using tr that by (simp add: tracked_def)
  have "last (op_accepted (srv t l) ! a # acks (ln_link t a l)) = int (length (oplog (srv t a)))"
    if a: "a < ln_n s" "follows s l a" "phase (op_state (srv t a)) = ACCEPT" for a
    using term_step_progress [OF st step]
  proof cases
    case pc_quiet
    from this(1) [OF a(1)] this(1) [OF ld(1)] this(2) [OF a(1,2)] old [of a] a show ?thesis
      by (simp add: same_core_def)
  next
    case (pc_follower j op')
    then have "j \<noteq> l" by (simp add: follows_def)
    with pc_follower old [of a] a show ?thesis by (cases "a = j") auto
  next
    case (pc_ack f op' k)
    with old [of a] a ld(1,8) show ?thesis by (cases "a = f") (auto simp: follows_def)
  next
    case (pc_propose op' k c)
    with old [of a] a ld(1,8) show ?thesis by (auto simp: follows_def)
  qed
  moreover have "op_accepted (srv t l) ! l = int (length (oplog (srv t l)))"
    using term_step_progress [OF st step]
  proof cases
    case pc_quiet
    from this(1) [OF ld(1)] tr show ?thesis by (simp add: tracked_def same_core_def)
  qed (use tr ld(1,8) in \<open>auto simp: tracked_def follows_def\<close>)
  ultimately show ?thesis
    using tracked_majority_step [OF st step n] tr fr(1,2) by (simp add: tracked_def)
qed

subsection \<open>Emptying the links\<close>

definition quiescent :: "'c linked \<Rightarrow> bool" where
  "quiescent s \<longleftrightarrow> (\<forall>i < ln_n s. \<forall>j < ln_n s. ln_link s i j = [])"

definition participants :: "nat \<Rightarrow> 'c linked \<Rightarrow> nat set" where
  "participants l s = {j. j < ln_n s \<and> (j = l \<or> follows s l j)}"

text \<open>No handler panics on a request of the term.\<close>

lemma term_no_panic:
  assumes st: "stable_term l r s" and i: "i < ln_n s" and j: "j < ln_n s"
    and m: "ln_link s i j = m # q" and rng: "range_order rng"
  obtains op' ms where "handle rng (srv s j) m = Inr (op', ms)"
proof (cases "handle rng (srv s j) m")
  case (Inl e)
  have cm: "carries s l r i j m" using stableD(3) [OF st i j, of m] m by simp
  have it: "server_ok (srv s j)" "op_peers (srv s j) = ln_n s"
    using stableD(2) [OF st j] by (simp_all add: server_in_term_def server_inv_def)
  from handle_total [OF it(1) rng _ Inl] carries_rpc_ok [OF st i cm] it(2)
  obtain f k where k: "m = AcceptedRequest f (promised (srv s j)) k" "int (length (oplog (srv s j))) < k" by auto
  with cm have "j = l" by simp
  moreover have "holds s l i k" using stableD(6) [OF st i, of k] m k(1) \<open>j = l\<close> by simp
  ultimately show ?thesis using holds_bound [OF st i] k(2) by fastforce
next
  case (Inr p)
  then show ?thesis by (cases p) (auto intro: that)
qed

fun weight :: "nat \<Rightarrow> 'c rpc \<Rightarrow> nat" where
  "weight p (AcceptSyncRequest l b sfx k) = p + 2"
| "weight p (AcceptRequest l b k c) = p + 2"
| "weight p (AcceptedRequest f b k) = p + 1"
| "weight p (HBRequest f k) = 2"
| "weight p _ = 1"

definition load :: "nat \<Rightarrow> 'c linked \<Rightarrow> nat" where
  "load p s = (\<Sum>i < ln_n s. \<Sum>j < ln_n s. sum_list (map (weight p) (ln_link s i j)))"

lemma weight_calls:
  "(\<Sum>b < n. sum_list (map w (calls_to b ms))) \<le> sum_list (map (\<lambda>(_, m). w m) ms)" for w :: "'c rpc \<Rightarrow> nat"
proof (induction ms)
  case (Cons dm ms)
  obtain d m where dm: "dm = (d, m)" by (cases dm)
  have "(\<Sum>b < n. sum_list (map w (calls_to b (dm # ms)))) =
      (\<Sum>b < n. (if d = int b then w m else 0) + sum_list (map w (calls_to b ms)))"
    by (rule sum.cong) (simp_all add: dm)
  also have "\<dots> = (\<Sum>b < n. if d = int b then w m else 0) + (\<Sum>b < n. sum_list (map w (calls_to b ms)))"
    by (rule sum.distrib)
  also have "(\<Sum>b < n. if d = int b then w m else 0) \<le> w m"
  proof (cases "0 \<le> d")
    case True
    then have "(\<Sum>b < n. if d = int b then w m else 0) = (\<Sum>b < n. if b = nat d then w m else 0)"
      by (intro sum.cong) auto
    then show ?thesis by simp
  qed (simp add: sum_nonneg)
  finally show ?case using Cons by (simp add: dm)
qed simp

lemma handle_weight:
  assumes "carries s l r i j m" and "handle rng op m = Inr (op', ms)" and "length (op_promises op) \<le> p \<or> j \<noteq> l"
  shows "sum_list (map (\<lambda>(_, m). weight p m) ms) < weight p m"
proof (cases m)
  case (AcceptedRequest f b k)
  with assms have p: "length (op_promises op) \<le> p" "AcceptedHandler op f b k = Inr (op', ms)" by auto
  from p(2) show ?thesis
    by (cases rule: AcceptedHandler_Inr) (use p(1) AcceptedRequest in \<open>simp_all add: o_def sum_list_triv\<close>)
next
  case (DecideRequest l' b d)
  with assms(2) have "DecideHandler op l' b d = Inr (op', ms)" by simp
  then show ?thesis by (cases rule: DecideHandler_Inr) (simp_all add: DecideRequest)
qed (use assms in \<open>auto simp: AcceptSyncHandler_def AcceptHandler_def Let_def split: if_splits\<close>)

lemma load_transmit:
  assumes "j < ln_n s"
  shows "load p (transmit s j op ms) = load p s + (\<Sum>b < ln_n s. sum_list (map (weight p) (calls_to b ms)))"
proof -
  let ?c = "\<Sum>b < ln_n s. sum_list (map (weight p) (calls_to b ms))"
  have "load p (transmit s j op ms) = (\<Sum>a < ln_n s. (\<Sum>b < ln_n s. sum_list (map (weight p) (ln_link s a b)))
      + (if a = j then ?c else 0))"
    unfolding load_def by (rule sum.cong) (simp_all add: sum.distrib)
  also have "\<dots> = load p s + ?c" using assms by (simp add: sum.distrib load_def)
  finally show ?thesis .
qed

lemma load_pop:
  assumes "i < ln_n s" and "j < ln_n s" and "ln_link s i j = m # q"
  shows "load p s = load p (pop s i j) + weight p m"
proof -
  have "load p s = (\<Sum>a < ln_n s. \<Sum>b < ln_n s. sum_list (map (weight p) (ln_link (pop s i j) a b))
      + (if b = j then if a = i then weight p m else 0 else 0))"
    unfolding load_def by (intro sum.cong) (auto simp: assms(3))
  also have "\<dots> = (\<Sum>a < ln_n s. (\<Sum>b < ln_n s. sum_list (map (weight p) (ln_link (pop s i j) a b)))
      + (if a = i then weight p m else 0))"
    using assms(2) by (simp only: sum.distrib) (simp add: sum.delta)
  also have "\<dots> = load p (pop s i j) + weight p m"
    using assms(1) by (simp only: sum.distrib load_def) (simp add: sum.delta)
  finally show ?thesis .
qed

lemma deliver_load:
  assumes st: "stable_term l r s" and "deliver_step s t" and p: "length (op_promises (srv s l)) = p"
  shows "load p t < load p s" and "length (op_promises (srv t l)) = p" and "oplog (srv t l) = oplog (srv s l)"
proof -
  note ld = stable_leader [OF st]
  have "load p t < load p s \<and> length (op_promises (srv t l)) = p \<and> oplog (srv t l) = oplog (srv s l)"
    using assms(2)
  proof cases
    case (ds_deliver i j m q rng op' ms)
    have cm: "carries s l r i j m" using stableD(3) [OF st ds_deliver(2,3), of m] ds_deliver(4) by simp
    have "load p t = load p (pop s i j) + (\<Sum>b < ln_n s. sum_list (map (weight p) (calls_to b ms)))"
      using ds_deliver(3) load_transmit [of j "pop s i j"] by (simp add: ds_deliver(1))
    also have "\<dots> \<le> load p (pop s i j) + sum_list (map (\<lambda>(_, m). weight p m) ms)" using weight_calls by simp
    also have "\<dots> < load p s"
      using handle_weight [OF cm ds_deliver(6), of p] p load_pop [OF ds_deliver(2-4), of p] by auto
    finally have 1: "load p t < load p s" .
    have "op_promises op' = op_promises (srv s j)" using handle_effect [OF cm ds_deliver(6)] by (simp add: term_effect_def)
    moreover have "oplog op' = oplog (srv s l)" if "j = l"
      using cm
    proof (cases rule: carries_cases)
      case hb
      from heartbeat_result(1) [OF hb ds_deliver(6)] that show ?thesis by (simp add: same_core_def)
    next
      case lead
      with that show ?thesis by (simp add: follows_def)
    next
      case own
      with own_ignored [OF _ own(1,4) ds_deliver(6)] cm ld(2) show ?thesis by simp
    next
      case (ack k)
      with ds_deliver(6) have "AcceptedHandler (srv s l) (int i) r k = Inr (op', ms)" by simp
      then show ?thesis by (cases rule: AcceptedHandler_Inr) simp_all
    qed
    ultimately show ?thesis using 1 p ld(1) by (cases "j = l") (simp_all add: ds_deliver(1))
  qed
  then show "load p t < load p s" and "length (op_promises (srv t l)) = p" and "oplog (srv t l) = oplog (srv s l)"
    by blast+
qed

lemma deliver_steps_term: "deliver_step\<^sup>*\<^sup>* s t \<Longrightarrow> term_step\<^sup>*\<^sup>* s t"
  by (rule mono_rtranclp [rule_format]) (rule ts_deliver)

lemma deliver_steps_log:
  assumes "deliver_step\<^sup>*\<^sup>* s t" and st: "stable_term l r s"
  shows "oplog (srv t l) = oplog (srv s l)"
  using assms(1)
proof (induction rule: rtranclp_induct)
  case (step t u)
  have "stable_term l r t" by (rule term_steps(1) [OF deliver_steps_term [OF step(1)] st])
  from deliver_load(3) [OF this step(2) refl] step show ?case by simp
qed simp

lemma deliver_bounded:
  assumes "(deliver_step ^^ k) s t" and "stable_term l r s"
  shows "k \<le> load (length (op_promises (srv s l))) s"
  using assms
proof (induction k arbitrary: s)
  case (Suc k)
  from relpowp_Suc_D2 [OF Suc.prems(1)] obtain u where u: "deliver_step s u" "(deliver_step ^^ k) u t" by blast
  from Suc.IH [OF u(2) stable_deliver [OF Suc.prems(2) u(1)]] deliver_load [OF Suc.prems(2) u(1) refl]
  show ?case by simp
qed simp

lemma deliver_drains:
  assumes "stable_term l r s"
  shows "\<exists>t. deliver_step\<^sup>*\<^sup>* s t \<and> quiescent t"
  using assms
proof (induction "load (length (op_promises (srv s l))) s" arbitrary: s rule: less_induct)
  case less
  show ?case
  proof (cases "quiescent s")
    case False
    then obtain i j where i: "i < ln_n s" "j < ln_n s" "ln_link s i j \<noteq> []" by (auto simp: quiescent_def)
    then obtain m q where m: "ln_link s i j = m # q" by (cases "ln_link s i j") auto
    from term_no_panic [OF less.prems i(1,2) m range_order_id]
    obtain op' ms where h: "handle id (srv s j) m = Inr (op', ms)" by blast
    let ?u = "transmit (pop s i j) j op' ms"
    have d: "deliver_step s ?u" by (rule ds_deliver [OF i(1,2) m range_order_id h])
    from less.hyps [OF _ stable_deliver [OF less.prems d]] deliver_load [OF less.prems d refl]
    obtain t where "deliver_step\<^sup>*\<^sup>* ?u t" "quiescent t" by auto
    with d show ?thesis by (meson converse_rtranclp_into_rtranclp)
  qed auto
qed

subsection \<open>A proposal is applied\<close>

lemma quiescent_applied:
  assumes st: "stable_term l r s" and tr: "tracked l s" and inf: "informed d l s" and q: "quiescent s"
    and maj: "majority (ln_n s) \<le> card (participants l s)" and d: "d < int (length (oplog (srv s l)))"
    and j: "j \<in> participants l s"
  shows "applied s j = oplog (srv s l)"
proof -
  note ld = stable_leader [OF st]
  let ?v = "int (length (oplog (srv s l)))"
  have fut: "future s l a = (phase (op_state (srv s a)), oplog (srv s a), decidedIdx (srv s a))" if "a < ln_n s" for a
    using q that ld(1) by (simp add: future_def quiescent_def)
  have fol: "phase (op_state (srv s a)) = ACCEPT" "oplog (srv s a) = oplog (srv s l)" if "a < ln_n s" "follows s l a" for a
    using stableD(4) [OF st that] fut [OF that(1)] by (simp_all add: follower_ok_def)
  have "op_accepted (srv s l) ! a = ?v" if "a \<in> participants l s" for a
    using that tr fol [of a] q ld(1) by (auto simp: participants_def tracked_def quiescent_def)
  then have "card (participants l s) \<le> card {a. a < ln_n s \<and> ?v \<le> op_accepted (srv s l) ! a}"
    by (intro card_mono) (auto simp: participants_def)
  then have "hasMajorityAccepted (srv s l) ?v"
    using maj ld(6,8) by (simp add: hasMajorityAccepted_def length_filter_conv_card)
  with tr have dec: "?v \<le> decidedIdx (srv s l)" by (simp add: tracked_def)
  have it: "decidedIdx (srv s j) \<le> ?v" "applied s j = take (nat (decidedIdx (srv s j))) (oplog (srv s l))"
    using stableD(2) [OF st, of j] j by (auto simp: server_in_term_def participants_def)
  have "?v \<le> decidedIdx (srv s j)"
    using inf dec d j fut [of j] by (fastforce simp: informed_def participants_def)
  with it show ?thesis by simp
qed

lemma term_steps_tracked:
  assumes "term_step\<^sup>*\<^sup>* s t" and st: "stable_term l r s" and n: "3 \<le> ln_n s" and "tracked l s" and "informed d l s"
  shows "tracked l t \<and> informed d l t"
  using assms(1)
proof (induction rule: rtranclp_induct)
  case (step t u)
  have "stable_term l r t" "3 \<le> ln_n t" using term_steps(1,2) [OF step(1) st] n by simp_all
  with step tracked_step informed_step show ?case by blast
qed (use assms in simp)

lemma proposal_spreads:
  assumes "stable_term l r s" and "tracked l s" and "3 \<le> ln_n s" and "majority (ln_n s) \<le> card (participants l s)"
    and "Proposal (srv s l) c = Inr ((op', ms), res)" and "u = transmit s l op' ms"
  shows "deliver_step\<^sup>*\<^sup>* u t \<Longrightarrow> \<exists>t'. deliver_step\<^sup>*\<^sup>* t t' \<and> quiescent t'"
    and "deliver_step\<^sup>*\<^sup>* u t \<Longrightarrow> i < ln_n t \<Longrightarrow> a < ln_n t \<Longrightarrow> ln_link t i a = m # q \<Longrightarrow> range_order rng
      \<Longrightarrow> \<exists>res. handle rng (srv t a) m = Inr res"
    and "(deliver_step ^^ k) u t \<Longrightarrow> k \<le> load (length (op_promises (srv u l))) u"
    and "deliver_step\<^sup>*\<^sup>* u t \<Longrightarrow> quiescent t \<Longrightarrow> j \<in> participants l s \<Longrightarrow> applied t j = oplog (srv s l) @ [c]"
proof -
  note ld = stable_leader [OF assms(1)]
  have su: "term_step s u" unfolding assms(6) by (rule ts_propose [OF ld(1) assms(5)])
  have st: "stable_term l r u" by (rule stable_step [OF assms(1) su])
  have log: "oplog (srv u l) = oplog (srv s l) @ [c]"
    using assms(5,6) ld by (auto simp: Proposal_def stopped_def Let_def)
  have later: "stable_term l r t" if "deliver_step\<^sup>*\<^sup>* u t" for t by (rule term_steps(1) [OF deliver_steps_term [OF that] st])
  show "\<exists>t'. deliver_step\<^sup>*\<^sup>* t t' \<and> quiescent t'" if "deliver_step\<^sup>*\<^sup>* u t" by (rule deliver_drains [OF later [OF that]])
  show "\<exists>res. handle rng (srv t a) m = Inr res"
    if "deliver_step\<^sup>*\<^sup>* u t" "i < ln_n t" "a < ln_n t" "ln_link t i a = m # q" "range_order rng"
    using term_no_panic [OF later [OF that(1)] that(2-5)] by blast
  show "k \<le> load (length (op_promises (srv u l))) u" if "(deliver_step ^^ k) u t" by (rule deliver_bounded [OF that st])
  assume t: "deliver_step\<^sup>*\<^sup>* u t" "quiescent t" and j: "j \<in> participants l s"
  have all: "term_step\<^sup>*\<^sup>* s t" using su deliver_steps_term [OF t(1)] by (rule converse_rtranclp_into_rtranclp)
  note ts = term_steps [OF all assms(1)]
  let ?d = "decidedIdx (srv s l)"
  have "tracked l t \<and> informed ?d l t"
    by (rule term_steps_tracked [OF all assms(1,3,2)]) (simp add: informed_def)
  moreover have "participants l t = participants l s" using ts(2,3) by (simp add: participants_def)
  moreover have lt: "oplog (srv t l) = oplog (srv s l) @ [c]" using deliver_steps_log [OF t(1) st] log by simp
  moreover have "?d \<le> int (length (oplog (srv s l)))"
    using stableD(2) [OF assms(1) ld(1)] by (simp add: server_in_term_def)
  ultimately show "applied t j = oplog (srv s l) @ [c]"
    using quiescent_applied [OF ts(1) _ _ t(2), of ?d j] assms(4) j ts(2) by simp
qed

text \<open>
  C4: progress during a stable term of at least three servers in which a majority promised the round,
  when the leader's counts are up to date with the acknowledgements on the links (\<open>tracked\<close>).  After a
  proposal at the leader no handler panics, whichever
  deliveries went before, and the links can always be emptied; every order of deliveries does so
  within a number of steps that is known beforehand; and once they are empty the leader and every server that promised the round
  have applied the leader's whole log, the proposed command last.
\<close>

theorem proposal_reaches_participants:
  assumes "stable_term l r s" and "tracked l s" and "3 \<le> ln_n s" and "majority (ln_n s) \<le> card (participants l s)"
    and "Proposal (srv s l) c = Inr ((op', ms), res)" and "u = transmit s l op' ms"
  shows "(\<forall>t. deliver_step\<^sup>*\<^sup>* u t \<longrightarrow> (\<exists>t'. deliver_step\<^sup>*\<^sup>* t t' \<and> quiescent t'))
    \<and> (\<forall>t i j m q rng. deliver_step\<^sup>*\<^sup>* u t \<and> i < ln_n t \<and> j < ln_n t \<and> ln_link t i j = m # q \<and> range_order rng
          \<longrightarrow> (\<exists>res. handle rng (srv t j) m = Inr res))
    \<and> (\<forall>k t. (deliver_step ^^ k) u t \<longrightarrow> k \<le> load (length (op_promises (srv u l))) u)
    \<and> (\<forall>t. deliver_step\<^sup>*\<^sup>* u t \<and> quiescent t
          \<longrightarrow> (\<forall>j \<in> participants l s. applied t j = oplog (srv s l) @ [c]))"
  using proposal_spreads [OF assms] by blast

theorem proposal_reaches_participants_witness:
  "\<exists>op' ms res. Proposal (srv term_start 2) 7 = Inr ((op', ms), res)
     \<and> (\<exists>t. deliver_step\<^sup>*\<^sup>* (transmit term_start 2 op' ms) t \<and> quiescent t
            \<and> applied t 0 = [7] \<and> applied t 1 = [7] \<and> applied t 2 = [7])"
proof -
  have "\<not> isl (Proposal (srv term_start 2) 7)" by code_simp
  then obtain op' ms res where p: "Proposal (srv term_start 2) 7 = Inr ((op', ms), res)"
    by (metis isl_def prod.exhaust sum.exhaust)
  have three: "j < ln_n term_start \<longleftrightarrow> j = 0 \<or> j = 1 \<or> j = 2" for j by (auto simp: term_start_simps)
  have parts: "participants 2 term_start = {0, 1, 2}"
    using term_start_simps(2-) by (auto simp: participants_def three)
  have "tracked 2 term_start"
    using term_start_simps(2-) by (auto simp: tracked_def three)
  moreover have "majority (ln_n term_start) \<le> card (participants 2 term_start)"
    by (simp add: parts term_start_simps majority_def)
  ultimately have r: "(\<forall>t. deliver_step\<^sup>*\<^sup>* (transmit term_start 2 op' ms) t \<longrightarrow> (\<exists>t'. deliver_step\<^sup>*\<^sup>* t t' \<and> quiescent t'))
    \<and> (\<forall>t. deliver_step\<^sup>*\<^sup>* (transmit term_start 2 op' ms) t \<and> quiescent t
          \<longrightarrow> (\<forall>j \<in> {0, 1, 2}. applied t j = [7]))"
    using proposal_reaches_participants [OF term_start_stable _ _ _ p refl] by (simp add: parts term_start_simps)
  then obtain t where t: "deliver_step\<^sup>*\<^sup>* (transmit term_start 2 op' ms) t" "quiescent t" by blast
  with r have "applied t 0 = [7] \<and> applied t 1 = [7] \<and> applied t 2 = [7]" by blast
  with p t show ?thesis by blast
qed

end
