(* ===== verification/ReplicatedKV.thy ===== *)
theory ReplicatedKV
  imports Progress KVServer
begin

text \<open>
  The key-value service on top of its replicated log: every \<open>KVServer\<close> reads the apply channel of
  its own OmniPaxos server, and \<open>Get\<close> and \<open>PutAppend\<close> propose at that server and then poll the
  responses.  During a stable term the two layers together give a linearisable store: replicas
  that have read equally far are equal, a read returns the effect of all commands that were in
  the log when it was proposed, and an acknowledged write is in the log at the position it was
  given, at a majority of servers.
\<close>

subsection \<open>The apply channels of a term\<close>

definition log_msgs :: "'c list \<Rightarrow> 'c ApplyMsg list" where
  "log_msgs lg = map (\<lambda>i. \<lparr>CommandValid = True, Command = lg ! i, CommandIndex = int i\<rparr>) [0..<length lg]"

lemma log_msgs_simps [simp]:
  "length (log_msgs lg) = length lg"
  "i < length lg \<Longrightarrow> log_msgs lg ! i = \<lparr>CommandValid = True, Command = lg ! i, CommandIndex = int i\<rparr>"
  by (simp_all add: log_msgs_def)

lemma take_log_msgs: "take n (log_msgs lg) = log_msgs (take n lg)"
  by (rule nth_equalityI) simp_all

lemma log_msgs_prefix: "prefix lg lg' \<Longrightarrow> prefix (log_msgs lg) (log_msgs lg')"
  by (metis take_log_msgs append_eq_conv_conj prefix_def take_is_prefix)

lemma applyCh_log:
  assumes "stable_term l r s" and "j < ln_n s"
  shows "op_applyCh (srv s j) = take (length (op_applyCh (srv s j))) (log_msgs (oplog (srv s l)))"
proof (rule nth_equalityI)
  let ?ch = "op_applyCh (srv s j)"
  have len: "length ?ch = nat (decidedIdx (srv s j))" "length ?ch \<le> length (oplog (srv s l))"
    using applied_length [OF assms] by simp_all
  then show "length ?ch = length (take (length ?ch) (log_msgs (oplog (srv s l))))" by simp
  fix i assume i: "i < length ?ch"
  have ok: "map CommandIndex ?ch = [0..decidedIdx (srv s j) - 1]" "list_all CommandValid ?ch"
    using stableD(2) [OF assms] by (simp_all add: server_in_term_def server_inv_def applied_ok_def)
  have "CommandIndex (?ch ! i) = int i"
    using arg_cong [OF ok(1), of "\<lambda>xs. xs ! i"] i len(1) by (simp add: nth_upto)
  moreover have "CommandValid (?ch ! i)" using ok(2) i by (simp add: list_all_length)
  moreover have "Command (?ch ! i) = oplog (srv s l) ! i"
    using arg_cong [OF applied_take [OF assms], of "\<lambda>xs. xs ! i"] i by (simp add: applied_def)
  ultimately show "?ch ! i = take (length ?ch) (log_msgs (oplog (srv s l))) ! i"
    using i len(2) by (simp add: ApplyMsg.equality)
qed

lemma applyCh_take:
  assumes "stable_term l r s" and "j < ln_n s" and "n \<le> length (op_applyCh (srv s j))"
  shows "take n (op_applyCh (srv s j)) = log_msgs (take n (oplog (srv s l)))"
  by (subst applyCh_log [OF assms(1,2)]) (use assms(3) in \<open>simp add: min_def take_log_msgs\<close>)

subsection \<open>Replicas and clients\<close>

text \<open>The store the specification has after a list of commands.\<close>

definition store_of :: "KVCommand list \<Rightarrow> string \<Rightarrow> string" where
  "store_of lg = store_after (log_msgs lg)"

text \<open>Server \<open>j\<close> has read \<open>n\<close> messages from its apply channel since it started as \<open>kv\<close>.\<close>

definition kv_reads :: "KVServer \<Rightarrow> KVCommand linked \<Rightarrow> nat \<Rightarrow> nat \<Rightarrow> KVServer \<Rightarrow> bool" where
  "kv_reads kv s j n kv' \<longleftrightarrow> n \<le> length (op_applyCh (srv s j))
     \<and> go_foldM readApply kv (take n (op_applyCh (srv s j))) = Inr kv'"

lemma kv_reads_log:
  assumes "stable_term l r s" and "j < ln_n s" and "kv_reads kv s j n kv'"
  shows "go_foldM readApply kv (log_msgs (take n (oplog (srv s l)))) = Inr kv'" "n \<le> length (oplog (srv s l))"
  using assms(3) applyCh_take [OF assms(1,2)] applied_length(3) [OF assms(1,2)] by (auto simp: kv_reads_def)

text \<open>What a handler at the leader can see of the responses after its proposal.\<close>

definition observes :: "nat \<Rightarrow> KVServer \<Rightarrow> KVCommand linked \<Rightarrow> (nat \<Rightarrow> Response list) \<Rightarrow> bool" where
  "observes l kv0 u obs \<longleftrightarrow> (\<forall>k. \<exists>t n kvk. term_step\<^sup>*\<^sup>* u t \<and> kv_reads kv0 t l n kvk \<and> obs k = kv_response kvk)"


lemma leader_proposal:
  assumes "stable_term l r s" and "Proposal (srv s l) c = Inr ((op', ms), (i, bal, lead))"
  shows "i = int (length (oplog (srv s l)))" and "term_step s (transmit s l op' ms)"
    and "oplog op' = oplog (srv s l) @ [c]"
proof -
  note ld = stable_leader [OF assms(1)]
  show "i = int (length (oplog (srv s l)))" and "oplog op' = oplog (srv s l) @ [c]"
    using assms(2) ld by (auto simp: Proposal_def stopped_def Let_def)
  show "term_step s (transmit s l op' ms)" by (rule ts_propose [OF ld(1) assms(2)])
qed

text \<open>After a proposal at the leader, its position in every later log holds the command.\<close>

lemma proposal_position:
  assumes st: "stable_term l r s" and p: "Proposal (srv s l) c = Inr ((op', ms), res)"
    and t: "term_step\<^sup>*\<^sup>* (transmit s l op' ms) t"
  shows "stable_term l r t" and "ln_n t = ln_n s" and "prefix (oplog (srv s l) @ [c]) (oplog (srv t l))"
    and "term_step\<^sup>*\<^sup>* s t"
proof -
  obtain i bal lead where r: "res = (i, bal, lead)" by (cases res)
  note lp = leader_proposal [OF st p [unfolded r]]
  note ts = term_steps [OF t stable_step [OF st lp(2)]]
  show "stable_term l r t" "ln_n t = ln_n s" using ts(1,2) by simp_all
  show "prefix (oplog (srv s l) @ [c]) (oplog (srv t l))" using ts(4) lp(3) stable_leader(1) [OF st] by simp
  show "term_step\<^sup>*\<^sup>* s t" using lp(2) t by (rule converse_rtranclp_into_rtranclp)
qed

lemma observed_response:
  assumes st: "stable_term l r s" and p: "Proposal (srv s l) c = Inr ((op', ms), res)"
    and t: "term_step\<^sup>*\<^sup>* (transmit s l op' ms) t" and init: "kv_init kv0" and rd: "kv_reads kv0 t l n kvk"
    and i: "length (oplog (srv s l)) < length (kv_response kvk)"
  shows "rsp_command (kv_response kvk ! length (oplog (srv s l))) = c"
    and "kc_Command c = GetArgs key ident \<Longrightarrow>
      rsp_value (kv_response kvk ! length (oplog (srv s l))) = store_of (oplog (srv s l)) key"
    and "length (oplog (srv s l)) < length (op_applyCh (srv t l))"
proof -
  let ?i = "length (oplog (srv s l))" and ?lg = "take n (oplog (srv t l))"
  note pp = proposal_position [OF st p t]
  note ld = stable_leader [OF pp(1)]
  note run = kv_reads_log [OF pp(1) ld(1) rd]
  note R = responses_run [OF init run(1)]
  have len: "length (kv_response kvk) = n" using R run(2) by simp
  have e: "?lg ! ?i = c" "take ?i ?lg = oplog (srv s l)"
    using pp(3) i len by (auto simp: prefix_def nth_append min_def)
  have "?i < length (log_msgs ?lg)" using i len run(2) by simp
  with R e show "rsp_command (kv_response kvk ! ?i) = c"
    and "kc_Command c = GetArgs key ident \<Longrightarrow> rsp_value (kv_response kvk ! ?i) = store_of (oplog (srv s l)) key"
    by (auto simp: take_log_msgs store_of_def)
  show "?i < length (op_applyCh (srv t l))" using i len rd by (simp add: kv_reads_def)
qed

text \<open>
  C3: linearised reads.  A \<open>Get\<close> at the leader of a stable term answers that it is not the leader,
  that it timed out, or with the value its key has after all commands that were in the leader's
  log when the read was proposed, hence after every command acknowledged before; it never has to
  ask the client to try again.
\<close>

theorem stable_get_linearised:
  assumes "stable_term l r s" and "kv_rf kv = srv s l" and "kv_init kv0"
    and "Get kv (GetArgs key ident) obs = Inr (kv', ms, reply)"
    and "observes l kv0 (transmit s l (kv_rf kv') ms) obs"
  shows "gr_Err reply \<in> {NOT_LEADER, ''timeout'', []}
    \<and> (gr_Err reply = [] \<longrightarrow> gr_Value reply = store_of (oplog (srv s l)) key)"
proof -
  let ?c = "\<lparr>kc_Id = kv_me kv, kc_Command = GetArgs key ident\<rparr>" and ?i = "length (oplog (srv s l))"
  obtain rf ms' index bal isLeader where p: "Proposal (srv s l) ?c = Inr ((rf, ms'), (index, bal, isLeader))"
    using assms(2,4) by (auto simp: Get_def)
  have idx: "index = int ?i" by (rule leader_proposal(1) [OF assms(1) p])
  show ?thesis
  proof (cases isLeader)
    case False
    with assms(2,4) p have "reply = \<lparr>gr_Err = NOT_LEADER, gr_Value = []\<rparr>" by (auto simp: Get_def)
    then show ?thesis by (simp add: NOT_LEADER_def)
  next
    case True
    with assms(2,4) p idx have
      loop: "pollLoop obs (getMatch (GetArgs key ident)) \<lparr>gr_Err = ''timeout'', gr_Value = []\<rparr> index 0 = Inr reply"
      and out: "kv_rf kv' = rf" "ms = ms'" by (auto simp: Get_def)
    from pollLoop_cases [of index 0 obs "getMatch (GetArgs key ident)" "\<lparr>gr_Err = ''timeout'', gr_Value = []\<rparr>"] idx loop
    consider "reply = \<lparr>gr_Err = ''timeout'', gr_Value = []\<rparr>"
      | k where "index < int (length (obs k))" "reply = getMatch (GetArgs key ident) (obs k ! nat index)" by auto
    then show ?thesis
    proof cases
      case (2 k)
      from assms(5) out obtain t n kvk where t: "term_step\<^sup>*\<^sup>* (transmit s l rf ms') t" "kv_reads kv0 t l n kvk"
        "obs k = kv_response kvk" unfolding observes_def by metis
      from 2 t(3) idx have "?i < length (kv_response kvk)" by simp
      note ob = observed_response [OF assms(1) p t(1) assms(3) t(2) this]
      from 2(2) t(3) idx ob(1) ob(2) [of key ident] show ?thesis by (simp add: getMatch_def)
    qed simp
  qed
qed

text \<open>Once the leader has applied a position, its command is settled.\<close>

lemma write_settled:
  assumes st: "stable_term l r s" and p: "Proposal (srv s l) c = Inr ((op', ms), res)"
    and t: "term_step\<^sup>*\<^sup>* (transmit s l op' ms) t" and i: "length (oplog (srv s l)) < length (op_applyCh (srv t l))"
  shows "prefix (oplog (srv s l) @ [c]) (applied t l)"
    and "is_quorum (ln_n t) (int ` {k. k < ln_n t \<and> prefix (oplog (srv s l) @ [c]) (oplog (srv t k))})"
    and "term_step\<^sup>*\<^sup>* t t' \<Longrightarrow> j < ln_n t' \<Longrightarrow> length (oplog (srv s l)) < length (applied t' j)
      \<Longrightarrow> applied t' j ! length (oplog (srv s l)) = c"
proof -
  let ?lg = "oplog (srv s l)" and ?d = "decidedIdx (srv t l)"
  note pp = proposal_position [OF st p t]
  note ld = stable_leader [OF pp(1)]
  have len: "length (op_applyCh (srv t l)) = nat ?d" by (rule applied_length(1) [OF pp(1) ld(1)])
  have ap: "applied t l = take (nat ?d) (oplog (srv t l))"
    using applied_take [OF pp(1) ld(1)] len by (simp add: applied_def)
  have "length (?lg @ [c]) \<le> length (applied t l)" using i by (simp add: applied_def)
  moreover have "prefix (applied t l) (oplog (srv t l))" by (simp add: ap take_is_prefix)
  ultimately show pre: "prefix (?lg @ [c]) (applied t l)" using pp(3) by (metis prefix_length_prefix)
  have "decidedIdx (srv s l) < ?d"
    using stableD(2) [OF st stable_leader(1) [OF st]] i len
    by (auto simp: server_in_term_def zless_nat_eq_int_zless)
  from decision_stored [OF pp(4) st this]
  have q: "is_quorum (ln_n t) (int ` {k. k < ln_n t \<and> prefix (applied t l) (oplog (srv t k))})" by (simp add: ap)
  show "is_quorum (ln_n t) (int ` {k. k < ln_n t \<and> prefix (?lg @ [c]) (oplog (srv t k))})"
    by (rule maj.quorum_grows [OF q]) (use pre in \<open>auto intro: prefix_order.trans\<close>)
  assume t': "term_step\<^sup>*\<^sup>* t t'" "j < ln_n t'" "length ?lg < length (applied t' j)"
  note ts = term_steps [OF t'(1) pp(1)]
  have "prefix (?lg @ [c]) (oplog (srv t' l))" using pp(3) ts(4) by (rule prefix_order.trans)
  moreover have "applied t' j ! length ?lg = oplog (srv t' l) ! length ?lg"
    using arg_cong [OF applied_take [OF ts(1) t'(2)], of "\<lambda>xs. xs ! length ?lg"] t'(3) by simp
  ultimately show "applied t' j ! length ?lg = c" by (auto simp: prefix_def nth_append)
qed

text \<open>
  C5: acknowledged writes last.  When \<open>PutAppend\<close> at the leader of a stable term reports success,
  the leader has applied the command at the position right after the log it had when the write was
  proposed, a majority of servers stores the log up to and including it, and no server ever
  applies anything else at that position; and it never asks the client to try again.
\<close>

theorem stable_put_durable:
  assumes "stable_term l r s" and "kv_rf kv = srv s l" and "kv_init kv0"
    and "PutAppend kv (PutAppendArgs key val opn ident) obs = Inr (kv', ms, reply)"
    and "observes l kv0 (transmit s l (kv_rf kv') ms) obs"
    and "c = \<lparr>kc_Id = kv_me kv, kc_Command = PutAppendArgs key val opn ident\<rparr>"
  shows "pr_Err reply \<in> {NOT_LEADER, ''timeout'', []}
    \<and> (pr_Err reply = [] \<longrightarrow>
       (\<exists>t. term_step\<^sup>*\<^sup>* (transmit s l (kv_rf kv') ms) t
          \<and> prefix (oplog (srv s l) @ [c]) (applied t l)
          \<and> is_quorum (ln_n t) (int ` {k. k < ln_n t \<and> prefix (oplog (srv s l) @ [c]) (oplog (srv t k))})
          \<and> (\<forall>t' j. term_step\<^sup>*\<^sup>* t t' \<and> j < ln_n t' \<and> length (oplog (srv s l)) < length (applied t' j)
               \<longrightarrow> applied t' j ! length (oplog (srv s l)) = c)))"
proof -
  let ?i = "length (oplog (srv s l))"
  obtain rf ms' index bal isLeader where p: "Proposal (srv s l) c = Inr ((rf, ms'), (index, bal, isLeader))"
    using assms(2,4,6) by (auto simp: PutAppend_def)
  have idx: "index = int ?i" by (rule leader_proposal(1) [OF assms(1) p])
  show ?thesis
  proof (cases isLeader)
    case False
    with assms(2,4,6) p have "reply = \<lparr>pr_Err = NOT_LEADER\<rparr>" by (auto simp: PutAppend_def)
    then show ?thesis by (simp add: NOT_LEADER_def)
  next
    case True
    with assms(2,4,6) p idx have
      loop: "pollLoop obs (putMatch (PutAppendArgs key val opn ident)) \<lparr>pr_Err = ''timeout''\<rparr> index 0 = Inr reply"
      and out: "kv_rf kv' = rf" "ms = ms'" by (auto simp: PutAppend_def)
    from pollLoop_cases [of index 0 obs "putMatch (PutAppendArgs key val opn ident)" "\<lparr>pr_Err = ''timeout''\<rparr>"] idx loop
    consider "reply = \<lparr>pr_Err = ''timeout''\<rparr>"
      | k where "index < int (length (obs k))" "reply = putMatch (PutAppendArgs key val opn ident) (obs k ! nat index)" by auto
    then show ?thesis
    proof cases
      case (2 k)
      from assms(5) out obtain t n kvk where t: "term_step\<^sup>*\<^sup>* (transmit s l rf ms') t" "kv_reads kv0 t l n kvk"
        "obs k = kv_response kvk" unfolding observes_def by metis
      from 2 t(3) idx have "?i < length (kv_response kvk)" by simp
      note ob = observed_response [OF assms(1) p t(1) assms(3) t(2) this]
      have "reply = \<lparr>pr_Err = []\<rparr>" using 2(2) t(3) idx ob(1) assms(6) by (simp add: putMatch_def)
      moreover note write_settled [OF assms(1) p t(1) ob(3)]
      ultimately show ?thesis using t(1) out by auto
    qed simp
  qed
qed


text \<open>
  C32: replicas agree.  During a stable term two servers that started empty and have read equally
  many messages from their apply channels, at whatever times, have the same store and the same
  table of client numbers, and the store is the one the specification has after as many commands
  of the leader's log.
\<close>
theorem stable_replicas_agree:
  assumes "stable_term l r s" and "term_step\<^sup>*\<^sup>* s s'" and "i < ln_n s" and "j < ln_n s"
    and "kv_init kvi" and "kv_init kvj" and "kv_reads kvi s i n a" and "kv_reads kvj s' j n b"
  shows "kv_store a = kv_store b \<and> kv_last a = kv_last b \<and> kv_store a = store_of (take n (oplog (srv s l)))"
proof -
  note ts = term_steps [OF assms(2,1)]
  have j: "j < ln_n s'" using assms(4) ts(2) by simp
  note a = kv_reads_log [OF assms(1,3,7)] and b = kv_reads_log [OF ts(1) j assms(8)]
  have same: "take n (oplog (srv s' l)) = take n (oplog (srv s l))"
    using ts(4) a(2) by (auto simp: prefix_def)
  have "kv_store a = kv_store b \<and> kv_last a = kv_last b"
    using kvs.replicas_agree [OF a(1) b(1) [unfolded same]] kv_init_abs [OF assms(5)] kv_init_abs [OF assms(6)] by simp
  with store_after_run [OF assms(5) a(1)] show ?thesis by (simp add: store_of_def)
qed

subsection \<open>A concrete term of the service\<close>

definition kv_term :: "KVCommand linked" where
  "kv_term = the (link_run (linked_initial 3) elect_links)"

lemma kv_term_run: "link_run (linked_initial 3) elect_links = Some kv_term"
proof -
  have "link_run (linked_initial 3 :: KVCommand linked) elect_links \<noteq> None" by code_simp
  then show ?thesis by (simp add: kv_term_def)
qed

lemma kv_term_stable: "stable_term 2 (Ballot 1 2) kv_term"
  by (rule stable_term_check [OF kv_term_run]) code_simp

text \<open>The service of server 2, a write that is proposed first and a read after it.\<close>

definition kv_two :: "KVCommand linked \<Rightarrow> KVServer" where
  "kv_two s = \<lparr>kv_me = 2, kv_rf = srv s 2, kv_dead = 0, kv_enableLogging = 1, kv_response = [], kv_seq = [], kv_m = []\<rparr>"

definition write_args :: KVArgs where
  "write_args = PutAppendArgs ''k'' ''v'' ''Put'' ''7#1''"

definition written :: "KVCommand linked" where
  "written = the (link_run kv_term [LPropose 2 \<lparr>kc_Id = 2, kc_Command = write_args\<rparr>])"

definition read_served :: "KVCommand linked" where
  "read_served = the (link_run written (LPropose 2 \<lparr>kc_Id = 2, kc_Command = GetArgs ''k'' ''8#1''\<rparr>
     # replicate 4 (LDeliver 2 0) @ replicate 4 (LDeliver 0 2)))"

definition seen :: "Response list" where
  "seen = kv_response (projr (go_foldM readApply (kv_two kv_term) (take 2 (op_applyCh (srv read_served 2)))))"


lemma written_run: "link_run kv_term [LPropose 2 \<lparr>kc_Id = 2, kc_Command = write_args\<rparr>] = Some written"
proof -
  have "link_run kv_term [LPropose 2 \<lparr>kc_Id = 2, kc_Command = write_args\<rparr>] \<noteq> None" by code_simp
  then show ?thesis by (simp add: written_def)
qed

lemma written_steps: "term_step\<^sup>*\<^sup>* kv_term written"
  by (rule link_run_term [OF written_run]) simp

lemma written_stable: "stable_term 2 (Ballot 1 2) written"
  by (rule term_steps(1) [OF written_steps kv_term_stable])


text \<open>A handler's proposal is the first step of the schedule that serves it.\<close>

lemma served_observed:
  assumes p: "Proposal (srv s 2) c = Inr ((op', ms), res)" and run: "link_run s (LPropose 2 c # as) = Some t"
    and tk: "\<forall>i. LTick i \<notin> set as" and rd: "kv_reads kv0 t 2 n kvk"
  shows "observes 2 kv0 (transmit s 2 op' ms) (\<lambda>_. kv_response kvk)"
proof -
  from p run have "link_run (transmit s 2 op' ms) as = Some t" by (auto split: if_splits)
  from link_run_term [OF this tk] rd show ?thesis by (auto simp: observes_def)
qed

definition read_links :: "KVCommand link_action list" where
  "read_links = replicate 4 (LDeliver 2 0) @ replicate 4 (LDeliver 0 2)"

lemma read_served_run:
  "link_run written (LPropose 2 \<lparr>kc_Id = 2, kc_Command = GetArgs ''k'' ''8#1''\<rparr> # read_links) = Some read_served"
proof -
  have "link_run written (LPropose 2 \<lparr>kc_Id = 2, kc_Command = GetArgs ''k'' ''8#1''\<rparr> # read_links) \<noteq> None" by code_simp
  then show ?thesis by (simp add: read_served_def read_links_def)
qed

lemma kv_init_two: "kv_init (kv_two s)"
  by (simp add: kv_init_def kv_two_def)

lemma seen_reads: "\<exists>kvk. kv_reads (kv_two kv_term) read_served 2 2 kvk \<and> seen = kv_response kvk"
proof -
  have "\<not> isl (go_foldM readApply (kv_two kv_term) (take 2 (op_applyCh (srv read_served 2))))"
    "2 \<le> length (op_applyCh (srv read_served 2))" by code_simp+
  then show ?thesis by (auto simp: kv_reads_def seen_def isl_def split: sum.splits)
     (metis isl_def sum.collapse(2) sum.disc(1))
qed

theorem stable_get_linearised_witness:
  "\<exists>kv' ms reply. Get (kv_two written) (GetArgs ''k'' ''8#1'') (\<lambda>_. seen) = Inr (kv', ms, reply)
     \<and> gr_Err reply = [] \<and> gr_Value reply = ''v''"
proof -
  let ?g = "Get (kv_two written) (GetArgs ''k'' ''8#1'') (\<lambda>_. seen)"
  have g: "\<not> isl ?g" "gr_Err (snd (snd (projr ?g))) = []" "store_of (oplog (srv written 2)) ''k'' = ''v''" by code_simp+
  then obtain kv' ms reply where r: "?g = Inr (kv', ms, reply)" by (metis prod_cases3 sum.collapse(2))
  have "kv_rf (kv_two written) = srv written 2" by (simp add: kv_two_def)
  moreover obtain kvk where k: "kv_reads (kv_two kv_term) read_served 2 2 kvk" "seen = kv_response kvk" using seen_reads by blast
  moreover have "observes 2 (kv_two kv_term) (transmit written 2 (kv_rf kv') ms) (\<lambda>_. seen)"
  proof -
    from r obtain res where "Proposal (srv written 2) \<lparr>kc_Id = 2, kc_Command = GetArgs ''k'' ''8#1''\<rparr> = Inr ((kv_rf kv', ms), res)"
      by (auto simp: Get_def kv_two_def split: if_splits)
    from served_observed [OF this read_served_run _ k(1)] k(2) show ?thesis by (simp add: read_links_def)
  qed
  ultimately show ?thesis
    using stable_get_linearised [OF written_stable _ kv_init_two r] r g by auto
qed


definition write_links :: "KVCommand link_action list" where
  "write_links = replicate 3 (LDeliver 2 0) @ replicate 3 (LDeliver 0 2)"

definition write_served :: "KVCommand linked" where
  "write_served = the (link_run kv_term (LPropose 2 \<lparr>kc_Id = 2, kc_Command = write_args\<rparr> # write_links))"

definition acknowledged :: "Response list" where
  "acknowledged = kv_response (projr (go_foldM readApply (kv_two kv_term) (take 1 (op_applyCh (srv write_served 2)))))"

lemma write_served_run:
  "link_run kv_term (LPropose 2 \<lparr>kc_Id = 2, kc_Command = write_args\<rparr> # write_links) = Some write_served"
proof -
  have "link_run kv_term (LPropose 2 \<lparr>kc_Id = 2, kc_Command = write_args\<rparr> # write_links) \<noteq> None" by code_simp
  then show ?thesis by (simp add: write_served_def)
qed

lemma kv_readsI:
  assumes "\<not> isl (go_foldM readApply kv (take n (op_applyCh (srv s j))))" and "n \<le> length (op_applyCh (srv s j))"
  shows "kv_reads kv s j n (projr (go_foldM readApply kv (take n (op_applyCh (srv s j)))))"
  using assms by (simp add: kv_reads_def)

theorem stable_put_durable_witness:
  "\<exists>kv' ms reply t. PutAppend (kv_two kv_term) write_args (\<lambda>_. acknowledged) = Inr (kv', ms, reply)
     \<and> pr_Err reply = [] \<and> term_step\<^sup>*\<^sup>* (transmit kv_term 2 (kv_rf kv') ms) t
     \<and> prefix [\<lparr>kc_Id = 2, kc_Command = write_args\<rparr>] (applied t 2)
     \<and> is_quorum (ln_n t) (int ` {k. k < ln_n t \<and> prefix [\<lparr>kc_Id = 2, kc_Command = write_args\<rparr>] (oplog (srv t k))})"
proof -
  let ?g = "PutAppend (kv_two kv_term) write_args (\<lambda>_. acknowledged)"
  let ?c = "\<lparr>kc_Id = 2, kc_Command = write_args\<rparr>"
  have g: "\<not> isl ?g" "pr_Err (snd (snd (projr ?g))) = []" "oplog (srv kv_term 2) = []" by code_simp+
  then obtain kv' ms reply where r: "?g = Inr (kv', ms, reply)" by (metis prod_cases3 sum.collapse(2))
  have "\<not> isl (go_foldM readApply (kv_two kv_term) (take 1 (op_applyCh (srv write_served 2))))"
    "1 \<le> length (op_applyCh (srv write_served 2))" by code_simp+
  note k = kv_readsI [OF this, folded acknowledged_def]
  have "kv_rf (kv_two kv_term) = srv kv_term 2" "kv_me (kv_two kv_term) = 2" by (simp_all add: kv_two_def)
  moreover have "observes 2 (kv_two kv_term) (transmit kv_term 2 (kv_rf kv') ms) (\<lambda>_. acknowledged)"
  proof -
    from r obtain res where "Proposal (srv kv_term 2) ?c = Inr ((kv_rf kv', ms), res)"
      by (auto simp: PutAppend_def kv_two_def split: if_splits)
    from served_observed [OF this write_served_run _ k] show ?thesis by (simp add: write_links_def acknowledged_def)
  qed
  ultimately show ?thesis
    using stable_put_durable [OF kv_term_stable _ kv_init_two r [unfolded write_args_def] _ refl] r g(2,3)
    by (fastforce simp: write_args_def)
qed

theorem stable_replicas_agree_witness:
  "\<exists>s' a b. link_run read_served [LDeliver 2 0] = Some s' \<and> kv_reads (kv_two kv_term) read_served 2 1 a
     \<and> kv_reads (kv_two written) s' 0 1 b \<and> kv_store a = kv_store b \<and> kv_store a ''k'' = ''v''"
proof -
  let ?s = "the (link_run read_served [LDeliver 2 0])"
  have "link_run read_served [LDeliver 2 0] \<noteq> None" by code_simp
  then have run: "link_run read_served [LDeliver 2 0] = Some ?s" by (simp add: option.collapse)
  have "\<not> isl (go_foldM readApply (kv_two kv_term) (take 1 (op_applyCh (srv read_served 2))))"
    "1 \<le> length (op_applyCh (srv read_served 2))" by code_simp+
  note a = kv_readsI [OF this]
  have "\<not> isl (go_foldM readApply (kv_two written) (take 1 (op_applyCh (srv ?s 0))))"
    "1 \<le> length (op_applyCh (srv ?s 0))" by code_simp+
  note b = kv_readsI [OF this]
  have st: "stable_term 2 (Ballot 1 2) read_served"
    by (rule term_steps(1) [OF link_run_term [OF read_served_run] written_stable]) (simp add: read_links_def)
  have n: "ln_n read_served = 3" "store_of (take 1 (oplog (srv read_served 2))) ''k'' = ''v''" by code_simp+
  have steps: "term_step\<^sup>*\<^sup>* read_served ?s" by (rule link_run_term [OF run]) simp
  have "2 < ln_n read_served" "0 < ln_n read_served" by (simp_all add: n)
  note agree = stable_replicas_agree [OF st steps this kv_init_two kv_init_two a b]
  show ?thesis
    by (rule exI, rule exI, rule exI, intro conjI, rule run, rule a, rule b) (use agree n(2) in metis)+
qed

end
