(* ===== verification/Logging.thy ===== *)
theory Logging
  imports Cluster KVServer
begin

text \<open>
  The log methods of an OmniPaxos server and of a key-value server (\<open>util.go\<close> of \<open>a2-omnipaxos\<close> and
  of \<open>a3-kvpaxos\<close>).  The logger itself is the package \<open>zerolog\<close>, a parameter: \<open>msgf\<close> writes one
  message at a level and either returns, ends the process or panics; \<open>setGlobalLevel\<close> and \<open>console\<close>
  configure it.  \<open>'w\<close> is whatever state the logger has and \<open>'v\<close> the values that are printed.

  The definitions of the servers leave their log calls out; \<open>silent_op_step\<close> and the theorem at the
  end justify this for the OmniPaxos server: its switch is off from \<open>Make\<close> on, in every cluster.
\<close>

subsection \<open>The logger and the methods\<close>

datatype level = TraceLevel | DebugLevel | InfoLevel | WarnLevel | ErrorLevel | FatalLevel | PanicLevel

datatype 'w ending = Returned 'w | Exited 'w | Panicked 'w

datatype 'v iface = IntValue int | OtherValue 'v

type_synonym ('v, 'w) msgf = "level \<Rightarrow> string \<Rightarrow> 'v iface list \<Rightarrow> 'w \<Rightarrow> 'w ending"

text \<open>\<open>zerolog.Level\<close> is an \<open>int8\<close>, so the conversion of \<open>logLevel\<close> wraps around.\<close>

definition SetupLogger :: "(int \<Rightarrow> 'w \<Rightarrow> 'w) \<Rightarrow> ('w \<Rightarrow> 'w) \<Rightarrow> int \<Rightarrow> bool \<Rightarrow> 'w \<Rightarrow> 'w" where
  "SetupLogger setGlobalLevel console logLevel prettyPrint w =
     (let w1 = setGlobalLevel (signed_take_bit 7 logLevel) w in if prettyPrint then console w1 else w1)"

definition op_Trace :: "('v, 'w) msgf \<Rightarrow> 'c OmniPaxos \<Rightarrow> string \<Rightarrow> 'v iface list \<Rightarrow> 'w \<Rightarrow> 'w ending" where
  "op_Trace msgf op format a w =
     (if op_enableLogging op = 1
      then msgf TraceLevel (''[SERVER=%d] '' @ format) ([IntValue (op_me op)] @ a) w else Returned w)"

definition op_Debug :: "('v, 'w) msgf \<Rightarrow> 'c OmniPaxos \<Rightarrow> string \<Rightarrow> 'v iface list \<Rightarrow> 'w \<Rightarrow> 'w ending" where
  "op_Debug msgf op format a w =
     (if op_enableLogging op = 1
      then msgf DebugLevel (''[SERVER=%d] '' @ format) ([IntValue (op_me op)] @ a) w else Returned w)"

definition op_Info :: "('v, 'w) msgf \<Rightarrow> 'c OmniPaxos \<Rightarrow> string \<Rightarrow> 'v iface list \<Rightarrow> 'w \<Rightarrow> 'w ending" where
  "op_Info msgf op format a w =
     (if op_enableLogging op = 1
      then msgf InfoLevel (''[SERVER=%d] '' @ format) ([IntValue (op_me op)] @ a) w else Returned w)"

definition op_Warn :: "('v, 'w) msgf \<Rightarrow> 'c OmniPaxos \<Rightarrow> string \<Rightarrow> 'v iface list \<Rightarrow> 'w \<Rightarrow> 'w ending" where
  "op_Warn msgf op format a w =
     (if op_enableLogging op = 1
      then msgf WarnLevel (''[SERVER=%d] '' @ format) ([IntValue (op_me op)] @ a) w else Returned w)"

definition op_Error :: "('v, 'w) msgf \<Rightarrow> 'c OmniPaxos \<Rightarrow> string \<Rightarrow> 'v iface list \<Rightarrow> 'w \<Rightarrow> 'w ending" where
  "op_Error msgf op format a w =
     (if op_enableLogging op = 1
      then msgf ErrorLevel (''[SERVER=%d] '' @ format) ([IntValue (op_me op)] @ a) w else Returned w)"

definition op_Fatal :: "('v, 'w) msgf \<Rightarrow> 'c OmniPaxos \<Rightarrow> string \<Rightarrow> 'v iface list \<Rightarrow> 'w \<Rightarrow> 'w ending" where
  "op_Fatal msgf op format a w =
     (if op_enableLogging op = 1
      then msgf FatalLevel (''[SERVER=%d] '' @ format) ([IntValue (op_me op)] @ a) w else Returned w)"

definition op_Panic :: "('v, 'w) msgf \<Rightarrow> 'c OmniPaxos \<Rightarrow> string \<Rightarrow> 'v iface list \<Rightarrow> 'w \<Rightarrow> 'w ending" where
  "op_Panic msgf op format a w =
     (if op_enableLogging op = 1
      then msgf PanicLevel (''[SERVER=%d] '' @ format) ([IntValue (op_me op)] @ a) w else Returned w)"

text \<open>The same methods of a key-value server.\<close>

definition kv_Trace :: "('v, 'w) msgf \<Rightarrow> KVServer \<Rightarrow> string \<Rightarrow> 'v iface list \<Rightarrow> 'w \<Rightarrow> 'w ending" where
  "kv_Trace msgf kv format a w =
     (if kv_enableLogging kv = 1
      then msgf TraceLevel (''[KV SERVER=%d] '' @ format) ([IntValue (kv_me kv)] @ a) w else Returned w)"

definition kv_Debug :: "('v, 'w) msgf \<Rightarrow> KVServer \<Rightarrow> string \<Rightarrow> 'v iface list \<Rightarrow> 'w \<Rightarrow> 'w ending" where
  "kv_Debug msgf kv format a w =
     (if kv_enableLogging kv = 1
      then msgf DebugLevel (''[KV SERVER=%d] '' @ format) ([IntValue (kv_me kv)] @ a) w else Returned w)"

definition kv_Info :: "('v, 'w) msgf \<Rightarrow> KVServer \<Rightarrow> string \<Rightarrow> 'v iface list \<Rightarrow> 'w \<Rightarrow> 'w ending" where
  "kv_Info msgf kv format a w =
     (if kv_enableLogging kv = 1
      then msgf InfoLevel (''[KV SERVER=%d] '' @ format) ([IntValue (kv_me kv)] @ a) w else Returned w)"

definition kv_Warn :: "('v, 'w) msgf \<Rightarrow> KVServer \<Rightarrow> string \<Rightarrow> 'v iface list \<Rightarrow> 'w \<Rightarrow> 'w ending" where
  "kv_Warn msgf kv format a w =
     (if kv_enableLogging kv = 1
      then msgf WarnLevel (''[KV SERVER=%d] '' @ format) ([IntValue (kv_me kv)] @ a) w else Returned w)"

definition kv_Error :: "('v, 'w) msgf \<Rightarrow> KVServer \<Rightarrow> string \<Rightarrow> 'v iface list \<Rightarrow> 'w \<Rightarrow> 'w ending" where
  "kv_Error msgf kv format a w =
     (if kv_enableLogging kv = 1
      then msgf ErrorLevel (''[KV SERVER=%d] '' @ format) ([IntValue (kv_me kv)] @ a) w else Returned w)"

definition kv_Fatal :: "('v, 'w) msgf \<Rightarrow> KVServer \<Rightarrow> string \<Rightarrow> 'v iface list \<Rightarrow> 'w \<Rightarrow> 'w ending" where
  "kv_Fatal msgf kv format a w =
     (if kv_enableLogging kv = 1
      then msgf FatalLevel (''[KV SERVER=%d] '' @ format) ([IntValue (kv_me kv)] @ a) w else Returned w)"

definition kv_Panic :: "('v, 'w) msgf \<Rightarrow> KVServer \<Rightarrow> string \<Rightarrow> 'v iface list \<Rightarrow> 'w \<Rightarrow> 'w ending" where
  "kv_Panic msgf kv format a w =
     (if kv_enableLogging kv = 1
      then msgf PanicLevel (''[KV SERVER=%d] '' @ format) ([IntValue (kv_me kv)] @ a) w else Returned w)"

lemmas op_log_defs = op_Trace_def op_Debug_def op_Info_def op_Warn_def op_Error_def op_Fatal_def op_Panic_def
lemmas kv_log_defs = kv_Trace_def kv_Debug_def kv_Info_def kv_Warn_def kv_Error_def kv_Fatal_def kv_Panic_def

subsection \<open>The switch\<close>

lemma silent_persist [simp]: "op_enableLogging (persist op) = op_enableLogging op"
  by (simp add: persist_def)

lemma silent_trigger: "triggerLeader op s n = Inr (op', ms) \<Longrightarrow> op_enableLogging op' = op_enableLogging op"
  by (auto simp: triggerLeader_def Let_def split: if_splits)

lemma silent_timer:
  assumes "startTimer op = Inr (op', ms)"
  shows "op_enableLogging op' = op_enableLogging op"
  using assms
proof (rule startTimer_Inr)
  fix op1 op2 ms2 op3 ms3
  assume 1: "op1 = op\<lparr>op_ballots := mput (op_b op) (op_qc op) (op_ballots op)\<rparr>"
    and 2: "(if majority (op_peers op1) \<le> length (op_ballots op1) then checkLeader op1
             else Inr (op1\<lparr>op_qc := False\<rparr>, [])) = Inr (op2, ms2)"
    and 3: "updateMissedHbsAndReconnect op2 = Inr (op3, ms3)"
    and 4: "op' = op3\<lparr>op_ballots := [], op_r := op_r op3 + 1\<rparr>"
  have "op_enableLogging op2 = op_enableLogging op1"
    using 2 by (auto simp: checkLeader_def Let_def dest!: silent_trigger split: if_splits)
  with 1 3 4 show ?thesis by (auto elim!: updateMissed_Inr)
qed

lemma silent_adopt: "adoptPromise op mx = Inr op' \<Longrightarrow> op_enableLogging op' = op_enableLogging op"
  by (auto simp: adoptPromise_def Let_def stopped_def)

lemma silent_handle:
  assumes "handle rng op m = Inr (op', ms)"
  shows "op_enableLogging op' = op_enableLogging op"
proof (cases m)
  case (PromiseRequest f n a i d s)
  with assms show ?thesis
    by (auto simp: PromiseHandler_def Let_def dest!: silent_adopt split: if_splits option.splits)
next
  case (AcceptedRequest f n i)
  with assms have "AcceptedHandler op f n i = Inr (op', ms)" by simp
  then show ?thesis by (cases rule: AcceptedHandler_Inr) simp_all
qed (use assms in \<open>auto simp: handler_defs Let_def addToApplyChan_Inr split: if_splits\<close>)

lemma silent_op_step: "op_step op op' ms \<Longrightarrow> op_enableLogging op' = op_enableLogging op"
  by (induction rule: op_step.induct)
     (auto dest: silent_handle silent_timer simp: Proposal_def stopped_def Let_def split: if_splits)

lemma silent_Make: "Make n me ps = Inr op \<Longrightarrow> op_enableLogging op = 0"
  by (auto simp: Make_def Let_def readPersist_def addToApplyChan_Inr)

definition silent :: "'c cluster \<Rightarrow> bool" where
  "silent s \<longleftrightarrow> (\<forall>op \<in> set (cl_servers s). op_enableLogging op = 0)"

lemma silent_put: "silent s \<Longrightarrow> op_enableLogging op = 0 \<Longrightarrow> silent (put_server s i op ms)"
  using set_update_subset_insert by (fastforce simp: silent_def put_server_def)

lemma silent_step: "cluster_step s t \<Longrightarrow> silent s \<Longrightarrow> silent t"
proof (induction rule: cluster_step.induct)
  case (cs_deliver i s m rng op' ms)
  then show ?case using silent_handle [OF cs_deliver(4)] by (intro silent_put) (auto simp: silent_def)
next
  case (cs_timer i s op' ms)
  then show ?case using silent_timer [OF cs_timer(2)] by (intro silent_put) (auto simp: silent_def)
next
  case (cs_propose i s c op' ms r)
  then show ?case using silent_op_step [OF step_propose [OF cs_propose(2)]]
    by (intro silent_put) (auto simp: silent_def)
next
  case (cs_restart i s op op')
  then show ?case using silent_Make [OF cs_restart(3)] by (auto intro!: silent_put)
qed

lemma silent_init: "cluster_init n s \<Longrightarrow> silent s"
  using silent_Make by (fastforce simp: cluster_init_def silent_def in_set_conv_nth)

interpretation quiet: inductive_invariant "cluster_init n" cluster_step silent for n
  by unfold_locales (auto intro: silent_init silent_step)

text \<open>
  C20: nothing is logged behind the model's back.  In every reachable cluster every log method of
  every server, \<open>Fatal\<close> and \<open>Panic\<close> included, returns without calling the logger, whatever the logger
  does; so the log calls in the handlers, which the model leaves out, change nothing.
\<close>

theorem cluster_logs_nothing:
  assumes "cluster_reach n s" and "op \<in> set (cl_servers s)"
  shows "op_Trace msgf op format a w = Returned w \<and> op_Debug msgf op format a w = Returned w
    \<and> op_Info msgf op format a w = Returned w \<and> op_Warn msgf op format a w = Returned w
    \<and> op_Error msgf op format a w = Returned w \<and> op_Fatal msgf op format a w = Returned w
    \<and> op_Panic msgf op format a w = Returned w"
  using quiet.reach_inv [OF assms(1)] assms(2) by (simp add: silent_def op_log_defs)

theorem cluster_logs_nothing_witness:
  "op_Fatal (\<lambda>_ _ _ w. Exited w) (cl_servers lost_accept_end ! 2) ''stop'' ([] :: unit iface list) (0 :: nat) = Returned 0"
proof -
  have "length (cl_servers lost_accept_end) = 3" by code_simp
  then have "cl_servers lost_accept_end ! 2 \<in> set (cl_servers lost_accept_end)" by simp
  from cluster_logs_nothing [OF lost_accept_reach this, of "\<lambda>_ _ _ w. Exited w" "''stop''" "[] :: unit iface list" "0 :: nat"]
  show ?thesis by simp
qed

text \<open>
  A key-value server logs from its start on, each message with its own number first, and goes on
  logging after \<open>Kill\<close>, while its OmniPaxos server is silent throughout.
\<close>

lemma kv_logs_always:
  assumes "StartKVServer n me ps = Inr kv" and "kv' = kv \<or> kv' = KVKill kv"
  shows "kv_Info msgf kv' format a w = msgf InfoLevel (''[KV SERVER=%d] '' @ format) (IntValue me # a) w"
    and "kv_Fatal msgf kv' format a w = msgf FatalLevel (''[KV SERVER=%d] '' @ format) (IntValue me # a) w"
    and "op_Info msgf (kv_rf kv') format a w = Returned w"
proof -
  from assms(1) obtain rf where "Make n me ps = Inr rf" "kv_rf kv = rf" "kv_me kv = me" "kv_enableLogging kv = 1"
    by (auto simp: StartKVServer_def)
  with assms(2) silent_Make [OF \<open>Make n me ps = Inr rf\<close>]
  show "kv_Info msgf kv' format a w = msgf InfoLevel (''[KV SERVER=%d] '' @ format) (IntValue me # a) w"
    and "kv_Fatal msgf kv' format a w = msgf FatalLevel (''[KV SERVER=%d] '' @ format) (IntValue me # a) w"
    and "op_Info msgf (kv_rf kv') format a w = Returned w"
    by (auto simp: KVKill_def Kill_def kv_log_defs op_log_defs)
qed

end
