(* ===== verification/Spec2Isabelle.thy ===== *)
theory Spec2Isabelle
  imports Labgob Naive Testing Names ShardTesting ReplicatedKV Logging
begin

text \<open>
  A verification library for OmniPaxos-KV: a replicated log after OmniPaxos, a key-value service on
  top of it, a sharded key-value service with its shard controller, the simulated network, the
  encoding checks and the futures they come with, and the harnesses that run and test them.

  \<^bold>\<open>The program.\<close>  A cluster of \<open>OmniPaxos\<close> servers (\<open>a2-omnipaxos\<close>) elects a leader by ballots that travel
  with heartbeats, and replicates a log by prepare, promise, accept-sync, accept, accepted and decide
  requests; what is decided goes, in order, into \<open>applyCh\<close>.  A \<open>KVServer\<close> (\<open>a3-kvpaxos\<close>), a \<open>ShardCtrler\<close>
  (\<open>a3b-sharding/shardctrler\<close>) and a \<open>ShardKV\<close> server (\<open>a3b-sharding/shardkv\<close>) each embed one OmniPaxos
  server: handlers propose commands, a goroutine reads \<open>applyCh\<close> and executes them, clerks retry until
  they get an answer.  The controller assigns ten shards to groups of shard servers; the groups poll
  it, fetch the shards they gain from their old owners and tell these to delete them.  Requests
  travel through \<open>labrpc\<close>, encoded by \<open>labgob\<close>.  Nothing but the four files \<open>config.go\<close> puts servers together:
  they make the network, its end points and the servers, crash, restart, disconnect and partition
  them, and check what the servers apply.

  \<^bold>\<open>The theories.\<close>
  \<^item> \<open>Prelude\<close>: Go results (\<open>Inl\<close> a run-time panic), slices with their bounds, finite maps as association
    lists, majorities; the locales \<open>inductive_invariant\<close> and \<open>quorum_system\<close> with reachability.
  \<^item> \<open>Ballots\<close> (\<open>omnipaxos.go\<close>: \<open>Ballot\<close>, \<open>compare\<close>, \<open>max\<close>, \<open>increment\<close>): the order of rounds.
  \<^item> \<open>Persistence\<close> (\<open>persister.go\<close>, \<open>toBytes\<close>, \<open>omnipaxosStatefromBytes\<close>): stable storage.
  \<^item> \<open>OmniPaxos\<close> (\<open>omnipaxos.go\<close>): the server record, every handler, the election timer, \<open>Proposal\<close>, \<open>Make\<close>.
    A handler returns the new server and the requests it sends, or the panic.
  \<^item> \<open>Server\<close>: the invariant of one server, its preservation by every operation, restart.
  \<^item> \<open>Replication\<close>: what the single operations achieve, and where they do not do what they mean to.
  \<^item> \<open>Cluster\<close>: servers and a network that keeps every request and delivers any of them at any time, any
    number of times or never; crashes and restarts.  Rounds have one leader, an accept phase cuts
    off older rounds, decisions have majorities; a schedule on which agreement fails.
  \<^item> \<open>Links\<close>: the same servers over links that keep the order of requests and lose none, each execution of
    which is an execution of \<open>Cluster\<close>; \<open>Stable\<close>: a term of one leader over such links, its invariant
    \<open>stable_term\<close> and the replicated log it implements (\<open>rlog_step\<close>); \<open>Progress\<close>: what is proposed gets applied.
  \<^item> \<open>Sessions\<close>: the locales \<open>at_most_once\<close> and \<open>session_machine\<close>: a machine that remembers the last request
    number of each client executes no request twice.  All three services interpret them.
  \<^item> \<open>GoStrings\<close>: \<open>strings.Split\<close>, \<open>strconv.Itoa\<close>, \<open>strconv.Atoi\<close>.
  \<^item> \<open>KVServer\<close> (\<open>a3-kvpaxos/server.go\<close>, \<open>client.go\<close>, \<open>common.go\<close>): apply loop, handlers, clerk;
    \<open>ReplicatedKV\<close>: the service and its log together during a stable term.
  \<^item> \<open>Logging\<close> (\<open>util.go\<close> of \<open>a2-omnipaxos\<close> and \<open>a3-kvpaxos\<close>): the log methods, with the logger as a parameter.
  \<^item> \<open>ShardCtrler\<close>, \<open>Rebalance\<close>, \<open>Controller\<close> (\<open>shardctrler/server.go\<close>, \<open>client.go\<close>, \<open>common.go\<close>): definitions, the
    analysis of \<open>balance\<close> and \<open>assingToMin\<close>, and the properties of the controller.
  \<^item> \<open>ShardKV\<close>, \<open>ShardReplica\<close>, \<open>Migration\<close> (\<open>shardkv/server.go\<close>, \<open>apply.go\<close>, \<open>reconf.go\<close>, \<open>client.go\<close>,
    \<open>common.go\<close>): definitions, one replica with its goroutines interleaved, and the movement of shards
    between groups (\<open>system_step\<close>), with a run on which two groups serve a shard.
  \<^item> \<open>Labrpc\<close> (\<open>labrpc/labrpc.go\<close>), \<open>Labgob\<close> (\<open>labgob/labgob.go\<close>), \<open>Futures\<close> (\<open>a1-futures/future.go\<close>), \<open>Naive\<close>
    (\<open>a1-futures/naive/naive_requests.go\<close>).
  \<^item> \<open>Tester\<close> (\<open>a2-omnipaxos/config.go\<close>): the harness of the log; \<open>Endpoints\<close>: its connections, crashes and
    restarts, partial ones too, with the invariant \<open>harness_ok\<close> on the set of links; \<open>Testing\<close>: its checks.
  \<^item> \<open>ServiceTester\<close> (\<open>a3-kvpaxos/config.go\<close>, \<open>shardctrler/config.go\<close>, which have the same connections, partitions
    and clerks and start different servers): the harnesses of two services; \<open>Partitions\<close>: the locale
    \<open>link_table\<close>, the links after a partition, and a restart; \<open>ServiceTesting\<close>: the locale \<open>service\<close>, and the
    configurations the harnesses make; \<open>CtrlTesting\<close>: the controller's harness; \<open>Names\<close>: the helpers of all
    harnesses, random names among them.
  \<^item> \<open>ShardTester\<close> (\<open>shardkv/config.go\<close>): the harness of the sharded service; \<open>ShardTesting\<close>: the locale
    \<open>server_names\<close>, starting, joining and shutting down groups.
  \<^item> This theory: the services on the replicated log, and the network under it with the handlers as
    \<open>labrpc\<close> finds and calls them.

  \<^bold>\<open>What is shown.\<close>  Of the log: the server invariant, one leader per round, decisions backed by majorities,
  recovery from storage, and the exact effect of the operations.  Agreement itself does not hold of
  the code on every network: \<open>Cluster\<close> has a run with one lost request after which two servers decided
  different commands at one index.  It does hold during a term of one leader whose requests arrive in
  order: the servers then implement one log, what is decided is stored by a majority, and after
  finitely many deliveries every server that promised the round has applied what was proposed; on top
  of it a read of the key-value service sees every command that was in the log when it was proposed,
  and an acknowledged write stays at its position.  That a term is stable is a hypothesis on the state in which
  it starts (\<open>stable_term\<close>), met by an election over links in which nobody stored anything before (\<open>term_start\<close>);
  the network of \<open>labrpc\<close> starts a goroutine per request and does not promise such links.  Of the services: no request is executed twice, reads return the value at
  their position in the log, handlers answer, the controller rebalances and terminates, a
  shard moves with its data and its table of requests, and at most one group serves it as long as no
  shard goes back to nobody and no change takes effect that was built more than one configuration
  before.  Of the network: a call runs its method at most once and fails only for a reason, and what
  it does is a step of the cluster or the panic of a handler.  Of the encoding: every type
  is checked once, and a decode that reports nothing returns the exported fields that were sent.  Of the harnesses: calls
  get through exactly along the links that connects and disconnects, partial ones too, have left, a restart by the harness is a restart of the cluster
  model, the checks fail exactly on disagreement and on gaps, a partition isolates the leader, restarted servers
  rebuild their state, the configuration a joined group leads to names servers that answer, and a
  group that is shut down is cut off and no other.  A
  theorem about a defect states what the code does on a concrete kind of input.

  \<^bold>\<open>Choices.\<close>  Go's \<open>int\<close> is \<open>int\<close> where the values are counters and indices; request numbers read from text are
  clamped to 64 bits by \<open>Atoi\<close>; the network's statistics are words of their width.  Go visits a map in any
  order: such loops take the order as an argument (\<open>rng\<close>, a permutation), and results hold for all.
  Loops without a bound are \<open>partial_function (option)\<close> (\<open>balance\<close>, the clerks' loops), and a claim that
  they return is proved as such; the polling loops run at most six times, as the code bounds them, so
  no fuel is used.  A goroutine is a step of a relation, split where it waits (\<open>proposeStart\<close>,
  \<open>proposeEnd\<close>, \<open>wait_step\<close>); what runs under a mutex is one step.  Time is not modelled: a timer may expire
  at any moment.  In the harnesses random names and numbers are arguments, a configuration that is read
  while it changes is a sequence of observations, and a failed test is the result \<open>Inl TFail\<close> or \<open>Inl TFatal\<close>;
  an instance that was shut down is forgotten, because its end points are disabled (\<open>harness_ok\<close>) and
  nothing it sends arrives.

  \<^bold>\<open>Not modelled.\<close>  The bytes of \<open>encoding/gob\<close> (streams are lists of messages, in \<open>Persistence\<close> and \<open>Labgob\<close>,
  where a message has the exported fields that are not zero, and how a slice or map is merged into a
  used variable is a parameter),
  reflection beyond what \<open>labrpc\<close> and \<open>labgob\<close> ask of it, HTTP and JSON (parameters of \<open>Futures\<close>), the logger
  \<open>zerolog\<close> (a parameter of \<open>Logging\<close>; the servers' definitions leave their log calls out, which \<open>Logging\<close> shows to be
  without effect for the OmniPaxos server), durations and sleeping, and of the harnesses what is
  printed, the seeding of the random generator, the copy \<open>makeClientBenchmark\<close> of \<open>makeClient\<close>, and \<open>encodeSnapshot\<close> and
  \<open>decodeSnapshot\<close>, which nothing calls.
\<close>

section \<open>The services on the replicated log\<close>

text \<open>
  C17: the key-value service on a reachable cluster.  A server that has read the channel of its
  OmniPaxos server has one response per decided entry, at the position the handlers look for it: the
  response at position \<open>k\<close> answers the command the log decided with index \<open>k\<close>, and a read is
  answered with the store after the entries before it.
\<close>
theorem kv_service_on_cluster:
  assumes "cluster_reach n s" and "i < n" and "kv_init kv" and "\<forall>msg \<in> set (op_applyCh (cl_servers s ! i)). id_ok msg"
  shows "\<exists>kv'. go_foldM readApply kv (op_applyCh (cl_servers s ! i)) = Inr kv'
    \<and> length (kv_response kv') = nat (decidedIdx (cl_servers s ! i))
    \<and> (\<forall>k < length (kv_response kv'). rsp_command (kv_response kv' ! k) = Command (op_applyCh (cl_servers s ! i) ! k)
         \<and> CommandIndex (op_applyCh (cl_servers s ! i) ! k) = int k
         \<and> (\<forall>key ident. kc_Command (rsp_command (kv_response kv' ! k)) = GetArgs key ident \<longrightarrow>
              rsp_value (kv_response kv' ! k) = store_after (take k (op_applyCh (cl_servers s ! i))) key))"
proof -
  obtain kv' where kv': "go_foldM readApply kv (op_applyCh (cl_servers s ! i)) = Inr kv'"
    using go_foldM_total [of "op_applyCh (cl_servers s ! i)" "\<lambda>_. True" readApply kv] assms(4) readApply_total by auto
  with responses_run [OF assms(3) kv'] applyCh_position [OF assms(1,2)] show ?thesis by auto
qed

text \<open>
  C18: the sharded service on a reachable cluster.  A started shard server reads the channel of its
  OmniPaxos server to the end, without a panic and without blocking on a result channel, whatever the
  clerks, the other groups and the controller make it do in between.
\<close>
theorem shard_service_on_cluster:
  assumes "cluster_reach n s" and "i < n" and "replica_init gid (kv, 0)"
    and "\<forall>m \<in> set (op_applyCh (cl_servers s ! i)). op_wf (Command m)"
  shows "\<exists>kv'. go_foldM sk_step kv (op_applyCh (cl_servers s ! i)) = Inr kv'
    \<and> reach (replica_init gid) replica_step (kv', decidedIdx (cl_servers s ! i))"
proof -
  let ?op = "cl_servers s ! i"
  have start: "reach (replica_init gid) replica_step (kv, 0)" using assms(3) by (rule reach_init)
  have idx: "\<forall>k < length (op_applyCh ?op). op_wf (Command (op_applyCh ?op ! k)) \<and> CommandIndex (op_applyCh ?op ! k) = 0 + int k"
    using assms(4) applyCh_position(2) [OF assms(1,2)] by simp
  have "server_ok ?op" using reach_facts(1) [OF assms(1)] assms(2) by (simp add: cluster_ok_def server_inv_def)
  then have "0 \<le> decidedIdx ?op" by (simp add: server_ok_def)
  then have "0 + int (length (op_applyCh ?op)) = decidedIdx ?op" using applyCh_position(1) [OF assms(1,2)] by simp
  with sk_log_total [OF start idx] show ?thesis by simp
qed

section \<open>The network\<close>

text \<open>
  The OmniPaxos server \<open>i\<close> of a cluster as the harness registers it with its RPC server.  Each request
  has the handler whose parameter has its type; a handler called with another request is a panic of
  \<open>reflect\<close>.  A handler changes the server and sends to the network, its panic ends the process, and
  only \<open>HeartBeatHandler\<close> fills its reply.  \<open>MakeService\<close> finds all exported methods of the server and
  keeps the handlers.
\<close>

fun handlerName :: "'c rpc \<Rightarrow> string" where
  "handlerName (PrepareRequest _ _ _ _ _) = ''PrepareHandler''"
| "handlerName (PromiseRequest _ _ _ _ _ _) = ''PromiseHandler''"
| "handlerName (AcceptSyncRequest _ _ _ _) = ''AcceptSyncHandler''"
| "handlerName (DecideRequest _ _ _) = ''DecideHandler''"
| "handlerName (AcceptedRequest _ _ _) = ''AcceptedHandler''"
| "handlerName (AcceptRequest _ _ _ _) = ''AcceptHandler''"
| "handlerName (PrepareReqRequest _) = ''PrepareReqHandler''"
| "handlerName (ReconnectedRequest _) = ''ReconnectedHandler''"
| "handlerName (HBRequest _ _) = ''HeartBeatHandler''"
| "handlerName (HBResponse _ _ _) = []"

definition handlerMethod :: "nat \<Rightarrow> ('c Promise list \<Rightarrow> 'c Promise list) \<Rightarrow> string \<Rightarrow> 'c rpc \<Rightarrow> 'c cluster
    \<Rightarrow> rpc_stop + ('c cluster \<times> HBReply option)" where
  "handlerMethod i rng name m s =
     (if handlerName m \<noteq> name then Inl RReflect
      else case handle rng (cl_servers s ! i) m of
             Inl p \<Rightarrow> Inl (RPanic p)
           | Inr (op', ms) \<Rightarrow> Inr (put_server s i op' ms,
               case m of HBRequest _ r \<Rightarrow> Some (HeartBeatHandler (cl_servers s ! i) r) | _ \<Rightarrow> None))"

definition exported :: "nat \<Rightarrow> ('c Promise list \<Rightarrow> 'c Promise list) \<Rightarrow> nat \<Rightarrow> bool \<Rightarrow> nat \<Rightarrow> string
    \<Rightarrow> ('c rpc, 'c cluster, HBReply option) method_desc" where
  "exported i rng nin ptr nout name = \<lparr>md_name = name, md_PkgPath = [], md_NumIn = nin, md_In2Ptr = ptr, md_NumOut = nout,
     md_Func = handlerMethod i rng name\<rparr>"

definition handlerNames :: "string list" where
  "handlerNames = [''HeartBeatHandler'', ''PrepareHandler'', ''PromiseHandler'', ''AcceptSyncHandler'', ''DecideHandler'',
     ''AcceptedHandler'', ''AcceptHandler'', ''ReconnectedHandler'', ''PrepareReqHandler'']"

definition omnipaxos_service :: "nat \<Rightarrow> ('c Promise list \<Rightarrow> 'c Promise list) \<Rightarrow> ('c rpc, 'c cluster, HBReply option) Service" where
  "omnipaxos_service i rng = MakeService ''OmniPaxos''
     (map (exported i rng 3 False 2) [''Trace'', ''Debug'', ''Info'', ''Warn'', ''Error'', ''Fatal'', ''Panic'']
      @ [exported i rng 1 False 2 ''GetState'', exported i rng 2 False 3 ''Proposal'', exported i rng 1 False 0 ''Kill'']
      @ map (exported i rng 3 True 0) handlerNames)"

definition svcMethOf :: "'c rpc \<Rightarrow> string" where
  "svcMethOf m = ''OmniPaxos.'' @ handlerName m"

lemma handlerName_cases: "handlerName m \<noteq> [] \<Longrightarrow> handlerName m \<in> set handlerNames \<and> CHR ''.'' \<notin> set (handlerName m)"
  by (cases m) (simp_all add: handlerNames_def)

lemma service_methods:
  "map_of (svc_methods (omnipaxos_service i rng)) h = (if h \<in> set handlerNames then Some (handlerMethod i rng h) else None)"
  unfolding omnipaxos_service_def by (subst MakeService_methods [of _ "handlerMethod i rng"]) (auto simp: exported_def)

text \<open>The service is found by its name, and each request by the name of its handler.\<close>

lemma omnipaxos_method:
  assumes "map_of (rs_services rs) ''OmniPaxos'' = Some (omnipaxos_service i rng)" and "handlerName m \<noteq> []"
  shows "method_of rs (svcMethOf m) = Some (handlerMethod i rng (handlerName m))"
proof -
  have meth: "svcMethOf m = ''OmniPaxos'' @ CHR ''.'' # handlerName m" by (simp add: svcMethOf_def)
  note h = handlerName_cases [OF assms(2)]
  show ?thesis unfolding meth method_of_dot [OF conjunct2 [OF h]] using h assms(1) by (simp add: service_methods)
qed

lemma svcMethOf_dot: "0 \<le> lastDot (svcMethOf m)" if "handlerName m \<noteq> []"
proof -
  have meth: "svcMethOf m = ''OmniPaxos'' @ CHR ''.'' # handlerName m" by (simp add: svcMethOf_def)
  show ?thesis unfolding meth lastDot_append [OF conjunct2 [OF handlerName_cases [OF that]]] by simp
qed


section \<open>A run of the services\<close>

text \<open>Server 2 of three becomes the leader and decides two commands.\<close>

definition decide_two :: "'c \<Rightarrow> 'c \<Rightarrow> 'c action list" where
  "decide_two c d = elect_2 @ [Propose 2 c, Propose 2 d, Deliver 20, Deliver 21, Deliver 23]"

definition kv_write :: KVCommand where
  "kv_write = \<lparr>kc_Id = 2, kc_Command = PutAppendArgs ''k'' ''x'' ''Append'' ''7#1''\<rparr>"

definition kv_read :: KVCommand where
  "kv_read = \<lparr>kc_Id = 2, kc_Command = GetArgs ''k'' ''7#2''\<rparr>"

definition kv_cluster :: "KVCommand cluster" where
  "kv_cluster = the (run (initial 3) (decide_two kv_write kv_read))"

lemma kv_cluster_reach: "cluster_reach 3 kv_cluster"
proof (rule run_initial)
  have "run (initial 3) (decide_two kv_write kv_read) \<noteq> None" by code_simp
  then show "run (initial 3) (decide_two kv_write kv_read) = Some kv_cluster" by (simp add: kv_cluster_def)
qed

lemma kv_cluster_log:
  "op_applyCh (cl_servers kv_cluster ! 2) =
     [\<lparr>CommandValid = True, Command = kv_write, CommandIndex = 0\<rparr>, \<lparr>CommandValid = True, Command = kv_read, CommandIndex = 1\<rparr>]"
  by code_simp

theorem kv_service_on_cluster_witness:
  "\<exists>kv'. go_foldM readApply kv_example (op_applyCh (cl_servers kv_cluster ! 2)) = Inr kv'
    \<and> length (kv_response kv') = 2 \<and> rsp_value (kv_response kv' ! 1) = ''x''"
proof -
  let ?log = "op_applyCh (cl_servers kv_cluster ! 2)"
  have init: "kv_init kv_example" by (simp add: kv_init_def kv_example_def)
  have ids: "\<forall>msg \<in> set ?log. id_ok msg" by (simp add: kv_cluster_log kv_write_def kv_read_def id_ok_def)
  have dec: "decidedIdx (cl_servers kv_cluster ! 2) = 2" by code_simp
  have two: "2 < (3 :: nat)" by simp
  from kv_service_on_cluster [OF kv_cluster_reach two init ids] obtain kv' where
    kv': "go_foldM readApply kv_example ?log = Inr kv'" "length (kv_response kv') = 2"
    "\<forall>k < length (kv_response kv'). rsp_command (kv_response kv' ! k) = Command (?log ! k)
       \<and> (\<forall>key ident. kc_Command (rsp_command (kv_response kv' ! k)) = GetArgs key ident \<longrightarrow>
            rsp_value (kv_response kv' ! k) = store_after (take k ?log) key)"
    by (auto simp: dec)
  then have "rsp_value (kv_response kv' ! 1) = store_after (take 1 ?log) ''k''"
    by (simp add: kv_cluster_log kv_read_def)
  also have "\<dots> = ''x''" unfolding kv_cluster_log by code_simp
  finally show ?thesis using kv' by auto
qed

definition sk_cluster :: "Op cluster" where
  "sk_cluster = the (run (initial 3) (decide_two (change_op (all_to 1)) (putAppendOp CAPPEND ''x'' ''a'' 7 1)))"

lemma sk_cluster_reach: "cluster_reach 3 sk_cluster"
proof (rule run_initial)
  have "run (initial 3) (decide_two (change_op (all_to 1)) (putAppendOp CAPPEND ''x'' ''a'' 7 1)) \<noteq> None" by code_simp
  then show "run (initial 3) (decide_two (change_op (all_to 1)) (putAppendOp CAPPEND ''x'' ''a'' 7 1)) = Some sk_cluster"
    by (simp add: sk_cluster_def)
qed

lemma sk_cluster_log: "op_applyCh (cl_servers sk_cluster ! 2) = take 2 sk_log"
  by code_simp

theorem shard_service_on_cluster_witness:
  "\<exists>kv'. go_foldM sk_step (sk_started 1) (take 2 sk_log) = Inr kv' \<and> reach (replica_init 1) replica_step (kv', 2)"
proof -
  have wf: "\<forall>m \<in> set (op_applyCh (cl_servers sk_cluster ! 2)). op_wf (Command m)"
    using sk_log_wf by (auto simp: sk_cluster_log dest: in_set_takeD)
  have dec: "decidedIdx (cl_servers sk_cluster ! 2) = 2" by code_simp
  have two: "2 < (3 :: nat)" by simp
  from shard_service_on_cluster [OF sk_cluster_reach two start_sk wf] show ?thesis
    by (simp add: dec sk_cluster_log)
qed

text \<open>A network with an end point connected to server 2 of the cluster.\<close>

definition paxos_server :: "(KVCommand rpc, KVCommand cluster, HBReply option) RpcServer" where
  "paxos_server = AddService MakeServer (omnipaxos_service 2 id)"

definition paxos_net :: "(nat, nat, KVCommand rpc, KVCommand cluster, HBReply option) Network" where
  "paxos_net = MakeNetwork\<lparr>rn_enabled := [(0, True)], rn_connections := [(0, Some 2)], rn_servers := [(2, Some 0)],
     rn_heap := [(0, paxos_server)]\<rparr>"

lemma svc_name_service [simp]: "svc_name (omnipaxos_service i rng) = ''OmniPaxos''"
  by (simp add: omnipaxos_service_def MakeService_def)

lemma paxos_net_ok: "net_ok paxos_net" "reaches paxos_net 0 = Some (2, 0, paxos_server)"
  "map_of (rs_services paxos_server) ''OmniPaxos'' = Some (omnipaxos_service 2 id)"
  by (simp_all add: net_ok_def reaches_def paxos_net_def MakeNetwork_def mget0_def paxos_server_def AddService_def
      MakeServer_def)


end
